(* ===== verification/QP_Prelude.thy ===== *)
theory QP_Prelude
  imports Main "HOL-Library.Word"
begin

text \<open>
  Shared vocabulary of the development: the machine integers of the source and the checked and
  saturating operations of the Rust standard library on them, results as sums, ordered maps
  (\<open>BTreeMap\<close>) as association lists sorted by key, and the list idioms (\<open>windows(2)\<close>,
  \<open>find_map\<close>, the prefix test for duplicates) that several components use.
\<close>

named_theorems qp_result \<open>case analysis of results and checked arithmetic\<close>
named_theorems qp_map \<open>lookup laws of ordered maps\<close>

section \<open>Machine integers\<close>

type_synonym u8 = "8 word"
type_synonym u16 = "16 word"
type_synonym u64 = "64 word"

text \<open>
  A \<open>usize\<close> is a length or a count; it is a natural number, and the two places where the source
  guards against its overflow use the bound of a 64-bit target explicitly.
\<close>

type_synonym usize = nat

definition usize_max :: usize where
  "usize_max = 2 ^ 64 - 1"

definition u64_max :: u64 where
  "u64_max = - 1"

definition checked_add :: "u64 \<Rightarrow> u64 \<Rightarrow> u64 option" where
  "checked_add a b = (if unat a + unat b < 2 ^ 64 then Some (a + b) else None)"

definition checked_mul :: "u64 \<Rightarrow> u64 \<Rightarrow> u64 option" where
  "checked_mul a b = (if unat a * unat b < 2 ^ 64 then Some (a * b) else None)"

definition checked_sub :: "u64 \<Rightarrow> u64 \<Rightarrow> u64 option" where
  "checked_sub a b = (if b \<le> a then Some (a - b) else None)"

definition saturating_add :: "u64 \<Rightarrow> u64 \<Rightarrow> u64" where
  "saturating_add a b = (if unat a + unat b < 2 ^ 64 then a + b else u64_max)"

definition saturating_sub :: "u64 \<Rightarrow> u64 \<Rightarrow> u64" where
  "saturating_sub a b = (if b \<le> a then a - b else 0)"

definition usize_checked_mul :: "usize \<Rightarrow> usize \<Rightarrow> usize option" where
  "usize_checked_mul a b = (if a * b \<le> usize_max then Some (a * b) else None)"

definition usize_checked_add :: "usize \<Rightarrow> usize \<Rightarrow> usize option" where
  "usize_checked_add a b = (if a + b \<le> usize_max then Some (a + b) else None)"

lemma unat_u64_max: "unat u64_max = 2 ^ 64 - 1"
  by (simp add: u64_max_def unsigned_minus_1_eq_mask mask_eq_exp_minus_1)

lemma le_u64_max [simp]: "a \<le> u64_max"
  by (simp add: u64_max_def)

lemma not_u64_max_less [simp]: "\<not> u64_max < a"
  by (simp add: not_less)

lemma checked_add_Some [qp_result]:
  "checked_add a b = Some c \<longleftrightarrow> unat c = unat a + unat b"
proof -
  have u: "unat a + unat b < 2 ^ 64 \<Longrightarrow> unat (a + b) = unat a + unat b"
    by (simp add: unat_word_ariths)
  have l: "unat c < 2 ^ 64"
    using unsigned_less [of c] by simp
  show ?thesis
  proof
    assume "checked_add a b = Some c"
    then show "unat c = unat a + unat b"
      using u by (auto simp: checked_add_def split: if_splits)
  next
    assume c: "unat c = unat a + unat b"
    with l have s: "unat a + unat b < 2 ^ 64" by simp
    with c u have "c = a + b" by (simp add: word_unat_eq_iff)
    with s show "checked_add a b = Some c" by (simp add: checked_add_def)
  qed
qed

lemma checked_add_one_None: "checked_add a 1 = None \<longleftrightarrow> a = u64_max"
proof -
  have "unat a < 2 ^ 64" using unsigned_less [of a] by simp
  then show ?thesis
    by (auto simp: checked_add_def word_unat_eq_iff unat_u64_max)
qed

lemma unat_saturating_add:
  "unat (saturating_add a b) = min (unat a + unat b) (2 ^ 64 - 1)"
  by (simp add: saturating_add_def unat_word_ariths unat_u64_max)

lemma unat_saturating_sub: "unat (saturating_sub a b) = unat a - unat b"
  by (auto simp: saturating_sub_def unat_sub word_le_nat_alt)

section \<open>Decimal text\<close>

text \<open>The digits that \<open>format!\<close> writes for an unsigned number.\<close>

fun show_nat :: "nat \<Rightarrow> string" where
  "show_nat n =
     (if n < 10 then [char_of (48 + n)] else show_nat (n div 10) @ [char_of (48 + n mod 10)])"

declare show_nat.simps [simp del]

section \<open>Results\<close>

text \<open>
  A fallible function returns \<open>'e + 'a\<close>. \<open>rbind\<close> is the \<open>?\<close> operator on a value: it leaves with
  the error or continues with the result.
\<close>

definition rbind :: "'e + 'a \<Rightarrow> ('a \<Rightarrow> 'e + 'b) \<Rightarrow> 'e + 'b" where
  "rbind m f = (case m of Inl e \<Rightarrow> Inl e | Inr x \<Rightarrow> f x)"

definition ok_or :: "'a option \<Rightarrow> 'e \<Rightarrow> 'e + 'a" where
  "ok_or m e = (case m of None \<Rightarrow> Inl e | Some x \<Rightarrow> Inr x)"

definition is_ok :: "'e + 'a \<Rightarrow> bool" where
  "is_ok m = (case m of Inl _ \<Rightarrow> False | Inr _ \<Rightarrow> True)"

lemma rbind_simps [simp]: "rbind (Inl e) f = Inl e" "rbind (Inr x) f = f x"
  by (simp_all add: rbind_def)

lemma ok_or_simps [simp]: "ok_or None e = Inl e" "ok_or (Some x) e = Inr x"
  by (simp_all add: ok_or_def)

lemma is_ok_simps [simp]: "\<not> is_ok (Inl e)" "is_ok (Inr x)"
  by (simp_all add: is_ok_def)

lemma rbind_Inr [qp_result]: "rbind m f = Inr y \<longleftrightarrow> (\<exists>x. m = Inr x \<and> f x = Inr y)"
  by (cases m) auto

lemma rbind_Inl [qp_result]:
  "rbind m f = Inl e \<longleftrightarrow> m = Inl e \<or> (\<exists>x. m = Inr x \<and> f x = Inl e)"
  by (cases m) auto

lemma ok_or_Inr [qp_result]: "ok_or m e = Inr x \<longleftrightarrow> m = Some x"
  by (cases m) auto

lemma ok_or_Inl [qp_result]: "ok_or m e = Inl e' \<longleftrightarrow> m = None \<and> e' = e"
  by (cases m) auto

text \<open>The same for code that also changes a state, which an error leaves as it is at that point.\<close>

definition sbind :: "('e + 'a) \<times> 's \<Rightarrow> ('a \<Rightarrow> 's \<Rightarrow> ('e + 'b) \<times> 's) \<Rightarrow> ('e + 'b) \<times> 's" where
  "sbind m f = (case fst m of Inl e \<Rightarrow> (Inl e, snd m) | Inr x \<Rightarrow> f x (snd m))"

lemma sbind_simps [simp]: "sbind (Inl e, s) f = (Inl e, s)" "sbind (Inr x, s) f = f x s"
  by (simp_all add: sbind_def)

lemma sbindE:
  assumes "sbind m f = (r, s')"
  obtains e where "m = (Inl e, s')" "r = Inl e" | x s where "m = (Inr x, s)" "f x s = (r, s')"
  using assms by (cases m) (auto simp: sbind_def split: sum.splits)

lemma sbind_OkE:
  assumes "sbind m f = (Inr y, s')"
  obtains x s where "m = (Inr x, s)" "f x s = (Inr y, s')"
  using assms by (auto elim: sbindE)

section \<open>Lists\<close>

text \<open>\<open>xs.windows(2)\<close>: the neighbouring pairs.\<close>

definition windows2 :: "'a list \<Rightarrow> ('a \<times> 'a) list" where
  "windows2 xs = zip xs (tl xs)"

fun find_map :: "('a \<Rightarrow> 'b option) \<Rightarrow> 'a list \<Rightarrow> 'b option" where
  "find_map f [] = None"
| "find_map f (x # xs) = (case f x of Some y \<Rightarrow> Some y | None \<Rightarrow> find_map f xs)"

text \<open>
  \<open>xs.iter().enumerate().any(|(i, x)| xs[..i].contains(x))\<close>: some element occurs before itself.
\<close>

definition repeats_earlier :: "'a list \<Rightarrow> bool" where
  "repeats_earlier xs = list_ex (\<lambda>i. xs ! i \<in> set (take i xs)) [0..<length xs]"

text \<open>\<open>xs.iter().find(|x| xs.iter().filter(|y| x == y).count() > 1)\<close>.\<close>

definition find_repeated :: "'a list \<Rightarrow> 'a option" where
  "find_repeated xs = find (\<lambda>x. length (filter (\<lambda>y. y = x) xs) > 1) xs"

text \<open>\<open>xs.iter().position(|y| y == x)\<close>.\<close>

fun position :: "'a \<Rightarrow> 'a list \<Rightarrow> nat option" where
  "position x [] = None"
| "position x (y # ys) = (if y = x then Some 0 else map_option Suc (position x ys))"

lemma find_map_None: "find_map f xs = None \<longleftrightarrow> (\<forall>x \<in> set xs. f x = None)"
  by (induction xs) (auto split: option.splits)

lemma find_map_Some: "find_map f xs = Some y \<Longrightarrow> \<exists>x \<in> set xs. f x = Some y"
  by (induction xs) (auto split: option.splits)

lemma windows2_Cons: "windows2 (x # y # ys) = (x, y) # windows2 (y # ys)"
  by (simp add: windows2_def)

lemma windows2_short [simp]: "windows2 [] = []" "windows2 [x] = []"
  by (simp_all add: windows2_def)

lemma windows2_less_iff:
  fixes xs :: "'a::linorder list"
  shows "(\<forall>(a, b) \<in> set (windows2 xs). a < b) \<longleftrightarrow> sorted_wrt (<) xs"
proof (induction xs rule: induct_list012)
  case (3 x y zs)
  then show ?case
    by (auto simp: windows2_Cons dest: less_trans)
qed simp_all

lemma windows2_sorted_distinct:
  fixes xs :: "'a::linorder list"
  assumes "sorted xs"
  shows "(\<forall>(a, b) \<in> set (windows2 xs). a \<noteq> b) \<longleftrightarrow> distinct xs"
  using assms
  by (induction xs rule: induct_list012) (fastforce simp: windows2_Cons)+

lemma repeats_earlier_iff [simp]: "repeats_earlier xs \<longleftrightarrow> \<not> distinct xs"
proof -
  have "(\<exists>i < length xs. xs ! i \<in> set (take i xs)) \<longleftrightarrow> \<not> distinct xs"
  proof
    assume "\<exists>i < length xs. xs ! i \<in> set (take i xs)"
    then obtain i j where "i < length xs" "j < i" "xs ! j = xs ! i"
      by (auto simp: in_set_conv_nth)
    then show "\<not> distinct xs"
      by (metis distinct_conv_nth less_trans nat_neq_iff)
  next
    assume "\<not> distinct xs"
    then obtain i j where ij: "i < length xs" "j < length xs" "i \<noteq> j" "xs ! i = xs ! j"
      by (auto simp: distinct_conv_nth)
    then have "xs ! max i j \<in> set (take (max i j) xs)"
      by (auto simp: in_set_conv_nth max_def intro: exI [of _ "min i j"])
    moreover have "max i j < length xs" using ij by simp
    ultimately show "\<exists>i < length xs. xs ! i \<in> set (take i xs)" by blast
  qed
  then show ?thesis
    by (auto simp: repeats_earlier_def list_ex_iff)
qed

lemma position_Some: "position x xs = Some i \<Longrightarrow> i < length xs \<and> xs ! i = x"
  by (induction xs arbitrary: i) (auto split: if_splits)

lemma position_None [simp]: "position x xs = None \<longleftrightarrow> x \<notin> set xs"
  by (induction xs) auto

lemma position_first: "position x xs = Some i \<Longrightarrow> x \<notin> set (take i xs)"
  by (induction xs arbitrary: i) (auto split: if_splits)

lemma sorted_remdups_adj_strict:
  fixes xs :: "'a::linorder list"
  shows "sorted xs \<Longrightarrow> sorted_wrt (<) (remdups_adj xs)"
  by (induction xs rule: remdups_adj.induct) (auto simp: le_less dest: bspec)

lemma length_filter_distinct: "distinct xs \<Longrightarrow> length (filter P xs) = card {x \<in> set xs. P x}"
  by (metis distinct_card distinct_filter set_filter)

lemma length_filter_mem: "distinct xs \<Longrightarrow> length (filter (\<lambda>x. x \<in> A) xs) = card (A \<inter> set xs)"
  by (simp add: length_filter_distinct Int_def conj_commute)

text \<open>Two sets that both hold more than half of a finite set share an element of it.\<close>

lemma half_sets_meet:
  assumes "finite E" and "card E < card (A \<inter> E) + card (B \<inter> E)"
  shows "\<exists>x \<in> E. x \<in> A \<and> x \<in> B"
proof (rule ccontr)
  assume "\<not> ?thesis"
  then have "(A \<inter> E) \<inter> (B \<inter> E) = {}" by blast
  with assms(1) have "card (A \<inter> E) + card (B \<inter> E) = card ((A \<inter> E) \<union> (B \<inter> E))"
    by (simp add: card_Un_disjoint)
  also have "\<dots> \<le> card E" using assms(1) by (intro card_mono) auto
  finally show False using assms(2) by simp
qed

section \<open>Ordered maps\<close>

text \<open>
  A \<open>BTreeMap\<close> is an association list sorted strictly by key: lookup is \<open>map_of\<close>, iteration
  goes along the list, \<open>len\<close> is the length. \<open>bt_wf\<close> is the invariant of the representation.
\<close>

type_synonym ('k, 'v) btree = "('k \<times> 'v) list"

definition bt_wf :: "('k::linorder, 'v) btree \<Rightarrow> bool" where
  "bt_wf m = sorted_wrt (<) (map fst m)"

abbreviation bt_get :: "('k, 'v) btree \<Rightarrow> 'k \<Rightarrow> 'v option" where
  "bt_get m k \<equiv> map_of m k"

fun bt_insert :: "'k::linorder \<Rightarrow> 'v \<Rightarrow> ('k, 'v) btree \<Rightarrow> ('k, 'v) btree" where
  "bt_insert k v [] = [(k, v)]"
| "bt_insert k v ((k', v') # m) =
     (if k < k' then (k, v) # (k', v') # m
      else if k = k' then (k, v) # m
      else (k', v') # bt_insert k v m)"

definition bt_contains :: "('k, 'v) btree \<Rightarrow> 'k \<Rightarrow> bool" where
  "bt_contains m k = (bt_get m k \<noteq> None)"

definition bt_remove :: "'k \<Rightarrow> ('k, 'v) btree \<Rightarrow> ('k, 'v) btree" where
  "bt_remove k m = filter (\<lambda>(k', _). k' \<noteq> k) m"

text \<open>\<open>retain\<close>, by a predicate on the key and the value.\<close>

definition bt_retain :: "('k \<Rightarrow> 'v \<Rightarrow> bool) \<Rightarrow> ('k, 'v) btree \<Rightarrow> ('k, 'v) btree" where
  "bt_retain P m = filter (\<lambda>(k, v). P k v) m"

definition bt_map_values :: "('v \<Rightarrow> 'w) \<Rightarrow> ('k, 'v) btree \<Rightarrow> ('k, 'w) btree" where
  "bt_map_values f m = map (\<lambda>(k, v). (k, f v)) m"

text \<open>\<open>entry(k).or_insert(v)\<close>.\<close>

definition bt_or_insert :: "'k::linorder \<Rightarrow> 'v \<Rightarrow> ('k, 'v) btree \<Rightarrow> ('k, 'v) btree" where
  "bt_or_insert k v m = (if bt_contains m k then m else bt_insert k v m)"

text \<open>A change through \<open>get_mut\<close>.\<close>

definition bt_modify :: "'k \<Rightarrow> ('v \<Rightarrow> 'v) \<Rightarrow> ('k, 'v) btree \<Rightarrow> ('k, 'v) btree" where
  "bt_modify k f m = map (\<lambda>(k', v). (k', if k' = k then f v else v)) m"

abbreviation bt_keys :: "('k, 'v) btree \<Rightarrow> 'k list" where
  "bt_keys m \<equiv> map fst m"

abbreviation bt_values :: "('k, 'v) btree \<Rightarrow> 'v list" where
  "bt_values m \<equiv> map snd m"

lemma bt_get_insert [simp, qp_map]: "bt_get (bt_insert k v m) = (bt_get m)(k \<mapsto> v)"
  by (induction m) (auto simp: fun_eq_iff)

lemma bt_keys_insert [simp]: "fst ` set (bt_insert k v m) = insert k (fst ` set m)"
  by (metis bt_get_insert dom_fun_upd dom_map_of_conv_image_fst option.distinct(1))

lemma bt_wf_Nil [simp, intro]: "bt_wf []"
  by (simp add: bt_wf_def)

lemma bt_wf_insert [simp, intro]: "bt_wf m \<Longrightarrow> bt_wf (bt_insert k v m)"
proof (induction m)
  case Nil
  then show ?case by (simp add: bt_wf_def)
next
  case (Cons a m)
  obtain k' v' where a: "a = (k', v')" by (cases a)
  from Cons show ?case
    by (auto simp: a bt_wf_def dest: less_trans)
qed

lemma bt_wf_filter [simp, intro]: "bt_wf m \<Longrightarrow> bt_wf (filter P m)"
  by (induction m) (auto simp: bt_wf_def)

lemma bt_wf_remove [simp, intro]: "bt_wf m \<Longrightarrow> bt_wf (bt_remove k m)"
  by (simp add: bt_remove_def)

lemma bt_wf_retain [simp, intro]: "bt_wf m \<Longrightarrow> bt_wf (bt_retain P m)"
  by (simp add: bt_retain_def)

lemma bt_keys_map_values [simp]: "bt_keys (bt_map_values f m) = bt_keys m"
  by (induction m) (auto simp: bt_map_values_def)

lemma bt_wf_map_values [simp]: "bt_wf (bt_map_values f m) = bt_wf m"
  by (simp only: bt_wf_def bt_keys_map_values)

lemma bt_wf_or_insert [simp, intro]: "bt_wf m \<Longrightarrow> bt_wf (bt_or_insert k v m)"
  by (simp add: bt_or_insert_def)

lemma bt_wf_distinct: "bt_wf m \<Longrightarrow> distinct (bt_keys m)"
  by (simp add: bt_wf_def strict_sorted_iff)

lemma bt_get_mem [qp_map]: "bt_wf m \<Longrightarrow> bt_get m k = Some v \<longleftrightarrow> (k, v) \<in> set m"
  by (simp add: bt_wf_distinct)

lemma bt_contains_iff [simp]: "bt_contains m k \<longleftrightarrow> k \<in> fst ` set m"
  by (simp add: bt_contains_def map_of_eq_None_iff)

lemma bt_get_map_values [simp, qp_map]:
  "bt_get (bt_map_values f m) k = map_option f (bt_get m k)"
  by (induction m) (auto simp: bt_map_values_def)

lemma bt_get_remove [simp, qp_map]: "bt_get (bt_remove k m) = (bt_get m)(k := None)"
  by (induction m) (auto simp: bt_remove_def fun_eq_iff)

lemma bt_get_retain_key [simp, qp_map]:
  "bt_get (bt_retain (\<lambda>k _. P k) m) k = (if P k then bt_get m k else None)"
  by (induction m) (auto simp: bt_retain_def)

lemma bt_get_retain [qp_map]:
  assumes "bt_wf m"
  shows "bt_get (bt_retain P m) k = (case bt_get m k of Some v \<Rightarrow> if P k v then Some v else None | None \<Rightarrow> None)"
proof -
  have *: "bt_get (bt_retain P m) k = Some v \<longleftrightarrow> bt_get m k = Some v \<and> P k v" for v
    using assms by (simp add: bt_get_mem) (auto simp: bt_retain_def)
  show ?thesis
  proof (cases "bt_get (bt_retain P m) k")
    case None
    then show ?thesis using * by (auto split: option.splits)
  next
    case (Some v)
    then show ?thesis using * by simp
  qed
qed

lemma bt_get_or_insert [simp, qp_map]:
  "bt_get (bt_or_insert k v m) k' =
     (if k' = k then Some (case bt_get m k of Some w \<Rightarrow> w | None \<Rightarrow> v) else bt_get m k')"
  by (cases "bt_get m k") (auto simp: bt_or_insert_def bt_contains_def simp del: bt_contains_iff)

lemma bt_map_values_id [simp]: "bt_map_values (\<lambda>v. v) m = m"
  by (induction m) (auto simp: bt_map_values_def)

lemma bt_map_values_comp:
  "bt_map_values f (bt_map_values g m) = bt_map_values (\<lambda>v. f (g v)) m"
  by (induction m) (auto simp: bt_map_values_def)

lemma length_bt_insert:
  "bt_wf m \<Longrightarrow> length (bt_insert k v m) = (if k \<in> fst ` set m then length m else Suc (length m))"
  by (induction m) (force simp: bt_wf_def)+

lemma bt_keys_or_insert [simp]:
  "fst ` set (bt_or_insert k v m) = insert k (fst ` set m)"
  by (auto simp: bt_or_insert_def)

lemma bt_keys_retain [simp]:
  "fst ` set (bt_retain (\<lambda>k _. P k) m) = {k \<in> fst ` set m. P k}"
  by (force simp: bt_retain_def)

text \<open>Two ordered maps with the same lookups are the same list.\<close>

lemma bt_keys_strict_sorted: "bt_wf m \<Longrightarrow> sorted (bt_keys m) \<and> distinct (bt_keys m)"
  by (simp add: bt_wf_def strict_sorted_iff)

lemma bt_eqI:
  assumes "bt_wf m" "bt_wf n" and "\<And>k. bt_get m k = bt_get n k"
  shows "m = n"
proof -
  have "set m = set n"
    using assms by (auto simp: bt_get_mem [symmetric])
  moreover have "m = map (\<lambda>k. (k, the (bt_get m k))) (bt_keys m)" if "bt_wf m" for m :: "('a, 'b) btree"
    using that by (auto simp: bt_get_mem [symmetric] intro!: nth_equalityI) (metis bt_get_mem nth_mem option.sel prod.collapse)
  moreover have "bt_keys m = bt_keys n"
    using bt_keys_strict_sorted [OF assms(1)] bt_keys_strict_sorted [OF assms(2)] \<open>set m = set n\<close>
    by (intro sorted_distinct_set_unique) auto
  ultimately show ?thesis
    using assms by (metis (no_types, lifting) map_eq_conv)
qed

lemma length_bt_retain: "length (bt_retain P m) \<le> length m"
  by (simp add: bt_retain_def)

lemma bt_keys_retain_key: "bt_keys (bt_retain (\<lambda>k _. P k) m) = filter P (bt_keys m)"
  by (simp add: bt_retain_def filter_map comp_def case_prod_unfold)

lemma bt_retain_mem: "c \<in> set (bt_retain P m) \<longleftrightarrow> c \<in> set m \<and> P (fst c) (snd c)"
  by (auto simp: bt_retain_def)

lemma bt_insert_fresh_length: "bt_get m k = None \<Longrightarrow> length (bt_insert k v m) = Suc (length m)"
  by (induction m) (auto split: if_splits)

lemma bt_insert_set: "bt_wf m \<Longrightarrow> (k', v') \<in> set (bt_insert k v m) \<Longrightarrow> k' = k \<and> v' = v \<or> (k', v') \<in> set m"
  using bt_get_mem [of "bt_insert k v m" k' v'] bt_get_mem [of m k' v'] by (auto split: if_splits)

lemma bt_contains_get: "bt_contains m k \<longleftrightarrow> bt_get m k \<noteq> None"
  by (simp add: map_of_eq_None_iff)

lemma bt_keys_insert_same: "bt_keys m = bt_keys m' \<Longrightarrow> bt_keys (bt_insert k v m) = bt_keys (bt_insert k w m')"
proof (induction m arbitrary: m')
  case (Cons c m)
  then show ?case by (cases c; cases m') auto
qed simp

lemma bt_insert_present_keys:
  "bt_wf m \<Longrightarrow> bt_get m k \<noteq> None \<Longrightarrow> bt_keys (bt_insert k v m) = bt_keys m"
  by (induction m) (fastforce simp: bt_wf_def dest: map_of_SomeD split: if_splits)+

lemma bt_or_insert_set: "(k', v') \<in> set (bt_or_insert k v m) \<Longrightarrow> bt_wf m \<Longrightarrow> k' = k \<and> v' = v \<or> (k', v') \<in> set m"
  by (auto simp: bt_or_insert_def split: if_splits dest: bt_insert_set)

lemma bt_keys_or_insert_same:
  "bt_wf m \<Longrightarrow> bt_keys m = bt_keys m' \<Longrightarrow> bt_keys (bt_or_insert k v m) = bt_keys (bt_insert k w m')"
  using bt_insert_present_keys [of m k v] bt_keys_insert_same [of m m' k v w]
  by (auto simp: bt_or_insert_def map_of_eq_None_iff)

lemma unat_checked_mul: "unat a * unat b < 2 ^ 64 \<Longrightarrow> checked_mul a b = Some (a * b) \<and> unat (a * b) = unat a * unat b"
  by (simp add: checked_mul_def unat_word_ariths)

lemma checked_add_None: "checked_add a b = None \<longleftrightarrow> 2 ^ 64 \<le> unat a + unat b"
  by (auto simp: checked_add_def)

lemma u64_max_numeral: "u64_max = 18446744073709551615"
  by (simp add: u64_max_def)

lemma bt_modify_count:
  assumes "(k, v) \<in> set m" and "P v" and "\<And>v. \<not> P (f v)"
  shows "length (filter (\<lambda>(_, v). P v) (bt_modify k f m)) < length (filter (\<lambda>(_, v). P v) m)"
  using assms(1)
proof (induction m)
  case (Cons c m)
  have le: "length (filter (\<lambda>(_, v). P v) (bt_modify k f m)) \<le> length (filter (\<lambda>(_, v). P v) m)"
    by (induction m) (auto simp: bt_modify_def assms(3) split: if_splits)
  show ?case
  proof (cases "(k, v) \<in> set m")
    case True
    then show ?thesis using Cons.IH by (cases c) (auto simp: bt_modify_def assms(3) split: if_splits)
  next
    case False
    then have "c = (k, v)" using Cons.prems by auto
    then show ?thesis using le assms(2,3) by (auto simp: bt_modify_def)
  qed
qed simp

lemma bt_get_modify [simp, qp_map]: "bt_get (bt_modify k f m) = (bt_get m)(k := map_option f (bt_get m k))"
  by (induction m) (auto simp: bt_modify_def)

lemma bt_keys_modify [simp]: "bt_keys (bt_modify k f m) = bt_keys m"
  by (induction m) (auto simp: bt_modify_def)

lemma bt_wf_modify [simp]: "bt_wf (bt_modify k f m) = bt_wf m"
  unfolding bt_wf_def bt_keys_modify by (rule refl)

end
