(* ===== verification/QP_Error.thy ===== *)
theory QP_Error
  imports QP_Prelude
begin

text \<open>
  The error type of the crate (\<open>src/error.rs\<close>) with its \<open>Display\<close> text, and the identifiers it
  mentions. The newtypes \<open>ReplicaId\<close>, \<open>LaneId\<close>, \<open>SlotIndex\<close>, \<open>Step\<close> and \<open>Priority\<close> of
  \<open>src/types.rs\<close> wrap a \<open>u64\<close> and derive its order, so each is a synonym of \<^typ>\<open>64 word\<close>.
\<close>

type_synonym ReplicaId = u64
type_synonym LaneId = u64
type_synonym SlotIndex = u64
type_synonym Step = u64
type_synonym Priority = u64

datatype QuePaxaError =
    EmptyCluster
  | EmptyProposal
  | EmptyDecision
  | MissingProposal
  | MissingValue
  | DuplicateReplica ReplicaId
  | UnknownReplica ReplicaId
  | InvalidSender ReplicaId
  | InvalidRecorderReply ReplicaId ReplicaId
  | DuplicateRecorderReply ReplicaId
  | InvalidQuorum usize usize
  | QuorumNotReached usize usize
  | InvalidStep u64 u64
  | StepOverflow
  | SlotOverflow
  | ResourceLimit string usize
  | InvalidProposal string
  | TransportError string
  | StorageError string
  | ConfigurationMismatch
  | ConfigurationEpochOverflow
  | InvalidReconfiguration string
  | ConflictingDecision SlotIndex
  | ScheduleMismatch SlotIndex
  | SlotAlreadyDecided SlotIndex
  | SlotPruned SlotIndex
  | StepLimitExceeded u64
  | PolicyError string

type_synonym 'a result = "QuePaxaError + 'a"

text \<open>A \<open>u64\<close> as \<open>Display\<close> prints it.\<close>

abbreviation show_u64 :: "u64 \<Rightarrow> string" where
  "show_u64 w \<equiv> show_nat (unat w)"

definition error_display :: "QuePaxaError \<Rightarrow> string" where
  "error_display error = (case error of
     EmptyCluster \<Rightarrow> ''cluster must contain at least one replica''
   | EmptyProposal \<Rightarrow> ''proposal must contain at least one value id''
   | EmptyDecision \<Rightarrow> ''decision must contain at least one value id''
   | MissingProposal \<Rightarrow> ''recorder reply did not contain a proposal''
   | MissingValue \<Rightarrow> ''required value is missing from the value store''
   | DuplicateReplica r \<Rightarrow> ''duplicate replica id '' @ show_u64 r
   | UnknownReplica r \<Rightarrow> ''unknown replica id '' @ show_u64 r
   | InvalidSender r \<Rightarrow> ''replica id '' @ show_u64 r @ '' is not an authorized sender''
   | InvalidRecorderReply e r \<Rightarrow> ''recorder reply identity mismatch: expected '' @ show_u64 e @ '', received '' @ show_u64 r
   | DuplicateRecorderReply r \<Rightarrow> ''duplicate reply from recorder '' @ show_u64 r
   | InvalidQuorum n q \<Rightarrow> ''invalid quorum '' @ show_nat q @ '' for '' @ show_nat n @ '' replicas''
   | QuorumNotReached n r \<Rightarrow> ''quorum not reached: needed '' @ show_nat n @ '', received '' @ show_nat r
   | InvalidStep s l \<Rightarrow> ''logical step '' @ show_u64 s @ '' is outside the accepted range through '' @ show_u64 l
   | StepOverflow \<Rightarrow> ''logical step counter overflowed''
   | SlotOverflow \<Rightarrow> ''slot index overflowed''
   | ResourceLimit r l \<Rightarrow> r @ '' exceeds its configured limit of '' @ show_nat l
   | InvalidProposal m \<Rightarrow> m
   | TransportError m \<Rightarrow> m
   | StorageError m \<Rightarrow> m
   | ConfigurationMismatch \<Rightarrow> ''replica configuration does not match the local cluster identity''
   | ConfigurationEpochOverflow \<Rightarrow> ''membership configuration epoch overflowed''
   | InvalidReconfiguration m \<Rightarrow> m
   | ConflictingDecision s \<Rightarrow> ''conflicting decision for slot '' @ show_u64 s
   | ScheduleMismatch s \<Rightarrow> ''round-one leader schedule mismatch for slot '' @ show_u64 s
   | SlotAlreadyDecided s \<Rightarrow> ''slot '' @ show_u64 s @ '' is already decided''
   | SlotPruned s \<Rightarrow> ''slot '' @ show_u64 s @ '' was pruned after checkpointing; state transfer is required''
   | StepLimitExceeded l \<Rightarrow> ''proposer exceeded the configured step limit '' @ show_u64 l
   | PolicyError m \<Rightarrow> m)"

section \<open>Panics\<close>

text \<open>The outcome of code that can also panic: an index, an \<open>expect\<close> or a division that fails.\<close>

datatype failure = Panic | Failed QuePaxaError

type_synonym 'a fallible = "failure + 'a"

definition lift_err :: "'a result \<Rightarrow> 'a fallible" where
  "lift_err r = (case r of Inl e \<Rightarrow> Inl (Failed e) | Inr x \<Rightarrow> Inr x)"

definition or_panic :: "'a option \<Rightarrow> 'a fallible" where
  "or_panic m = (case m of None \<Rightarrow> Inl Panic | Some x \<Rightarrow> Inr x)"

lemma lift_err_simps [simp]: "lift_err (Inl e) = Inl (Failed e)" "lift_err (Inr x) = Inr x"
  by (simp_all add: lift_err_def)

lemma lift_err_Inr [qp_result]: "lift_err r = Inr x \<longleftrightarrow> r = Inr x"
  by (cases r) simp_all

lemma lift_err_Inl [qp_result]: "lift_err r = Inl f \<longleftrightarrow> (\<exists>e. r = Inl e \<and> f = Failed e)"
  by (cases r) auto

lemma or_panic_simps [simp]: "or_panic None = Inl Panic" "or_panic (Some x) = Inr x"
  by (simp_all add: or_panic_def)

lemma or_panic_Inr [qp_result]: "or_panic m = Inr x \<longleftrightarrow> m = Some x"
  by (cases m) simp_all

end
