(* ===== verification/QP_Types.thy ===== *)
theory QP_Types
  imports QP_Error
begin

text \<open>
  The data model of \<open>src/types.rs\<close>: steps, proposal keys and proposals, decisions, the record
  messages, cluster identities with their stable and joint epochs, and membership commands with
  their canonical encoding. The lemmas show that proposal keys are totally ordered and
  \<open>max_proposal_by_key\<close> selects the greatest, that the constructors only build well-formed
  cluster identities and follow each other as \<open>is_successor_of\<close> demands, that any two quorums
  of a well-formed cluster share a replica, and that the canonical encoding is injective.
\<close>

section \<open>Slots, steps and priorities\<close>

definition GENESIS :: SlotIndex where
  "GENESIS = 0"

definition slot_next :: "SlotIndex \<Rightarrow> SlotIndex" where
  "slot_next s = saturating_add s 1"

definition slot_checked_next :: "SlotIndex \<Rightarrow> SlotIndex option" where
  "slot_checked_next s = checked_add s 1"

definition STEP_INITIAL :: Step where
  "STEP_INITIAL = 0"

definition ROUND_ONE_PHASE_ZERO :: Step where
  "ROUND_ONE_PHASE_ZERO = 4"

definition checked_from_round_phase :: "u64 \<Rightarrow> u8 \<Rightarrow> Step option" where
  "checked_from_round_phase round phase =
     Option.bind (checked_mul round 4) (\<lambda>step. checked_add step (ucast phase))"

definition step_phase :: "Step \<Rightarrow> u8" where
  "step_phase s = ucast (s mod 4)"

definition step_next :: "Step \<Rightarrow> Step" where
  "step_next s = saturating_add s 1"

definition step_checked_next :: "Step \<Rightarrow> Step option" where
  "step_checked_next s = checked_add s 1"

definition is_next_after :: "Step \<Rightarrow> Step \<Rightarrow> bool" where
  "is_next_after s previous = (checked_add previous 1 = Some s)"

definition PRIORITY_MIN :: Priority where
  "PRIORITY_MIN = 0"

definition PRIORITY_MAX :: Priority where
  "PRIORITY_MAX = u64_max"

definition is_leader_priority :: "Priority \<Rightarrow> bool" where
  "is_leader_priority p = (p = PRIORITY_MAX)"

section \<open>Proposals and decisions\<close>

datatype ProposalKey =
  ProposalKey (priority: Priority) (proposer_id: ReplicaId) (lane_id: LaneId)

text \<open>The derived \<open>Ord\<close>: lexicographic in the order of the fields.\<close>

instantiation ProposalKey :: linorder
begin

definition less_eq_ProposalKey :: "ProposalKey \<Rightarrow> ProposalKey \<Rightarrow> bool" where
  "less_eq_ProposalKey a b =
     (priority a < priority b \<or> priority a = priority b \<and>
       (proposer_id a < proposer_id b \<or> proposer_id a = proposer_id b \<and> lane_id a \<le> lane_id b))"

definition less_ProposalKey :: "ProposalKey \<Rightarrow> ProposalKey \<Rightarrow> bool" where
  "less_ProposalKey a b = (a \<le> b \<and> \<not> b \<le> (a :: ProposalKey))"

instance
  by standard
    (auto simp: less_ProposalKey_def less_eq_ProposalKey_def ProposalKey.expand)

end

record 'v Proposal =
  prop_key :: ProposalKey
  prop_value_ids :: "'v list"

definition proposal_new :: "ProposalKey \<Rightarrow> 'v list \<Rightarrow> 'v Proposal result" where
  "proposal_new key value_ids =
     (if value_ids = [] then Inl EmptyProposal
      else Inr \<lparr>prop_key = key, prop_value_ids = value_ids\<rparr>)"

definition with_priority :: "'v Proposal \<Rightarrow> Priority \<Rightarrow> 'v Proposal" where
  "with_priority p pr =
     p\<lparr>prop_key := ProposalKey pr (proposer_id (prop_key p)) (lane_id (prop_key p))\<rparr>"

record 'v Decision =
  dec_slot :: SlotIndex
  dec_value_ids :: "'v list"
  dec_proposer :: ReplicaId
  dec_decided_step :: Step

definition decision_new ::
  "SlotIndex \<Rightarrow> 'v list \<Rightarrow> ReplicaId \<Rightarrow> Step \<Rightarrow> 'v Decision result" where
  "decision_new slot value_ids proposer decided_step =
     (if value_ids = [] then Inl EmptyDecision
      else Inr \<lparr>dec_slot = slot, dec_value_ids = value_ids, dec_proposer = proposer,
                dec_decided_step = decided_step\<rparr>)"

definition best_proposal :: "'v Proposal option \<Rightarrow> 'v Proposal \<Rightarrow> 'v Proposal" where
  "best_proposal left right =
     (case left of
        Some current \<Rightarrow> if prop_key current \<ge> prop_key right then current else right
      | None \<Rightarrow> right)"

definition max_proposal_by_key :: "'v Proposal list \<Rightarrow> 'v Proposal option" where
  "max_proposal_by_key proposals =
     foldl (\<lambda>best proposal. Some (best_proposal best proposal)) None proposals"

section \<open>Cluster identities\<close>

record JointMembership =
  jm_old_members :: "ReplicaId list"
  jm_old_max_faults :: usize
  jm_new_members :: "ReplicaId list"

record ClusterIdentity =
  ci_members :: "ReplicaId list"
  ci_max_faults :: usize
  ci_epoch :: u64
  ci_joint :: "JointMembership option"

definition validate_fault_tolerance :: "usize \<Rightarrow> usize \<Rightarrow> unit result" where
  "validate_fault_tolerance replica_count max_faults =
     rbind (ok_or (Option.bind (usize_checked_mul max_faults 2) (\<lambda>value. usize_checked_add value 1))
              (InvalidProposal ''fault tolerance is too large''))
       (\<lambda>required.
          if replica_count < required
          then Inl (InvalidProposal
                 (show_nat replica_count @ '' replicas cannot tolerate '' @ show_nat max_faults @
                  '' crash faults; require at least '' @ show_nat required))
          else Inr ())"

definition members_are_normalized :: "ReplicaId list \<Rightarrow> bool" where
  "members_are_normalized members =
     (members \<noteq> [] \<and> list_all (\<lambda>(a, b). a < b) (windows2 members))"

definition normalize_members :: "ReplicaId list \<Rightarrow> ReplicaId list result" where
  "normalize_members ms =
     (let members = sort ms in
      if members = [] then Inl EmptyCluster
      else case find_map (\<lambda>(a, b). if a = b then Some a else None) (windows2 members) of
             Some duplicate \<Rightarrow> Inl (DuplicateReplica duplicate)
           | None \<Rightarrow> Inr members)"

definition cluster_stable :: "u64 \<Rightarrow> ReplicaId list \<Rightarrow> usize \<Rightarrow> ClusterIdentity result" where
  "cluster_stable epoch ms max_faults =
     rbind (normalize_members ms) (\<lambda>members.
     rbind (validate_fault_tolerance (length members) max_faults) (\<lambda>_.
       Inr \<lparr>ci_members = members, ci_max_faults = max_faults, ci_epoch = epoch, ci_joint = None\<rparr>))"

definition cluster_new :: "ReplicaId list \<Rightarrow> usize \<Rightarrow> ClusterIdentity result" where
  "cluster_new ms max_faults = cluster_stable 0 ms max_faults"

definition is_joint :: "ClusterIdentity \<Rightarrow> bool" where
  "is_joint c = (ci_joint c \<noteq> None)"

definition begin_joint ::
  "ClusterIdentity \<Rightarrow> ReplicaId list \<Rightarrow> usize \<Rightarrow> ClusterIdentity result" where
  "begin_joint c new_ms new_max_faults =
     (if is_joint c
      then Inl (InvalidReconfiguration ''cannot begin a second reconfiguration from a joint epoch'')
      else
        rbind (normalize_members new_ms) (\<lambda>new_members.
        rbind (validate_fault_tolerance (length new_members) new_max_faults) (\<lambda>_.
        rbind (ok_or (checked_add (ci_epoch c) 1) ConfigurationEpochOverflow) (\<lambda>epoch.
          Inr \<lparr>ci_members = remdups_adj (sort (ci_members c @ new_members)),
               ci_max_faults = new_max_faults,
               ci_epoch = epoch,
               ci_joint = Some \<lparr>jm_old_members = ci_members c,
                                jm_old_max_faults = ci_max_faults c,
                                jm_new_members = new_members\<rparr>\<rparr>))))"

definition finalize_joint :: "ClusterIdentity \<Rightarrow> ClusterIdentity result" where
  "finalize_joint c =
     (case ci_joint c of
        None \<Rightarrow> Inl (InvalidReconfiguration ''only a joint epoch can be finalized'')
      | Some joint \<Rightarrow>
          rbind (ok_or (checked_add (ci_epoch c) 1) ConfigurationEpochOverflow) (\<lambda>epoch.
            cluster_stable epoch (jm_new_members joint) (ci_max_faults c)))"

definition current_members :: "ClusterIdentity \<Rightarrow> ReplicaId list" where
  "current_members c =
     (case ci_joint c of Some joint \<Rightarrow> jm_new_members joint | None \<Rightarrow> ci_members c)"

definition old_members :: "ClusterIdentity \<Rightarrow> ReplicaId list option" where
  "old_members c = map_option jm_old_members (ci_joint c)"

text \<open>
  \<open>binary_search\<close> on a member list is membership, since every list it is called on is sorted
  (\<open>members_are_normalized\<close>, which all constructors establish).
\<close>

definition cluster_contains :: "ClusterIdentity \<Rightarrow> ReplicaId \<Rightarrow> bool" where
  "cluster_contains c replica = (replica \<in> set (ci_members c))"

text \<open>
  The subtractions below are on \<open>usize\<close>; \<open>cluster_faults_le\<close> shows that they do not go below
  zero in a well-formed identity.
\<close>

definition cluster_quorum_size :: "ClusterIdentity \<Rightarrow> usize" where
  "cluster_quorum_size c =
     (case ci_joint c of
        Some joint \<Rightarrow>
          (let old_quorum = length (jm_old_members joint) - jm_old_max_faults joint;
               new_quorum = length (jm_new_members joint) - ci_max_faults c;
               shared = min (min (length (filter (\<lambda>m. m \<in> set (jm_new_members joint)) (jm_old_members joint)))
                                 old_quorum) new_quorum
           in old_quorum + new_quorum - shared)
      | None \<Rightarrow> length (ci_members c) - ci_max_faults c)"

definition has_quorum :: "ClusterIdentity \<Rightarrow> ReplicaId list \<Rightarrow> bool" where
  "has_quorum c vs =
     (let voters = set vs in
      case ci_joint c of
        Some joint \<Rightarrow>
          length (filter (\<lambda>m. m \<in> voters) (jm_old_members joint))
              \<ge> length (jm_old_members joint) - jm_old_max_faults joint
          \<and> length (filter (\<lambda>m. m \<in> voters) (jm_new_members joint))
              \<ge> length (jm_new_members joint) - ci_max_faults c
      | None \<Rightarrow> card voters \<ge> cluster_quorum_size c \<and> (\<forall>m \<in> voters. cluster_contains c m))"

definition is_well_formed :: "ClusterIdentity \<Rightarrow> bool" where
  "is_well_formed c =
     (if \<not> members_are_normalized (ci_members c) then False
      else case ci_joint c of
             None \<Rightarrow> is_ok (validate_fault_tolerance (length (ci_members c)) (ci_max_faults c))
           | Some joint \<Rightarrow>
               if \<not> members_are_normalized (jm_old_members joint)
                  \<or> \<not> members_are_normalized (jm_new_members joint)
                  \<or> \<not> is_ok (validate_fault_tolerance (length (jm_old_members joint)) (jm_old_max_faults joint))
                  \<or> \<not> is_ok (validate_fault_tolerance (length (jm_new_members joint)) (ci_max_faults c))
               then False
               else remdups_adj (sort (jm_old_members joint @ jm_new_members joint)) = ci_members c)"

definition is_successor_of :: "ClusterIdentity \<Rightarrow> ClusterIdentity \<Rightarrow> bool" where
  "is_successor_of c previous =
     (if \<not> is_well_formed c \<or> \<not> is_well_formed previous
         \<or> checked_add (ci_epoch previous) 1 \<noteq> Some (ci_epoch c)
      then False
      else case ci_joint c of
             Some joint \<Rightarrow>
               \<not> is_joint previous \<and> jm_old_members joint = ci_members previous
               \<and> jm_old_max_faults joint = ci_max_faults previous
           | None \<Rightarrow>
               (case ci_joint previous of
                  Some joint \<Rightarrow> ci_members c = jm_new_members joint
                                \<and> ci_max_faults c = ci_max_faults previous
                | None \<Rightarrow> False))"

section \<open>Membership commands\<close>

record MembershipCommand =
  mc_next :: ClusterIdentity

definition u64_to_be_bytes :: "u64 \<Rightarrow> u8 list" where
  "u64_to_be_bytes w = map (\<lambda>i. ucast (drop_bit (8 * i) w)) (rev [0..<8])"

text \<open>Bytes of an ASCII literal.\<close>

definition ascii_bytes :: "string \<Rightarrow> u8 list" where
  "ascii_bytes s = map of_char s"

definition encode_usize :: "usize \<Rightarrow> u8 list result" where
  "encode_usize value =
     (if value < 2 ^ 64 then Inr (u64_to_be_bytes (of_nat value))
      else Inl (InvalidReconfiguration ''membership field is too large for its canonical encoding''))"

definition encode_members :: "ReplicaId list \<Rightarrow> u8 list result" where
  "encode_members members =
     rbind (encode_usize (length members)) (\<lambda>count.
       Inr (count @ concat (map u64_to_be_bytes members)))"

definition encode_cluster :: "ClusterIdentity \<Rightarrow> u8 list result" where
  "encode_cluster c =
     rbind (encode_usize (ci_max_faults c)) (\<lambda>faults.
     rbind (encode_members (ci_members c)) (\<lambda>members.
     rbind (case ci_joint c of
              Some joint \<Rightarrow>
                rbind (encode_usize (jm_old_max_faults joint)) (\<lambda>old_faults.
                rbind (encode_members (jm_old_members joint)) (\<lambda>old.
                rbind (encode_members (jm_new_members joint)) (\<lambda>new.
                  Inr (1 # old_faults @ old @ new))))
            | None \<Rightarrow> Inr [0])
       (\<lambda>joint_bytes. Inr (u64_to_be_bytes (ci_epoch c) @ faults @ members @ joint_bytes))))"

definition canonical_bytes :: "MembershipCommand \<Rightarrow> u8 list result" where
  "canonical_bytes cmd =
     rbind (encode_cluster (mc_next cmd)) (\<lambda>bytes.
       Inr (ascii_bytes ''quepaxa-membership-command-v1'' @ bytes))"

record 'v MembershipChange =
  ch_anchor :: "'v Decision"
  ch_next :: ClusterIdentity
  ch_command_id :: 'v

definition membership_change_new ::
  "'v Decision \<Rightarrow> ClusterIdentity \<Rightarrow> 'v \<Rightarrow> 'v MembershipChange result" where
  "membership_change_new anchor nxt command_id =
     (if command_id \<notin> set (dec_value_ids anchor)
      then Inl (InvalidReconfiguration ''membership command ID is not present in its anchor decision'')
      else Inr \<lparr>ch_anchor = anchor, ch_next = nxt, ch_command_id = command_id\<rparr>)"

definition validate_binding :: "'v MembershipChange \<Rightarrow> unit result" where
  "validate_binding change =
     (if ch_command_id change \<in> set (dec_value_ids (ch_anchor change)) then Inr ()
      else Inl (InvalidReconfiguration ''membership command ID is not present in its anchor decision''))"

text \<open>SHA-256 comes from the \<open>sha2\<close> crate: the digest is a parameter.\<close>

definition command_sha256_id :: "(u8 list \<Rightarrow> u8 list) \<Rightarrow> MembershipCommand \<Rightarrow> u8 list result" where
  "command_sha256_id sha256 cmd = rbind (canonical_bytes cmd) (\<lambda>bytes. Inr (sha256 bytes))"

definition command_bind ::
  "(u8 list \<Rightarrow> u8 list) \<Rightarrow> MembershipCommand \<Rightarrow> u8 list Decision \<Rightarrow> u8 list MembershipChange result" where
  "command_bind sha256 cmd anchor =
     rbind (command_sha256_id sha256 cmd) (\<lambda>command_id.
       membership_change_new anchor (mc_next cmd) command_id)"

section \<open>Record messages\<close>

record 'v RecordRequest =
  req_sender :: ReplicaId
  req_slot :: SlotIndex
  req_round_one_leader :: "ReplicaId option"
  req_step :: Step
  req_proposal :: "'v Proposal"
  req_known_decisions :: "'v Decision list"

record 'v RecordSummary =
  sum_step :: Step
  sum_first :: "'v Proposal option"
  sum_prior_aggregate :: "'v Proposal option"

record 'v RecordReply =
  rep_recorder :: ReplicaId
  rep_cluster :: ClusterIdentity
  rep_summary :: "'v RecordSummary"
  rep_decision :: "'v Decision option"

section \<open>The quorum interface\<close>

text \<open>
  What the proposers and the reconfiguration rely on: two reply sets that both count as quorums
  of the same well-formed configuration have a recorder in common.
\<close>

locale quorum_system =
  fixes wf :: "'c \<Rightarrow> bool"
    and quorum :: "'c \<Rightarrow> 'r list \<Rightarrow> bool"
  assumes meet: "wf c \<Longrightarrow> quorum c vs \<Longrightarrow> quorum c ws \<Longrightarrow> \<exists>m. m \<in> set vs \<and> m \<in> set ws"
begin

lemma nonempty: "wf c \<Longrightarrow> quorum c vs \<Longrightarrow> vs \<noteq> []"
  using meet by fastforce

text \<open>Two facts that hold throughout two quorums hold together at some recorder.\<close>

lemma common:
  assumes "wf c" "quorum c vs" "quorum c ws" "\<And>m. m \<in> set vs \<Longrightarrow> P m" "\<And>m. m \<in> set ws \<Longrightarrow> Q m"
  shows "\<exists>m. m \<in> set vs \<and> m \<in> set ws \<and> P m \<and> Q m"
  using meet [OF assms(1-3)] assms(4,5) by blast

end

section \<open>Steps and phases\<close>

lemma unat_step_phase: "unat (step_phase s) = unat s mod 4"
proof -
  have "unat s mod 4 < (256::nat)" by (rule less_trans [of _ 4]) simp_all
  then show ?thesis
    by (simp add: step_phase_def unsigned_ucast_eq unat_mod take_bit_nat_eq_self)
qed

lemma step_phase_eq_iff: "step_phase s = of_nat k \<longleftrightarrow> unat s mod 4 = k" if "k < 256"
proof -
  have "unat (of_nat k :: u8) = k"
    using that by (simp add: unat_of_nat take_bit_nat_eq_self)
  then show ?thesis by (simp add: word_unat_eq_iff unat_step_phase)
qed

lemma step_phase_iffs:
  "step_phase s = 0 \<longleftrightarrow> unat s mod 4 = 0"
  "step_phase s = 1 \<longleftrightarrow> unat s mod 4 = 1"
  "step_phase s = 2 \<longleftrightarrow> unat s mod 4 = 2"
  "step_phase s = 3 \<longleftrightarrow> unat s mod 4 = 3"
  using step_phase_eq_iff [of 0 s] step_phase_eq_iff [of 1 s] step_phase_eq_iff [of 2 s]
    step_phase_eq_iff [of 3 s] by simp_all

lemma step_phase_cases:
  "step_phase s = 0 \<or> step_phase s = 1 \<or> step_phase s = 2 \<or> step_phase s = 3"
  by (simp add: step_phase_iffs) arith

lemma step_checked_next_Some: "step_checked_next s = Some t \<longleftrightarrow> unat t = unat s + 1"
  by (simp add: step_checked_next_def checked_add_Some)

lemma is_next_after_iff: "is_next_after s t \<longleftrightarrow> unat s = unat t + 1"
  by (simp add: is_next_after_def checked_add_Some)

lemma unat_ROUND_ONE_PHASE_ZERO [simp]: "unat ROUND_ONE_PHASE_ZERO = 4"
  by (simp add: ROUND_ONE_PHASE_ZERO_def)

section \<open>Choosing the best proposal\<close>

lemma with_priority_simps [simp]:
  "prop_value_ids (with_priority p pr) = prop_value_ids p"
  "priority (prop_key (with_priority p pr)) = pr"
  "proposer_id (prop_key (with_priority p pr)) = proposer_id (prop_key p)"
  "lane_id (prop_key (with_priority p pr)) = lane_id (prop_key p)"
  by (simp_all add: with_priority_def)

lemma best_proposal_simps [simp]:
  "best_proposal None q = q"
  "best_proposal (Some p) q = (if prop_key q \<le> prop_key p then p else q)"
  by (simp_all add: best_proposal_def)

lemma max_proposal_acc:
  "foldl (\<lambda>b p. Some (best_proposal b p)) (Some a) ps = Some m \<Longrightarrow>
     m \<in> insert a (set ps) \<and> (\<forall>p \<in> insert a (set ps). prop_key p \<le> prop_key m)"
proof (induction ps arbitrary: a)
  case Nil
  then show ?case by simp
next
  case (Cons p ps)
  then show ?case
    by (fastforce split: if_splits)
qed

lemma max_proposal_acc_Some:
  "\<exists>m. foldl (\<lambda>b p. Some (best_proposal b p)) (Some a) ps = Some m"
  by (induction ps arbitrary: a) auto

lemma max_proposal_None [simp]: "max_proposal_by_key ps = None \<longleftrightarrow> ps = []"
  by (cases ps) (simp_all add: max_proposal_by_key_def, metis max_proposal_acc_Some option.distinct(1))


lemma max_proposal_Some:
  "max_proposal_by_key ps = Some m \<Longrightarrow> m \<in> set ps \<and> (\<forall>p \<in> set ps. prop_key p \<le> prop_key m)"
  by (cases ps) (auto simp: max_proposal_by_key_def dest: max_proposal_acc)


section \<open>Cluster identities\<close>

lemma members_are_normalized_iff:
  "members_are_normalized ms \<longleftrightarrow> ms \<noteq> [] \<and> sorted_wrt (<) ms"
  by (simp add: members_are_normalized_def list_all_iff windows2_less_iff)

lemma members_are_normalized_distinct: "members_are_normalized ms \<Longrightarrow> distinct ms"
  by (simp add: members_are_normalized_iff strict_sorted_iff)

lemma validate_fault_tolerance_ok:
  "is_ok (validate_fault_tolerance n f) \<longleftrightarrow> 2 * f + 1 \<le> n \<and> 2 * f + 1 \<le> usize_max"
  by (auto simp: validate_fault_tolerance_def usize_checked_mul_def usize_checked_add_def mult.commute)

lemma validate_fault_tolerance_Inr:
  "validate_fault_tolerance n f = Inr u \<longleftrightarrow> 2 * f + 1 \<le> n \<and> 2 * f + 1 \<le> usize_max"
  by (auto simp: validate_fault_tolerance_def usize_checked_mul_def usize_checked_add_def mult.commute)

lemma normalize_members_Inr:
  "normalize_members ms = Inr ns \<longleftrightarrow> ms \<noteq> [] \<and> distinct ms \<and> ns = sort ms"
proof -
  have "find_map (\<lambda>(a, b). if a = b then Some a else None) (windows2 (sort ms)) = None
          \<longleftrightarrow> (\<forall>(a, b) \<in> set (windows2 (sort ms)). a \<noteq> b)"
    by (auto simp: find_map_None split: if_splits)
  also have "\<dots> \<longleftrightarrow> distinct ms"
    using windows2_sorted_distinct [of "sort ms"] by simp
  finally show ?thesis
    by (auto simp: normalize_members_def Let_def split: option.splits)
      (metis list.set_intros(1) set_empty2 set_sort empty_iff sort_key_simps(1))+
qed

lemma normalize_members_normalized:
  "normalize_members ms = Inr ns \<Longrightarrow> members_are_normalized ns \<and> set ns = set ms"
  by (auto simp: normalize_members_Inr members_are_normalized_iff strict_sorted_iff
      simp flip: set_empty)

lemma sorted_union_normalized:
  assumes "members_are_normalized xs"
  shows "members_are_normalized (remdups_adj (sort (xs @ ys)))"
    and "set (remdups_adj (sort (xs @ ys))) = set xs \<union> set ys"
proof -
  show "set (remdups_adj (sort (xs @ ys))) = set xs \<union> set ys" by simp
  then have "remdups_adj (sort (xs @ ys)) \<noteq> []"
    using assms by (auto simp: members_are_normalized_iff simp flip: set_empty)
  then show "members_are_normalized (remdups_adj (sort (xs @ ys)))"
    by (simp add: members_are_normalized_iff sorted_remdups_adj_strict)
qed

text \<open>The stable and the joint case of well-formedness.\<close>

lemma is_well_formed_stable:
  "ci_joint c = None \<Longrightarrow> is_well_formed c \<longleftrightarrow>
     members_are_normalized (ci_members c)
     \<and> 2 * ci_max_faults c + 1 \<le> length (ci_members c) \<and> 2 * ci_max_faults c + 1 \<le> usize_max"
  by (simp add: is_well_formed_def validate_fault_tolerance_ok)

lemma is_well_formed_joint:
  "ci_joint c = Some j \<Longrightarrow> is_well_formed c \<longleftrightarrow>
     members_are_normalized (ci_members c)
     \<and> members_are_normalized (jm_old_members j) \<and> members_are_normalized (jm_new_members j)
     \<and> 2 * jm_old_max_faults j + 1 \<le> length (jm_old_members j) \<and> 2 * jm_old_max_faults j + 1 \<le> usize_max
     \<and> 2 * ci_max_faults c + 1 \<le> length (jm_new_members j) \<and> 2 * ci_max_faults c + 1 \<le> usize_max
     \<and> remdups_adj (sort (jm_old_members j @ jm_new_members j)) = ci_members c"
  by (auto simp: is_well_formed_def validate_fault_tolerance_ok)

lemma cluster_stable_Inr:
  "cluster_stable e ms f = Inr c \<longleftrightarrow>
     ms \<noteq> [] \<and> distinct ms \<and> 2 * f + 1 \<le> length ms \<and> 2 * f + 1 \<le> usize_max
     \<and> c = \<lparr>ci_members = sort ms, ci_max_faults = f, ci_epoch = e, ci_joint = None\<rparr>"
  by (auto simp: cluster_stable_def rbind_Inr normalize_members_Inr validate_fault_tolerance_Inr)

lemma cluster_stable_wf: "cluster_stable e ms f = Inr c \<Longrightarrow> is_well_formed c"
  by (auto simp: cluster_stable_Inr is_well_formed_stable members_are_normalized_iff strict_sorted_iff
      simp flip: set_empty)

lemma begin_joint_successor:
  assumes wf: "is_well_formed c" and bj: "begin_joint c ms f = Inr d"
  shows "is_well_formed d" and "is_successor_of d c" and "is_joint d"
    and "set (ci_members d) = set (ci_members c) \<union> set ms"
proof -
  from bj obtain ns e where st: "\<not> is_joint c" and ns: "normalize_members ms = Inr ns"
    and f: "2 * f + 1 \<le> length ns" "2 * f + 1 \<le> usize_max"
    and e: "checked_add (ci_epoch c) 1 = Some e"
    and d: "d = \<lparr>ci_members = remdups_adj (sort (ci_members c @ ns)), ci_max_faults = f, ci_epoch = e,
                 ci_joint = Some \<lparr>jm_old_members = ci_members c, jm_old_max_faults = ci_max_faults c,
                                  jm_new_members = ns\<rparr>\<rparr>"
    by (auto simp: begin_joint_def rbind_Inr ok_or_Inr validate_fault_tolerance_Inr split: if_splits)
  from st have none: "ci_joint c = None" by (simp add: is_joint_def)
  with wf have nc: "members_are_normalized (ci_members c)"
    and fc: "2 * ci_max_faults c + 1 \<le> length (ci_members c)" "2 * ci_max_faults c + 1 \<le> usize_max"
    by (simp_all add: is_well_formed_stable)
  from normalize_members_normalized [OF ns] have nn: "members_are_normalized ns" "set ns = set ms" by auto
  show wd: "is_well_formed d"
    using is_well_formed_joint [of d] nc fc nn f sorted_union_normalized [OF nc, of ns] by (simp add: d)
  show "is_successor_of d c"
    using wf wd e none by (simp add: is_successor_of_def d is_joint_def)
  show "is_joint d" by (simp add: d is_joint_def)
  show "set (ci_members d) = set (ci_members c) \<union> set ms"
    using nn by (simp add: d)
qed

lemma finalize_joint_successor:
  assumes wf: "is_well_formed c" and fj: "finalize_joint c = Inr d"
  shows "is_well_formed d" and "is_successor_of d c" and "\<not> is_joint d"
    and "ci_members d = current_members c"
proof -
  from fj obtain j e where j: "ci_joint c = Some j" and e: "checked_add (ci_epoch c) 1 = Some e"
    and st: "cluster_stable e (jm_new_members j) (ci_max_faults c) = Inr d"
    by (auto simp: finalize_joint_def rbind_Inr ok_or_Inr split: option.splits)
  from wf j have nn: "members_are_normalized (jm_new_members j)" by (simp add: is_well_formed_joint)
  then have srt: "sort (jm_new_members j) = jm_new_members j"
    by (simp add: members_are_normalized_iff strict_sorted_iff sorted_sort_id)
  show wd: "is_well_formed d" using st by (rule cluster_stable_wf)
  from st have d: "d = \<lparr>ci_members = jm_new_members j, ci_max_faults = ci_max_faults c, ci_epoch = e, ci_joint = None\<rparr>"
    by (simp add: cluster_stable_Inr srt)
  show "is_successor_of d c"
    using wf wd e j by (simp add: is_successor_of_def d)
  show "\<not> is_joint d" by (simp add: d is_joint_def)
  show "ci_members d = current_members c" by (simp add: d current_members_def j)
qed

section \<open>Quorums\<close>

lemma cluster_faults_le:
  assumes "is_well_formed c"
  shows "ci_joint c = None \<Longrightarrow> ci_max_faults c \<le> length (ci_members c)"
    and "ci_joint c = Some j \<Longrightarrow>
      jm_old_max_faults j \<le> length (jm_old_members j) \<and> ci_max_faults c \<le> length (jm_new_members j)"
  using assms by (auto simp: is_well_formed_stable is_well_formed_joint)

lemma component_quorums_meet:
  assumes n: "members_are_normalized ms" and f: "2 * f + 1 \<le> length ms"
    and a: "length ms - f \<le> length (filter (\<lambda>m. m \<in> A) ms)"
    and b: "length ms - f \<le> length (filter (\<lambda>m. m \<in> B) ms)"
  shows "\<exists>m \<in> set ms. m \<in> A \<and> m \<in> B"
proof (rule half_sets_meet)
  have d: "distinct ms" using n by (rule members_are_normalized_distinct)
  from f a b show "card (set ms) < card (A \<inter> set ms) + card (B \<inter> set ms)"
    by (simp add: length_filter_mem [OF d] distinct_card [OF d])
qed simp

lemma has_quorum_stable_filter:
  assumes wf: "is_well_formed c" and j: "ci_joint c = None" and q: "has_quorum c vs"
  shows "length (ci_members c) - ci_max_faults c \<le> length (filter (\<lambda>m. m \<in> set vs) (ci_members c))"
proof -
  from q j have card: "length (ci_members c) - ci_max_faults c \<le> card (set vs)"
    and sub: "set vs \<subseteq> set (ci_members c)"
    by (auto simp: has_quorum_def cluster_quorum_size_def cluster_contains_def Let_def)
  from wf j have "distinct
 (ci_members c)"
    by (simp add: is_well_formed_stable members_are_normalized_distinct)
  moreover have "set vs \<inter> set (ci_members c) = set vs" using sub by blast
  ultimately show ?thesis using card by (simp add: length_filter_mem)
qed

lemma has_quorum_meet:
  assumes wf: "is_well_formed c" and a: "has_quorum c vs" and b: "has_quorum c ws"
  shows "\<exists>m \<in> set (ci_members c). m \<in> set vs \<and> m \<in> set ws"
proof (cases "ci_joint c")
  case None
  with wf have "members_are_normalized (ci_members c)" "2 * ci_max_faults c + 1 \<le> length (ci_members c)"
    by (simp_all add: is_well_formed_stable)
  then show ?thesis
    by (rule component_quorums_meet)
      (rule has_quorum_stable_filter [OF wf None a], rule has_quorum_stable_filter [OF wf None b])
next
  case (Some j)
  with wf have *: "members_are_normalized (jm_old_members j)" "2 * jm_old_max_faults j + 1 \<le> length (jm_old_members j)"
    and u: "remdups_adj (sort (jm_old_members j @ jm_new_members j)) = ci_members c"
    by (simp_all add: is_well_formed_joint)
  have "\<exists>m \<in> set (jm_old_members j). m \<in> set vs \<and> m \<in> set ws"
    using a b Some by (intro component_quorums_meet [OF *]) (simp_all add: has_quorum_def Let_def)
  moreover have "set (jm_old_members j) \<subseteq> set (ci_members c)"
    unfolding u [symmetric] by simp
  ultimately show ?thesis by blast
qed


interpretation cluster: quorum_system is_well_formed has_quorum
  by unfold_locales (use has_quorum_meet in blast)

lemma successor_quorums_meet:
  assumes suc: "is_successor_of d c" and a: "has_quorum c vs" and b: "has_quorum d ws"
  shows "\<exists>m. m \<in> set vs \<and> m \<in> set ws"
proof -
  from suc have wf: "is_well_formed c" "is_well_formed d"
    by (auto simp: is_successor_of_def split: if_splits)
  show ?thesis
  proof (cases "ci_joint d")
    case (Some j)
    with suc have c: "ci_joint c = None" "jm_old_members j = ci_members c" "jm_old_max_faults j = ci_max_faults c"
      by (auto simp: is_successor_of_def is_joint_def split: if_splits)
    have "length (ci_members c) - ci_max_faults c \<le> length (filter (\<lambda>m. m \<in> set ws) (ci_members c))"
      using b Some c by (simp add: has_quorum_def Let_def)
    then have "\<exists>m \<in> set (ci_members c). m \<in> set vs \<and> m \<in> set ws"
      using wf(1) c(1) has_quorum_stable_filter [OF wf(1) c(1) a]
      by (intro component_quorums_meet [where f = "ci_max_faults c"]) (simp_all add: is_well_formed_stable)
    then show ?thesis by blast
  next
    case None
    with suc obtain j where c: "ci_joint c = Some j" "ci_members d = jm_new_members j" "ci_max_faults d = ci_max_faults c"
      by (auto simp: is_successor_of_def split: if_splits option.splits)
    have "length (jm_new_members j) - ci_max_faults c \<le> length (filter (\<lambda>m. m \<in> set vs) (jm_new_members j))"
      using a c by (simp add: has_quorum_def Let_def)
    then have "\<exists>m \<in> set (jm_new_members j). m \<in> set vs \<and> m \<in> set ws"
      using wf(1) c has_quorum_stable_filter [OF wf(2) None b]
      by (intro component_quorums_meet [where f = "ci_max_faults c"]) (simp_all add: is_well_formed_joint)
    then show ?thesis by blast
  qed
qed

text \<open>\<open>quorum_size\<close> is the least number of voters a quorum can have.\<close>

lemma joint_count:
  assumes a: "oq \<le> card (V \<inter> A)" and b: "nq \<le> card (V \<inter> B)" and fin: "finite V" "finite A"
  shows "oq + nq - min (min (card (A \<inter> B)) oq) nq \<le> card V"
proof -
  have va: "card (V \<inter> A) \<le> card V" and vb: "card (V \<inter> B) \<le> card V"
    using fin by (simp_all add: card_mono)
  have un: "card (V \<inter> A) + card (V \<inter> B) = card (V \<inter> A \<union> V \<inter> B) + card (V \<inter> A \<inter> (V \<inter> B))"
    using fin by (intro card_Un_Int) simp_all
  have le: "card (V \<inter> A \<union> V \<inter> B) \<le> card V" "card (V \<inter> A \<inter> (V \<inter> B)) \<le> card (A \<inter> B)"
    using fin by (auto intro!: card_mono)
  from un le a b have "oq + nq \<le> card V + card (A \<inter> B)" by linarith
  with a b va vb show ?thesis
    by (cases "card (A \<inter> B) \<le> oq"; cases "card (A \<inter> B) \<le> nq"; cases "oq \<le> nq") simp_all
qed

lemma has_quorum_size:
  assumes wf: "is_well_formed c" and q: "has_quorum c vs"
  shows "cluster_quorum_size c \<le> card (set vs)"
proof (cases "ci_joint c")
  case None
  then show ?thesis using q by (auto simp: has_quorum_def Let_def)
next
  case (Some j)
  with wf have d: "distinct (jm_old_members j)" "distinct (jm_new_members j)"
    by (simp_all add: is_well_formed_joint members_are_normalized_distinct)
  let ?oq = "length (jm_old_members j) - jm_old_max_faults j"
  let ?nq = "length (jm_new_members j) - ci_max_faults c"
  have o: "?oq \<le> card (set vs \<inter> set (jm_old_members j))"
    and n: "?nq \<le> card (set vs \<inter> set (jm_new_members j))"
    using q Some by (simp_all add: has_quorum_def Let_def length_filter_mem d)
  have "cluster_quorum_size c =
      ?oq + ?nq - min (min (card (set (jm_new_members j) \<inter> set (jm_old_members j))) ?oq) ?nq"
    using Some by (simp add: cluster_quorum_size_def Let_def length_filter_mem d)
  also have "\<dots> \<le> card (set vs)"
    using joint_count [OF o n] by (simp add: Int_commute)
  finally show ?thesis .
qed

section \<open>Canonical encoding\<close>

lemma length_u64_to_be_bytes [simp]: "length (u64_to_be_bytes w) = 8"
  by (simp add: u64_to_be_bytes_def)

lemma ucast_byte_bit:
  "i < 8 \<Longrightarrow> bit (ucast (drop_bit (8 * k) (w :: u64)) :: u8) i \<longleftrightarrow> bit w (8 * k + i)"
  by (simp add: bit_ucast_iff bit_drop_bit_eq)

lemma u64_to_be_bytes_inj: "u64_to_be_bytes v = u64_to_be_bytes w \<Longrightarrow> v = w"
proof (rule bit_eqI)
  fix n
  assume eq: "u64_to_be_bytes v = u64_to_be_bytes w" and "possible_bit TYPE(u64) n"
  then have n: "n < 64" by simp
  have all: "\<forall>i \<in> set (rev [0..<8]).
      (ucast (drop_bit (8 * i) v) :: u8) = ucast (drop_bit (8 * i) w)"
    using eq unfolding u64_to_be_bytes_def map_eq_conv .
  have k: "n div 8 \<in> set (rev [0..<8])"
    using n by (simp del: upt_rec_numeral)
  from all k have b: "(ucast (drop_bit (8 * (n div 8)) v) :: u8) = ucast (drop_bit (8 * (n div 8)) w)"
    by (rule bspec)
  have "bit v (8 * (n div 8) + n mod 8) = bit w (8 * (n div 8) + n mod 8)"
    using ucast_byte_bit [of "n mod 8" "n div 8" v] ucast_byte_bit [of "n mod 8" "n div 8" w] b by simp
  then show "bit v n = bit w n" by simp
qed


lemma u64_to_be_bytes_eq [simp]: "u64_to_be_bytes v = u64_to_be_bytes w \<longleftrightarrow> v = w"
  by (auto dest: u64_to_be_bytes_inj)

lemma u64_bytes_prefix:
  "u64_to_be_bytes v @ r = u64_to_be_bytes v' @ r' \<Longrightarrow> v = v' \<and> r = r'"
  by (auto dest: u64_to_be_bytes_inj simp: append_eq_append_conv)

lemma encode_usize_prefix:
  assumes "encode_usize v = Inr a" "encode_usize v' = Inr a'" "a @ r = a' @ r'"
  shows "v = v' \<and> r = r'"
proof -
  from assms have v: "v < 2 ^ 64" "v' < 2 ^ 64" "a = u64_to_be_bytes (of_nat v)" "a' = u64_to_be_bytes (of_nat v')"
    by (auto simp: encode_usize_def split: if_splits)
  with assms(3) have "(of_nat v :: u64) = of_nat v'" "r = r'"
    by (auto dest: u64_bytes_prefix)
  then have "unat (of_nat v :: u64) = unat (of_nat v' :: u64)" by simp
  with v have "v = v'"
    by (simp add: unsigned_of_nat take_bit_nat_eq_self)
  with \<open>r = r'\<close> show ?thesis by simp
qed

lemma member_blocks_prefix:
  "length ms = length ms' \<Longrightarrow>
   concat (map u64_to_be_bytes ms) @ r = concat (map u64_to_be_bytes ms') @ r' \<Longrightarrow> ms = ms' \<and> r = r'"
proof (induction ms ms' rule: list_induct2)
  case (Cons x xs y ys)
  then show ?case by (auto dest: u64_bytes_prefix)
qed simp

lemma encode_members_prefix:
  assumes "encode_members ms = Inr a" "encode_members ms' = Inr a'" "a @ r = a' @ r'"
  shows "ms = ms' \<and> r = r'"
proof -
  from assms obtain n n' where n: "encode_usize (length ms) = Inr n" "encode_usize (length ms') = Inr n'"
    and a: "a = n @ concat (map u64_to_be_bytes ms)" "a' = n' @ concat (map u64_to_be_bytes ms')"
    by (auto simp: encode_members_def rbind_Inr)
  from assms(3) have "n @ (concat (map u64_to_be_bytes ms) @ r) = n' @ (concat (map u64_to_be_bytes ms') @ r')"
    by (simp add: a)
  from encode_usize_prefix [OF n this] show ?thesis
    by (auto dest: member_blocks_prefix)
qed

lemma encode_cluster_parts:
  assumes "encode_cluster c = Inr bs"
  obtains f m where "encode_usize (ci_max_faults c) = Inr f" "encode_members (ci_members c) = Inr m"
    "ci_joint c = None" "bs = u64_to_be_bytes (ci_epoch c) @ f @ m @ [0]"
  | f m j oldf ol nw where "encode_usize (ci_max_faults c) = Inr f" "encode_members (ci_members c) = Inr m"
    "ci_joint c = Some j" "encode_usize (jm_old_max_faults j) = Inr oldf"
    "encode_members (jm_old_members j) = Inr ol" "encode_members (jm_new_members j) = Inr nw"
    "bs = u64_to_be_bytes (ci_epoch c) @ f @ m @ 1 # oldf @ ol @ nw"
  using assms by (auto simp: encode_cluster_def rbind_Inr split: option.splits)

lemma encode_cluster_inj:
  assumes "encode_cluster c = Inr bs" "encode_cluster d = Inr bs"
  shows "c = d"
  using assms(1)
proof (cases rule: encode_cluster_parts)
  case c: (1 f m)
  show ?thesis
    using assms(2)
  proof (cases rule: encode_cluster_parts)
    case d: (1 f' m')
    from c(4) d(4) have "ci_epoch c = ci_epoch d" "f @ (m @ [0]) = f' @ (m' @ [0])"
      by (auto dest: u64_bytes_prefix)
    with encode_usize_prefix [OF c(1) d(1)] encode_members_prefix [OF c(2) d(2), of "[0]" "[0]"] c(3) d(3)
    show ?thesis by simp
  next
    case d: (2 f' m' j o' l' n')
    from c(4) d(7) have "f @ (m @ [0]) = f' @ (m' @ 1 # o' @ l' @ n')"
      by (auto dest: u64_bytes_prefix)
    with encode_usize_prefix [OF c(1) d(1)] have "m @ [0] = m' @ 1 # o' @ l' @ n'" by blast
    with encode_members_prefix [OF c(2) d(2)] have "[0 :: u8] = 1 # o' @ l' @ n'" by blast
    then show ?thesis by simp
  qed
next
  case c: (2 f m j o1 l n)
  show ?thesis
    using assms(2)
  proof (cases rule: encode_cluster_parts)
    case d: (1 f' m')
    from c(7) d(4) have "f @ (m @ 1 # o1 @ l @ n) = f' @ (m' @ [0])"
      by (auto dest: u64_bytes_prefix)
    with encode_usize_prefix [OF c(1) d(1)] have "m @ 1 # o1 @ l @ n = m' @ [0]" by blast
    with encode_members_prefix [OF c(2) d(2)] have "1 # o1 @ l @ n = [0 :: u8]" by blast
    then show ?thesis by simp
  next
    case d: (2 f' m' j' o' l' n')
    from c(7) d(7) have e: "ci_epoch c = ci_epoch d" "f @ (m @ 1 # o1 @ l @ n) = f' @ (m' @ 1 # o' @ l' @ n')"
      by (auto dest: u64_bytes_prefix)
    from encode_usize_prefix [OF c(1) d(1) e(2)] have
      f: "ci_max_faults c = ci_max_faults d" and "m @ 1 # o1 @ l @ n = m' @ 1 # o' @ l' @ n'" by auto
    with encode_members_prefix [OF c(2) d(2)] have
      m: "ci_members c = ci_members d" and "1 # o1 @ l @ n = 1 # o' @ l' @ n'" by blast+
    then have "o1 @ (l @ n) = o' @ (l' @ n')" by simp
    from encode_usize_prefix [OF c(4) d(4) this] have
      oldf: "jm_old_max_faults j = jm_old_max_faults j'" and "l @ n = l' @ n'" by auto
    with encode_members_prefix [OF c(5) d(5)] have
      ol: "jm_old_members j = jm_old_members j'" and "n @ [] = n' @ []" by auto
    with encode_members_prefix [OF c(6) d(6)] have "jm_new_members j = jm_new_members j'" by blast
    with e f m oldf ol c(3) d(3) show ?thesis by simp
  qed
qed

lemma canonical_bytes_inj:
  "canonical_bytes a = Inr bs \<Longrightarrow> canonical_bytes b = Inr bs \<Longrightarrow> a = b"
  by (auto simp: canonical_bytes_def rbind_Inr dest: encode_cluster_inj)

section \<open>Guarantees\<close>

text \<open>
  C4: Reconfiguration is safe. When a well-formed stable configuration begins a joint epoch and that
  epoch is finalized, every quorum of the old configuration meets every quorum of the joint one,
  every joint quorum meets every quorum of the new one, and the result is the well-formed
  configuration with the requested members.
\<close>

theorem reconfiguration_quorums_meet:
  assumes "is_well_formed c" and "begin_joint c ms f = Inr d" and "finalize_joint d = Inr e"
    and "has_quorum c old" and "has_quorum d joint" and "has_quorum e new"
  shows "set old \<inter> set joint \<noteq> {} \<and> set joint \<inter> set new \<noteq> {} \<and> is_well_formed e \<and> set (ci_members e) = set ms"
proof -
  note b = begin_joint_successor [OF assms(1,2)]
  note f = finalize_joint_successor [OF b(1) assms(3)]
  have "set (current_members d) = set ms"
    using assms(2) by (auto simp: begin_joint_def current_members_def qp_result dest: normalize_members_normalized split: if_splits)
  then show ?thesis
    using successor_quorums_meet [OF b(2) assms(4,5)] successor_quorums_meet [OF f(2) assms(5,6)] f by auto
qed

theorem reconfiguration_quorums_meet_witness:
  "\<exists>c d e. begin_joint c [2, 3, 4] 1 = Inr d \<and> finalize_joint d = Inr e \<and> has_quorum c [1, 2]
     \<and> has_quorum d [1, 2, 3] \<and> has_quorum e [3, 4] \<and> set [1, 2 :: ReplicaId] \<inter> set [1, 2, 3] \<noteq> {}"
proof -
  let ?c = "\<lparr>ci_members = [1, 2, 3], ci_max_faults = 1, ci_epoch = 0, ci_joint = None\<rparr>"
  let ?d = "\<lparr>ci_members = [1, 2, 3, 4], ci_max_faults = 1, ci_epoch = 1,
    ci_joint = Some \<lparr>jm_old_members = [1, 2, 3], jm_old_max_faults = 1, jm_new_members = [2, 3, 4]\<rparr>\<rparr>"
  let ?e = "\<lparr>ci_members = [2, 3, 4], ci_max_faults = 1, ci_epoch = 2, ci_joint = None\<rparr>"
  have c: "is_well_formed ?c" by (simp add: is_well_formed_stable members_are_normalized_def windows2_def usize_max_def)
  have d: "begin_joint ?c [2, 3, 4] 1 = Inr ?d"
    by (simp add: begin_joint_def is_joint_def normalize_members_def windows2_def validate_fault_tolerance_def
        usize_checked_mul_def usize_checked_add_def usize_max_def checked_add_def)
  have e: "finalize_joint ?d = Inr ?e"
    by (simp add: finalize_joint_def cluster_stable_Inr usize_max_def checked_add_def)
  have q: "has_quorum ?c [1, 2]" "has_quorum ?d [1, 2, 3]" "has_quorum ?e [3, 4]"
    by (simp_all add: has_quorum_def cluster_quorum_size_def cluster_contains_def)
  show ?thesis using reconfiguration_quorums_meet [OF c d e q] d e q by blast
qed

text \<open>
  C5: The canonical encoding of membership commands is injective: equal bytes, hence equal inputs to
  the content hash, mean the same target configuration.
\<close>

theorem canonical_bytes_injective:
  assumes "canonical_bytes a = Inr bytes" and "canonical_bytes b = Inr bytes"
  shows "a = b"
  using assms by (rule canonical_bytes_inj)

theorem canonical_bytes_injective_witness:
  "\<exists>bytes. canonical_bytes \<lparr>mc_next = \<lparr>ci_members = [1], ci_max_faults = 0, ci_epoch = 3, ci_joint = None\<rparr>\<rparr> = Inr bytes \<and>
     (\<forall>b. canonical_bytes b = Inr bytes \<longrightarrow> b = \<lparr>mc_next = \<lparr>ci_members = [1], ci_max_faults = 0, ci_epoch = 3, ci_joint = None\<rparr>\<rparr>)"
proof -
  let ?m = "\<lparr>mc_next = \<lparr>ci_members = [1], ci_max_faults = 0, ci_epoch = 3, ci_joint = None\<rparr>\<rparr>"
  obtain bytes where "canonical_bytes ?m = Inr bytes"
    by (simp add: canonical_bytes_def encode_cluster_def encode_members_def encode_usize_def)
  then show ?thesis using canonical_bytes_injective [of _ bytes ?m] by blast
qed

text \<open>
  C6: The cluster constructor accepts exactly the non-empty, duplicate-free member lists that
  tolerate their fault budget; what it builds is well-formed, and any reply set it later accepts as
  a quorum has at least \<open>quorum_size\<close> members.
\<close>

theorem cluster_new_correct:
  "(is_ok (cluster_new ms f) \<longleftrightarrow> ms \<noteq> [] \<and> distinct ms \<and> 2 * f + 1 \<le> length ms \<and> 2 * f + 1 \<le> usize_max)
   \<and> (\<forall>c vs. cluster_new ms f = Inr c \<longrightarrow> is_well_formed c \<and> ci_members c = sort ms
        \<and> (has_quorum c vs \<longrightarrow> length ms - f \<le> card (set vs)))"
proof -
  have n: "cluster_new ms f = cluster_stable 0 ms f" by (simp add: cluster_new_def)
  have q: "length ms - f \<le> card (set vs)" if "cluster_stable 0 ms f = Inr c" "has_quorum c vs" for c vs
    using has_quorum_size [OF cluster_stable_wf [OF that(1)] that(2)] that(1)
    by (auto simp: cluster_stable_Inr cluster_quorum_size_def)
  have "is_ok (cluster_stable 0 ms f) \<longleftrightarrow> (\<exists>c. cluster_stable 0 ms f = Inr c)"
    by (cases "cluster_stable 0 ms f") auto
  then show ?thesis
    unfolding n using cluster_stable_wf q by (auto simp: cluster_stable_Inr)
qed

theorem cluster_new_correct_witness:
  "\<exists>c. cluster_new [3, 1, 2] 1 = Inr c \<and> is_well_formed c \<and> has_quorum c [2, 3] \<and> 2 \<le> card (set [2, 3 :: ReplicaId])"
proof -
  let ?c = "\<lparr>ci_members = [1, 2, 3], ci_max_faults = 1, ci_epoch = 0, ci_joint = None\<rparr>"
  have c: "cluster_new [3, 1, 2] 1 = Inr ?c" by (simp add: cluster_new_def cluster_stable_Inr usize_max_def word_le_nat_alt)
  have q: "has_quorum ?c [2, 3]" by (simp add: has_quorum_def cluster_quorum_size_def cluster_contains_def)
  note all = conjunct2 [OF cluster_new_correct [of "[3, 1, 2]" 1], rule_format, OF c, of "[2, 3]"]
  have w: "is_well_formed ?c" by (rule conjunct1 [OF all])
  have "length [3, 1, 2 :: ReplicaId] - 1 \<le> card (set [2, 3 :: ReplicaId])"
    by (rule mp [OF conjunct2 [OF conjunct2 [OF all]] q])
  then have "2 \<le> card (set [2, 3 :: ReplicaId])" by simp
  with c q w show ?thesis by blast
qed

lemma checked_round_phase_cases:
  "checked_from_round_phase r ph =
     (if unat r * 4 < 2 ^ 64 then checked_add (r * 4) (ucast ph) else None)"
  using unat_checked_mul [of r 4] by (auto simp: checked_from_round_phase_def checked_mul_def)

text \<open>
  C7: Step arithmetic. A step built from a round and a phase is \<open>4 * round + phase\<close> and is refused
  exactly when that exceeds a \<open>u64\<close>; \<open>phase\<close> reads the phase back for phases below four.
\<close>

theorem step_round_phase:
  "(checked_from_round_phase r ph = None \<longleftrightarrow> 2 ^ 64 \<le> 4 * unat r + unat ph)
   \<and> (\<forall>s. checked_from_round_phase r ph = Some s \<longrightarrow> unat s = 4 * unat r + unat ph \<and> (unat ph < 4 \<longrightarrow> step_phase s = ph))"
proof -
  have "unat ph < 2 ^ LENGTH(8)" by (rule unsigned_less)
  then have u: "unat (ucast ph :: u64) = unat ph" by (simp add: unsigned_ucast_eq take_bit_nat_eq_self_iff)
  have m: "unat r * 4 < 2 ^ 64 \<Longrightarrow> unat (r * 4) = unat r * 4" using unat_checked_mul [of r 4] by simp
  have "unat s mod 4 = unat ph" if "unat s = unat r * 4 + unat ph" "unat ph < 4" for s :: u64 using that by simp
  then show ?thesis
    using m u by (auto simp: checked_round_phase_cases checked_add_None checked_add_Some word_unat_eq_iff unat_step_phase)
qed

theorem step_round_phase_witness:
  "\<exists>s. checked_from_round_phase 2 1 = Some s \<and> unat s = 9 \<and> step_phase s = 1 \<and> checked_from_round_phase u64_max 0 = None"
  using step_round_phase [of 2 1] step_round_phase [of u64_max 0]
  by (simp add: checked_round_phase_cases checked_add_def unat_u64_max)

end
