(* ===== verification/QP_Isr.thy ===== *)
theory QP_Isr
  imports QP_Types
begin

text \<open>
  The interval summary register of \<open>src/isr.rs\<close>: constant-space state per slot, one \<open>record\<close>
  operation. The specification is a history: the list of all calls, of which those that were
  not behind the register are \<open>accepted\<close>. The register is shown to be the function of that
  history that the paper describes (current step, first proposal of the step, best proposal of
  the step and of the step before), and every reply keeps its meaning in all later histories.
\<close>

section \<open>The register\<close>

record 'v IntervalSummarySnapshot =
  iss_step :: Step
  iss_first :: "'v Proposal option"
  iss_current_aggregate :: "'v Proposal option"
  iss_prior_aggregate :: "'v Proposal option"

record 'v IntervalSummaryRegister =
  isr_step :: Step
  isr_first :: "'v Proposal option"
  isr_current_aggregate :: "'v Proposal option"
  isr_prior_aggregate :: "'v Proposal option"

definition isr_default :: "'v IntervalSummaryRegister" where
  "isr_default = \<lparr>isr_step = STEP_INITIAL, isr_first = None, isr_current_aggregate = None,
                  isr_prior_aggregate = None\<rparr>"

definition isr_snapshot :: "'v IntervalSummaryRegister \<Rightarrow> 'v IntervalSummarySnapshot" where
  "isr_snapshot r = \<lparr>iss_step = isr_step r, iss_first = isr_first r,
                     iss_current_aggregate = isr_current_aggregate r,
                     iss_prior_aggregate = isr_prior_aggregate r\<rparr>"

definition isr_restore :: "'v IntervalSummarySnapshot \<Rightarrow> 'v IntervalSummaryRegister" where
  "isr_restore s = \<lparr>isr_step = iss_step s, isr_first = iss_first s,
                    isr_current_aggregate = iss_current_aggregate s,
                    isr_prior_aggregate = iss_prior_aggregate s\<rparr>"

definition isr_summary :: "'v IntervalSummaryRegister \<Rightarrow> 'v RecordSummary" where
  "isr_summary r = \<lparr>sum_step = isr_step r, sum_first = isr_first r,
                    sum_prior_aggregate = isr_prior_aggregate r\<rparr>"

definition isr_advance ::
  "'v IntervalSummaryRegister \<Rightarrow> Step \<Rightarrow> 'v Proposal \<Rightarrow> 'v IntervalSummaryRegister" where
  "isr_advance r s p =
     (if s = isr_step r then
        r\<lparr>isr_first := (case isr_first r of Some f \<Rightarrow> Some f | None \<Rightarrow> Some p),
          isr_current_aggregate := Some (best_proposal (isr_current_aggregate r) p)\<rparr>
      else if s > isr_step r then
        r\<lparr>isr_prior_aggregate := (if is_next_after s (isr_step r) then isr_current_aggregate r else None),
          isr_step := s,
          isr_first := Some p,
          isr_current_aggregate := Some p\<rparr>
      else r)"

definition isr_record ::
  "'v IntervalSummaryRegister \<Rightarrow> Step \<Rightarrow> 'v Proposal \<Rightarrow> 'v RecordSummary \<times> 'v IntervalSummaryRegister" where
  "isr_record r s p = (let r' = isr_advance r s p in (isr_summary r', r'))"

lemma isr_restore_snapshot [simp]: "isr_restore (isr_snapshot r) = r"
  by (simp add: isr_restore_def isr_snapshot_def)

lemma isr_step_mono: "isr_step r \<le> isr_step (isr_advance r s p)"
  by (auto simp: isr_advance_def)

lemma isr_step_ge: "s \<le> isr_step (isr_advance r s p)"
  by (auto simp: isr_advance_def)

section \<open>Histories\<close>

type_synonym 'v call = "Step \<times> 'v Proposal"

text \<open>The register after a history of calls, oldest first.\<close>

definition isr_run :: "'v call list \<Rightarrow> 'v IntervalSummaryRegister" where
  "isr_run h = foldl (\<lambda>r (s, p). isr_advance r s p) isr_default h"

text \<open>The greatest step of a history, and the calls that were not behind it when they came.\<close>

definition hist_step :: "'v call list \<Rightarrow> Step" where
  "hist_step h = foldl (\<lambda>m (s, _). max m s) STEP_INITIAL h"

definition hist_accepts :: "'v call list \<Rightarrow> Step \<Rightarrow> bool" where
  "hist_accepts h s = (hist_step h \<le> s)"

primrec hist_accepted_rev :: "'v call list \<Rightarrow> 'v call list" where
  "hist_accepted_rev [] = []"
| "hist_accepted_rev (c # h) =
     (if hist_accepts (rev h) (fst c) then c # hist_accepted_rev h else hist_accepted_rev h)"

definition hist_accepted :: "'v call list \<Rightarrow> 'v call list" where
  "hist_accepted h = rev (hist_accepted_rev (rev h))"

text \<open>The proposals accepted at one step, oldest first.\<close>

definition hist_at :: "'v call list \<Rightarrow> nat \<Rightarrow> 'v Proposal list" where
  "hist_at h n = map snd (filter (\<lambda>c. unat (fst c) = n) (hist_accepted h))"

lemma hist_step_snoc [simp]: "hist_step (h @ [(s, p)]) = max (hist_step h) s"
  by (simp add: hist_step_def)

lemma hist_step_Nil [simp]: "hist_step [] = 0"
  by (simp add: hist_step_def STEP_INITIAL_def)

lemma hist_accepted_Nil [simp]: "hist_accepted [] = []"
  by (simp add: hist_accepted_def)

lemma hist_accepted_snoc [simp]:
  "hist_accepted (h @ [(s, p)]) = (if hist_step h \<le> s then hist_accepted h @ [(s, p)] else hist_accepted h)"
  by (simp add: hist_accepted_def hist_accepts_def)

lemma hist_at_Nil [simp]: "hist_at [] n = []"
  by (simp add: hist_at_def)

lemma hist_at_snoc [simp]:
  "hist_at (h @ [(s, p)]) n = hist_at h n @ (if hist_step h \<le> s \<and> unat s = n then [p] else [])"
  by (simp add: hist_at_def)

lemma hist_step_append: "hist_step h \<le> hist_step (h @ h')"
  by (induction h' rule: rev_induct) (auto simp flip: append_assoc intro: le_max_iff_disj [THEN iffD2])

text \<open>Steps ahead of the register have accepted nothing.\<close>

lemma hist_at_ahead: "unat (hist_step h) < n \<Longrightarrow> hist_at h n = []"
proof (induction h rule: rev_induct)
  case (snoc c h)
  then show ?case
    by (cases c) (auto simp: max_def word_le_nat_alt split: if_splits)
qed simp

text \<open>Once the register has moved past a step, that step's acceptances are final.\<close>

lemma hist_at_frozen:
  "n < unat (hist_step h) \<Longrightarrow> hist_at (h @ h') n = hist_at h n"
proof (induction h' rule: rev_induct)
  case (snoc c h')
  obtain s p where c: "c = (s, p)" by (cases c)
  have "n < unat (hist_step (h @ h'))"
    using snoc.prems hist_step_append [of h h'] by (simp add: word_le_nat_alt)
  then show ?case
    using snoc.IH [OF snoc.prems]
    by (auto simp: c word_le_nat_alt simp flip: append_assoc)
qed simp

lemma hist_at_append_prefix: "\<exists>ps. hist_at (h @ h') n = hist_at h n @ ps"
proof (induction h' rule: rev_induct)
  case (snoc c h')
  obtain s p where c: "c = (s, p)" by (cases c)
  from snoc obtain ps where ps: "hist_at (h @ h') n = hist_at h n @ ps" by blast
  have "hist_at (h @ h' @ [c]) n = hist_at ((h @ h') @ [(s, p)]) n" by (simp add: c)
  also have "\<dots> = hist_at h n @ ps @ (if hist_step (h @ h') \<le> s \<and> unat s = n then [p] else [])"
    unfolding hist_at_snoc ps by simp
  finally show ?case by blast
qed simp

lemma hist_at_mono: "p \<in> set (hist_at h n) \<Longrightarrow> p \<in> set (hist_at (h @ h') n)"
  using hist_at_append_prefix [of h h' n] by auto

lemma hist_first_stable: "hist_at h n \<noteq> [] \<Longrightarrow> hd (hist_at (h @ h') n) = hd (hist_at h n)"
  using hist_at_append_prefix [of h h' n] by auto

lemma hist_at_calls: "p \<in> set (hist_at h n) \<Longrightarrow> \<exists>s. (s, p) \<in> set h \<and> unat s = n"
proof (induction h rule: rev_induct)
  case (snoc c h)
  then show ?case by (cases c) (auto split: if_splits)
qed simp

section \<open>The register is a function of its history\<close>

lemma isr_run_snoc [simp]: "isr_run (h @ [(s, p)]) = isr_advance (isr_run h) s p"
  by (simp add: isr_run_def)

lemma isr_run_Nil [simp]: "isr_run [] = isr_default"
  by (simp add: isr_run_def)

lemma max_proposal_snoc:
  "max_proposal_by_key (ps @ [p]) = Some (best_proposal (max_proposal_by_key ps) p)"
  by (simp add: max_proposal_by_key_def)

text \<open>The abstraction: what the four fields hold after a history.\<close>

definition isr_spec :: "'v call list \<Rightarrow> 'v IntervalSummaryRegister" where
  "isr_spec h =
     (let n = unat (hist_step h) in
      \<lparr>isr_step = hist_step h,
       isr_first = (case hist_at h n of [] \<Rightarrow> None | p # _ \<Rightarrow> Some p),
       isr_current_aggregate = max_proposal_by_key (hist_at h n),
       isr_prior_aggregate = (if n = 0 then None else max_proposal_by_key (hist_at h (n - 1)))\<rparr>)"

lemma isr_spec_advance: "isr_spec (h @ [(s, p)]) = isr_advance (isr_spec h) s p"
proof -
  consider (eq) "s = hist_step h" | (gt) "hist_step h < s" | (lt) "s < hist_step h" by fastforce
  then show ?thesis
  proof cases
    case eq
    then show ?thesis
      by (auto simp: isr_spec_def isr_advance_def Let_def max_proposal_snoc split: list.splits)
  next
    case gt
    then have l: "unat (hist_step h) < unat s" by (simp add: word_less_nat_alt)
    then have nil: "hist_at h (unat s) = []" by (rule hist_at_ahead)
    have prior: "hist_at h (unat s - 1) = (if is_next_after s (hist_step h) then hist_at h (unat (hist_step h)) else [])"
      using l hist_at_ahead [of h "unat s - 1"] by (auto simp: is_next_after_iff)
    show ?thesis
      using gt l nil prior
      by (auto simp: isr_spec_def isr_advance_def Let_def max_def max_proposal_snoc
          max_proposal_snoc [of "[]", simplified] max_proposal_by_key_def [of "[]"])
  next
    case lt
    then have "\<not> hist_step h \<le> s" "\<not> hist_step h < s" "s \<noteq> hist_step h" by auto
    then show ?thesis
      by (simp add: isr_spec_def isr_advance_def Let_def max_def)
  qed
qed

lemma isr_run_spec: "isr_run h = isr_spec h"
proof (induction h rule: rev_induct)
  case Nil
  then show ?case
    by (simp add: isr_spec_def isr_default_def Let_def max_proposal_by_key_def STEP_INITIAL_def)
next
  case (snoc c h)
  then show ?case by (cases c) (simp add: isr_spec_advance)
qed

section \<open>Replies and later histories\<close>

text \<open>
  What the reply to the last call of \<open>h @ [(s, p)]\<close> says about any later history \<open>h @ (s, p) # h'\<close>:
  its step, the first proposal of that step, and the best proposal of the step before (none if
  that step accepted nothing), all of which no later call changes.
\<close>

lemma isr_reply_stable:
  assumes "isr_summary (isr_run (h @ [(s, p)])) = m" and "0 < s" and "H = h @ (s, p) # h'"
  defines "n \<equiv> unat (sum_step m)"
  shows "sum_step m \<le> hist_step H" and "s \<le> sum_step m" and "0 < n"
    and "sum_step m = s \<Longrightarrow> sum_first m \<noteq> None"
    and "sum_first m = Some f \<Longrightarrow> hist_at H n \<noteq> [] \<and> f = hd (hist_at H n)"
    and "sum_prior_aggregate m = max_proposal_by_key (hist_at H (n - 1))"
    and "sum_step m = s \<Longrightarrow> p \<in> set (hist_at H n)"
proof -
  let ?h = "h @ [(s, p)]"
  have H: "H = ?h @ h'" using assms by simp
  have m: "sum_step m = hist_step ?h"
    "sum_first m = (case hist_at ?h n of [] \<Rightarrow> None | p # _ \<Rightarrow> Some p)"
    "n \<noteq> 0 \<Longrightarrow> sum_prior_aggregate m = max_proposal_by_key (hist_at ?h (n - 1))"
    using assms(1) by (auto simp: isr_run_spec isr_spec_def isr_summary_def Let_def n_def)
  show "sum_step m \<le> hist_step H" unfolding m(1) H by (rule hist_step_append)
  show s: "s \<le> sum_step m" by (simp add: m(1))
  with assms(2) show n: "0 < n" unfolding n_def
    by (metis less_le_trans unat_gt_0 word_gt_0)
  show f: "sum_first m = Some f \<Longrightarrow> hist_at H n \<noteq> [] \<and> f = hd (hist_at H n)" for f
    using hist_at_append_prefix [of ?h h' n] unfolding m(2) H
    by (cases "hist_at ?h n") (auto simp del: hist_at_snoc)

  have at: "sum_step m = s \<Longrightarrow> p \<in> set (hist_at ?h n)"
    using m(1) by (auto simp: n_def max_def split: if_splits)
  then show "sum_step m = s \<Longrightarrow> sum_first m \<noteq> None"
    unfolding m(2) by (cases "hist_at ?h n") auto
  have "hist_at H (n - 1) = hist_at ?h (n - 1)"
    unfolding H using n by (intro hist_at_frozen) (simp add: n_def m(1))
  with m(3) n show "sum_prior_aggregate m = max_proposal_by_key (hist_at H (n - 1))" by simp
  show "sum_step m = s \<Longrightarrow> p \<in> set (hist_at H n)"
    unfolding H by (rule hist_at_mono) (rule at)
qed

section \<open>Guarantees\<close>

text \<open>
  C8: Refinement. After any history of record calls the register holds exactly what the history
  defines: the greatest step seen, the first proposal accepted at that step, and the best proposals
  accepted at that step and at the step before it. Snapshot and restore keep it.
\<close>

theorem isr_refines_history:
  "isr_run h = isr_spec h \<and> isr_restore (isr_snapshot (isr_run h)) = isr_run h"
  by (simp add: isr_run_spec)

text \<open>
  C9: A reply never becomes false. The reply to a record call names a step not behind the call;
  in every extension of the history its first proposal is still the first of that step, and its
  prior aggregate is still the best proposal accepted at the step before.
\<close>

theorem isr_reply_final:
  assumes "fst (isr_record (isr_run h) s p) = m" and "0 < s" and "H = h @ (s, p) # later"
  shows "s \<le> sum_step m \<and> sum_step m \<le> hist_step H
    \<and> (\<forall>f. sum_first m = Some f \<longrightarrow> hist_at H (unat (sum_step m)) \<noteq> [] \<and> f = hd (hist_at H (unat (sum_step m))))
    \<and> sum_prior_aggregate m = max_proposal_by_key (hist_at H (unat (sum_step m) - 1))"
proof -
  have "isr_summary (isr_run (h @ [(s, p)])) = m" using assms(1) by (simp add: isr_record_def Let_def)
  from isr_reply_stable [OF this assms(2,3)] show ?thesis by blast
qed

theorem isr_reply_final_witness:
  "\<exists>m :: nat RecordSummary. fst (isr_record (isr_run []) 4 \<lparr>prop_key = ProposalKey 9 1 0, prop_value_ids = [5]\<rparr>) = m
     \<and> sum_first m = Some \<lparr>prop_key = ProposalKey 9 1 0, prop_value_ids = [5]\<rparr>
     \<and> 4 \<le> sum_step m"
proof -
  let ?p = "\<lparr>prop_key = ProposalKey 9 1 0, prop_value_ids = [5 :: nat]\<rparr>"
  define m where "m = fst (isr_record (isr_run []) 4 ?p)"
  have "sum_first m = Some ?p"
    by (simp add: m_def isr_record_def Let_def isr_advance_def isr_default_def isr_summary_def STEP_INITIAL_def)
  moreover have "4 \<le> sum_step m"
    using isr_reply_final [of "[]" 4 ?p m "[(4, ?p)]" "[]"] m_def by simp
  ultimately show ?thesis using m_def by blast
qed

end
