(* ===== verification/QP_Store.thy ===== *)
theory QP_Store
  imports QP_Error
begin

text \<open>
  The storage layer: \<open>src/store.rs\<close> (value stores and the fetching availability guard), the crash
  points of \<open>src/crash.rs\<close>, and the write-to-temporary, sync, rename, sync-directory procedure that
  \<open>src/recorder.rs\<close>, \<open>src/runtime.rs\<close>, \<open>src/network/batch.rs\<close> and \<open>src/network/dedupe.rs\<close> share.
  The file system is explicit: what a path shows now, and what it may show after a crash.
\<close>

section \<open>Value stores\<close>

locale value_store =
  fixes contains :: "'s \<Rightarrow> 'v::linorder \<Rightarrow> bool"
    and get :: "'s \<Rightarrow> 'v \<Rightarrow> 'b option"
    and put :: "'s \<Rightarrow> 'v \<Rightarrow> 'b \<Rightarrow> 's"
  assumes contains_get: "contains s v \<longleftrightarrow> get s v \<noteq> None"
    and get_put: "get (put s v b) w = (if w = v \<and> get s v = None then Some b else get s w)"
begin

definition put_all :: "'s \<Rightarrow> ('v \<times> 'b) list \<Rightarrow> 's" where
  "put_all s vs = foldl (\<lambda>s (v, b). put s v b) s vs"

lemma put_keeps: "get s v = Some b \<Longrightarrow> get (put s w x) v = Some b"
  by (auto simp: get_put)

lemma put_all_Cons: "put_all s ((v, b) # vs) = put_all (put s v b) vs"
  by (simp add: put_all_def)

lemma put_all_keeps: "get s v = Some b \<Longrightarrow> get (put_all s vs) v = Some b"
proof (induction vs arbitrary: s)
  case (Cons c vs)
  obtain w x where "c = (w, x)" by (cases c)
  with Cons show ?case by (simp add: put_all_Cons put_keeps)
qed (simp add: put_all_def)

end

record ('v, 'b) InMemoryValueStore =
  ivs_values :: "('v, 'b) btree"

definition ivs_new :: "('v, 'b) InMemoryValueStore" where
  "ivs_new = \<lparr>ivs_values = []\<rparr>"

definition ivs_len :: "('v, 'b) InMemoryValueStore \<Rightarrow> usize" where
  "ivs_len s = length (ivs_values s)"

definition ivs_is_empty :: "('v, 'b) InMemoryValueStore \<Rightarrow> bool" where
  "ivs_is_empty s = (ivs_values s = [])"

definition ivs_contains :: "('v, 'b) InMemoryValueStore \<Rightarrow> 'v \<Rightarrow> bool" where
  "ivs_contains s v = bt_contains (ivs_values s) v"

definition ivs_get :: "('v, 'b) InMemoryValueStore \<Rightarrow> 'v \<Rightarrow> 'b option" where
  "ivs_get s v = bt_get (ivs_values s) v"

definition ivs_insert ::
  "('v::linorder, 'b) InMemoryValueStore \<Rightarrow> 'v \<Rightarrow> 'b \<Rightarrow> ('v, 'b) InMemoryValueStore" where
  "ivs_insert s v b = s\<lparr>ivs_values := bt_or_insert v b (ivs_values s)\<rparr>"

interpretation ivs: value_store ivs_contains ivs_get ivs_insert
proof
  fix s :: "('a::linorder, 'b) InMemoryValueStore" and v w b
  show "ivs_contains s v \<longleftrightarrow> ivs_get s v \<noteq> None"
    by (simp add: ivs_contains_def ivs_get_def map_of_eq_None_iff)
  show "ivs_get (ivs_insert s v b) w = (if w = v \<and> ivs_get s v = None then Some b else ivs_get s w)"
    by (auto simp: ivs_get_def ivs_insert_def split: option.splits)
qed

section \<open>Availability guards\<close>

definition allow_all_available :: "'v list \<Rightarrow> unit result" where
  "allow_all_available value_ids = Inr ()"

text \<open>
  The guard holds two locks; a lock is poisoned when a thread panicked while holding it. The
  store is released while the fetcher runs, so other threads may insert \<open>others\<close> meanwhile.
\<close>

record ('s, 'f) FetchingAvailability =
  fa_store :: 's
  fa_store_poisoned :: bool
  fa_fetcher :: 'f
  fa_fetcher_poisoned :: bool

definition fa_new :: "'s \<Rightarrow> 'f \<Rightarrow> ('s, 'f) FetchingAvailability" where
  "fa_new s f = \<lparr>fa_store = s, fa_store_poisoned = False, fa_fetcher = f, fa_fetcher_poisoned = False\<rparr>"

fun fa_accept ::
  "('s \<Rightarrow> 'v \<Rightarrow> 'b \<Rightarrow> 's) \<Rightarrow> 'v set \<Rightarrow> 'v set \<Rightarrow> 's \<Rightarrow> ('v \<times> 'b) list \<Rightarrow> unit result \<times> 's" where
  "fa_accept put requested returned s [] = (Inr (), s)"
| "fa_accept put requested returned s ((v, b) # fetched) =
     (if v \<notin> requested \<or> v \<in> returned then
        (Inl (InvalidProposal ''value fetcher returned an unexpected or duplicate value ID''), s)
      else fa_accept put requested (insert v returned) (put s v b) fetched)"

definition fa_missing :: "('s \<Rightarrow> 'v::linorder \<Rightarrow> bool) \<Rightarrow> 's \<Rightarrow> 'v list \<Rightarrow> 'v list" where
  "fa_missing contains s value_ids = sorted_list_of_set (set (filter (\<lambda>v. \<not> contains s v) value_ids))"

definition fa_ensure_available ::
  "('s \<Rightarrow> 'v::linorder \<Rightarrow> bool) \<Rightarrow> ('s \<Rightarrow> 'v \<Rightarrow> 'b \<Rightarrow> 's) \<Rightarrow>
   ('f \<Rightarrow> 'v list \<Rightarrow> ('v \<times> 'b) list result \<times> 'f) \<Rightarrow> ('v \<times> 'b) list \<Rightarrow>
   ('s, 'f) FetchingAvailability \<Rightarrow> 'v list \<Rightarrow> unit result \<times> ('s, 'f) FetchingAvailability" where
  "fa_ensure_available contains put fetch others fa value_ids =
     (if fa_store_poisoned fa then (Inl (TransportError ''value store lock was poisoned''), fa) else
      let missing = fa_missing contains (fa_store fa) value_ids in
      if missing = [] then (Inr (), fa) else
      if fa_fetcher_poisoned fa then (Inl (TransportError ''value fetcher lock was poisoned''), fa) else
      let (r, f') = fetch (fa_fetcher fa) missing;
          fa' = fa\<lparr>fa_fetcher := f', fa_store := foldl (\<lambda>s (v, b). put s v b) (fa_store fa) others\<rparr>
      in case r of
           Inl e \<Rightarrow> (Inl e, fa')
         | Inr fetched \<Rightarrow>
             let (a, s) = fa_accept put (set missing) {} (fa_store fa') fetched;
                 fa'' = fa'\<lparr>fa_store := s\<rparr>
             in case a of
                  Inl e \<Rightarrow> (Inl e, fa'')
                | Inr _ \<Rightarrow>
                    if list_all (contains s) missing then (Inr (), fa'') else (Inl MissingValue, fa''))"

context value_store
begin

lemma fa_accept_get:
  "fa_accept put req ret s fetched = (r, s') \<Longrightarrow> get s v = Some b \<Longrightarrow> get s' v = Some b"
proof (induction fetched arbitrary: ret s)
  case (Cons c fetched)
  obtain w x where "c = (w, x)" by (cases c)
  with Cons show ?case by (auto simp: put_keeps split: if_splits)
qed simp

lemma fa_accept_source:
  "fa_accept put req ret s fetched = (r, s') \<Longrightarrow> get s' v = Some b \<Longrightarrow>
   get s v = Some b \<or> v \<in> req \<and> (v, b) \<in> set fetched"
proof (induction fetched arbitrary: ret s)
  case (Cons c fetched)
  obtain w x where c: "c = (w, x)" by (cases c)
  show ?case
  proof (cases "w \<notin> req \<or> w \<in> ret")
    case True
    with Cons.prems show ?thesis by (simp add: c)
  next
    case False
    then have "fa_accept put req (insert w ret) (put s w x) fetched = (r, s')"
      using Cons.prems(1) by (simp add: c)
    from Cons.IH [OF this Cons.prems(2)] False show ?thesis
      by (auto simp: c get_put split: if_splits)
  qed
qed simp

text \<open>On success every requested value is stored; a stored payload is never replaced.\<close>

lemma ensure_available_ok:
  assumes "fa_ensure_available contains put fetch others fa vs = (Inr (), fa')" and "v \<in> set vs"
  shows "contains (fa_store fa') v"
proof (cases "contains (fa_store fa) v")
  case True
  then obtain b where b: "get (fa_store fa) v = Some b" by (auto simp: contains_get)
  have "get (fa_store fa') v = Some b"
    using assms(1) put_all_keeps [OF b, of others] b
    by (auto simp: fa_ensure_available_def Let_def put_all_def split: if_splits prod.splits sum.splits
        dest: fa_accept_get)
  then show ?thesis by (simp add: contains_get)
next
  case False
  then have "v \<in> set (fa_missing contains (fa_store fa) vs)"
    using assms(2) by (simp add: fa_missing_def)
  then show ?thesis
    using assms(1)
    by (auto simp: fa_ensure_available_def Let_def list_all_iff split: if_splits prod.splits sum.splits)
qed

lemma ensure_available_keeps:
  assumes "fa_ensure_available contains put fetch others fa vs = (r, fa')"
    and b: "get (fa_store fa) v = Some b"
  shows "get (fa_store fa') v = Some b"
  using assms(1) put_all_keeps [OF b, of others] b
  by (auto simp: fa_ensure_available_def Let_def put_all_def split: if_splits prod.splits sum.splits
      dest: fa_accept_get)

end
section \<open>Crash points\<close>

datatype CrashPoint =
    RecorderTemporaryOpened | RecorderTemporaryWritten | RecorderTemporarySynced
  | RecorderRenamed | RecorderDirectorySynced
  | RuntimeTemporaryOpened | RuntimeTemporaryWritten | RuntimeTemporarySynced
  | RuntimeRenamed | RuntimeDirectorySynced
  | BatchTemporaryOpened | BatchTemporaryWritten | BatchTemporarySynced
  | BatchRenamed | BatchDirectorySynced
  | SubmissionJournalTemporaryOpened | SubmissionJournalTemporaryWritten
  | SubmissionJournalTemporarySynced | SubmissionJournalRenamed | SubmissionJournalDirectorySynced
  | ExactlyOnceTemporaryOpened | ExactlyOnceTemporaryWritten | ExactlyOnceTemporarySynced
  | ExactlyOnceRenamed | ExactlyOnceDirectorySynced

type_synonym crash_injector = "CrashPoint \<Rightarrow> unit result"

definition noop_injector :: crash_injector where
  "noop_injector point = Inr ()"

section \<open>The file system\<close>

text \<open>
  A path is a directory and a file name. A file knows whether its bytes reached the disk. Besides
  the files themselves the state keeps, per path, what the directory entry may be after a crash:
  a rename adds an alternative until the directory is synced, and an entry whose file was not
  synced may hold anything.
\<close>

record path =
  p_dir :: string
  p_name :: string

record disk_file =
  f_bytes :: "8 word list"
  f_synced :: bool

record file_system =
  fs_files :: "path \<Rightarrow> disk_file option"
  fs_crash :: "path \<Rightarrow> disk_file option list"

definition path_display :: "path \<Rightarrow> string" where
  "path_display p = (if p_dir p = [] then p_name p else p_dir p @ ''/'' @ p_name p)"

definition parent_display :: "path \<Rightarrow> string" where
  "parent_display p = (if p_dir p = [] then ''.'' else p_dir p)"

text \<open>The stem is what precedes the last dot, unless that dot opens the name.\<close>

definition file_stem :: "string \<Rightarrow> string" where
  "file_stem name =
     (case dropWhile (\<lambda>c. c \<noteq> CHR ''.'') (rev name) of
        [] \<Rightarrow> name
      | _ # before \<Rightarrow> if before = [] then name else rev before)"

definition with_extension :: "path \<Rightarrow> string \<Rightarrow> path" where
  "with_extension p ext = p\<lparr>p_name := file_stem (p_name p) @ ''.'' @ ext\<rparr>"

text \<open>Each operation succeeds, or fails with the text of the OS error; a failed write leaves a prefix.\<close>

datatype io_op = OpenTemporary | WriteTemporary | SyncTemporary | RenameTemporary | SyncParent | ReadPath

record io_faults =
  io_error :: "io_op \<Rightarrow> string option"
  io_written :: nat

definition fs_set :: "path \<Rightarrow> disk_file option \<Rightarrow> disk_file option list \<Rightarrow> file_system \<Rightarrow> file_system" where
  "fs_set p f alternatives fs = fs\<lparr>fs_files := (fs_files fs)(p := f), fs_crash := (fs_crash fs)(p := alternatives)\<rparr>"

definition fs_open :: "path \<Rightarrow> file_system \<Rightarrow> file_system" where
  "fs_open p fs = (let f = \<lparr>f_bytes = [], f_synced = False\<rparr> in fs_set p (Some f) [Some f] fs)"

definition fs_write :: "path \<Rightarrow> 8 word list \<Rightarrow> file_system \<Rightarrow> file_system" where
  "fs_write p bs fs = (let f = \<lparr>f_bytes = bs, f_synced = False\<rparr> in fs_set p (Some f) [Some f] fs)"

definition fs_sync :: "path \<Rightarrow> file_system \<Rightarrow> file_system" where
  "fs_sync p fs =
     (case fs_files fs p of
        None \<Rightarrow> fs
      | Some f \<Rightarrow> let g = f\<lparr>f_synced := True\<rparr> in fs_set p (Some g) [Some g] fs)"

definition fs_rename :: "path \<Rightarrow> path \<Rightarrow> file_system \<Rightarrow> file_system" where
  "fs_rename t p fs =
     (let f = fs_files fs t; entries = f # fs_crash fs p in fs_set p f entries (fs_set t None (None # fs_crash fs t) fs))"

definition fs_sync_parent :: "path \<Rightarrow> file_system \<Rightarrow> file_system" where
  "fs_sync_parent p fs = fs\<lparr>fs_crash := (fs_crash fs)(p := [fs_files fs p])\<rparr>"

definition fs_read :: "path \<Rightarrow> file_system \<Rightarrow> 8 word list option" where
  "fs_read p fs = map_option f_bytes (fs_files fs p)"

text \<open>Whether a path may read as \<open>b\<close> after a crash.\<close>

definition crash_reads :: "path \<Rightarrow> file_system \<Rightarrow> 8 word list option \<Rightarrow> bool" where
  "crash_reads p fs b =
     list_ex (\<lambda>e. case e of None \<Rightarrow> b = None | Some f \<Rightarrow> \<not> f_synced f \<or> b = Some (f_bytes f)) (fs_crash fs p)"

section \<open>Atomic snapshot files\<close>

text \<open>
  The body of the four \<open>save\<close> functions after encoding. They differ in the temporary extension, the
  words naming the file in an error, and the five crash points.
\<close>

record snapshot_target =
  st_path :: path
  st_extension :: string
  st_label :: string
  st_points :: "CrashPoint list"

definition storage_error :: "string \<Rightarrow> string \<Rightarrow> string \<Rightarrow> string \<Rightarrow> QuePaxaError" where
  "storage_error verb label shown error =
     StorageError (''could not '' @ verb @ '' '' @ label @ '' '' @ shown @ '': '' @ error)"

definition io_step ::
  "io_faults \<Rightarrow> io_op \<Rightarrow> (string \<Rightarrow> QuePaxaError) \<Rightarrow> file_system \<Rightarrow> file_system \<Rightarrow> unit result \<times> file_system" where
  "io_step io op err failed fs = (case io_error io op of Some e \<Rightarrow> (Inl (err e), failed) | None \<Rightarrow> (Inr (), fs))"

definition save_bytes ::
  "io_faults \<Rightarrow> crash_injector \<Rightarrow> snapshot_target \<Rightarrow> 8 word list \<Rightarrow> file_system \<Rightarrow> unit result \<times> file_system" where
  "save_bytes io inject st bytes fs =
     (let p = st_path st; t = with_extension p (st_extension st); label = st_label st; at = st_points st in
      sbind (io_step io OpenTemporary (storage_error ''open'' label (path_display t)) fs (fs_open t fs)) (\<lambda>_ fs.
      sbind (inject (at ! 0), fs) (\<lambda>_ fs.
      sbind (io_step io WriteTemporary (storage_error ''write'' label (path_display t))
               (fs_write t (take (io_written io) bytes) fs) (fs_write t bytes fs)) (\<lambda>_ fs.
      sbind (inject (at ! 1), fs) (\<lambda>_ fs.
      sbind (io_step io SyncTemporary (storage_error ''sync'' label (path_display t)) fs (fs_sync t fs)) (\<lambda>_ fs.
      sbind (inject (at ! 2), fs) (\<lambda>_ fs.
      sbind (io_step io RenameTemporary (storage_error ''replace'' label (path_display p)) fs (fs_rename t p fs)) (\<lambda>_ fs.
      sbind (inject (at ! 3), fs) (\<lambda>_ fs.
      sbind (io_step io SyncParent (storage_error ''sync'' (label @ '' directory'') (parent_display p)) fs
               (fs_sync_parent p fs)) (\<lambda>_ fs.
      (inject (at ! 4), fs)))))))))))"

definition load_bytes ::
  "io_faults \<Rightarrow> snapshot_target \<Rightarrow> file_system \<Rightarrow> 8 word list option result" where
  "load_bytes io st fs =
     (case io_error io ReadPath of
        Some e \<Rightarrow> Inl (storage_error ''read'' (st_label st) (path_display (st_path st)) e)
      | None \<Rightarrow> Inr (fs_read (st_path st) fs))"

text \<open>The same with a codec of the application in front.\<close>

definition encoded_load ::
  "io_faults \<Rightarrow> (8 word list \<Rightarrow> 'a result) \<Rightarrow> snapshot_target \<Rightarrow> file_system \<Rightarrow> 'a option result" where
  "encoded_load io decode st fs =
     rbind (load_bytes io st fs) (\<lambda>b. case b of None \<Rightarrow> Inr None | Some bytes \<Rightarrow> rbind (decode bytes) (\<lambda>x. Inr (Some x)))"

definition encoded_save ::
  "io_faults \<Rightarrow> crash_injector \<Rightarrow> ('a \<Rightarrow> 8 word list result) \<Rightarrow> snapshot_target \<Rightarrow> file_system \<Rightarrow> 'a \<Rightarrow> unit result \<times> file_system" where
  "encoded_save io inject encode st fs x =
     (case encode x of Inl e \<Rightarrow> (Inl e, fs) | Inr bytes \<Rightarrow> save_bytes io inject st bytes fs)"

lemma file_stem_prefix:
  "name = file_stem name \<or> (\<exists>e. name = file_stem name @ CHR ''.'' # e \<and> CHR ''.'' \<notin> set e)"
proof (cases "dropWhile (\<lambda>c. c \<noteq> CHR ''.'') (rev name)")
  case (Cons c before)
  let ?t = "takeWhile (\<lambda>c. c \<noteq> CHR ''.'') (rev name)"
  have "c = CHR ''.''" using hd_dropWhile [of "\<lambda>c. c \<noteq> CHR ''.''" "rev name"] Cons by simp
  then have "rev name = ?t @ CHR ''.'' # before"
    using takeWhile_dropWhile_id [of "\<lambda>c. c \<noteq> CHR ''.''" "rev name"] Cons by simp
  then have "rev (rev name) = rev before @ CHR ''.'' # rev ?t" by (metis append.assoc append_Cons append_Nil rev.simps(2) rev_append)
  moreover have "CHR ''.'' \<notin> set (rev ?t)" by (auto dest: set_takeWhileD)
  ultimately show ?thesis using Cons by (auto simp: file_stem_def)
next
  case Nil
  then have "file_stem name = name" unfolding file_stem_def by (simp only: list.case)
  then show ?thesis by simp
qed

text \<open>A temporary extension that itself contains a dot never names the file it replaces.\<close>

lemma with_extension_neq:
  assumes "CHR ''.'' \<in> set ext"
  shows "with_extension p ext \<noteq> p"
proof
  assume "with_extension p ext = p"
  then have n: "p_name p = file_stem (p_name p) @ CHR ''.'' # ext"
    by (cases p) (simp add: with_extension_def)
  from file_stem_prefix [of "p_name p"] show False
  proof
    assume "p_name p = file_stem (p_name p)"
    with n have "length (p_name p) = length (p_name p) + Suc (length ext)"
      by (metis length_append length_Cons)
    then show False by simp
  next
    assume "\<exists>e. p_name p = file_stem (p_name p) @ CHR ''.'' # e \<and> CHR ''.'' \<notin> set e"
    then obtain e where e: "p_name p = file_stem (p_name p) @ CHR ''.'' # e" "CHR ''.'' \<notin> set e" by blast
    have "file_stem (p_name p) @ CHR ''.'' # e = file_stem (p_name p) @ CHR ''.'' # ext"
      by (rule trans [OF e(1) [symmetric] n])
    then have "e = ext" by simp
    with e(2) assms show False by simp
  qed
qed

text \<open>Operations on the temporary leave every other path alone.\<close>

lemma fs_other [simp]:
  assumes "q \<noteq> t"
  shows "fs_files (fs_open t fs) q = fs_files fs q" "fs_crash (fs_open t fs) q = fs_crash fs q"
    "fs_files (fs_write t bs fs) q = fs_files fs q" "fs_crash (fs_write t bs fs) q = fs_crash fs q"
    "fs_files (fs_sync t fs) q = fs_files fs q" "fs_crash (fs_sync t fs) q = fs_crash fs q"
  using assms by (auto simp: fs_open_def fs_write_def fs_sync_def fs_set_def Let_def split: option.splits)

lemma fs_written_synced [simp]:
  "fs_files (fs_sync t (fs_write t bs fs)) t = Some \<lparr>f_bytes = bs, f_synced = True\<rparr>"
  by (simp add: fs_write_def fs_sync_def fs_set_def Let_def)

lemma fs_renamed [simp]:
  "t \<noteq> p \<Longrightarrow> fs_files (fs_rename t p fs) p = fs_files fs t"
  "t \<noteq> p \<Longrightarrow> fs_crash (fs_rename t p fs) p = fs_files fs t # fs_crash fs p"
  by (simp_all add: fs_rename_def fs_set_def Let_def)

lemma fs_parent_synced [simp]:
  "fs_files (fs_sync_parent p fs) = fs_files fs" "fs_crash (fs_sync_parent p fs) p = [fs_files fs p]"
  by (simp_all add: fs_sync_parent_def)

text \<open>
  The three ways a save can leave its path: untouched, renamed but possibly undone by a crash, or
  durable. Only the last is reported as success.
\<close>

lemma save_bytes_outcomes:
  assumes "save_bytes io inject st bytes fs = (r, fs')" and "CHR ''.'' \<in> set (st_extension st)"
  defines "p \<equiv> st_path st" and "f \<equiv> \<lparr>f_bytes = bytes, f_synced = True\<rparr>"
  shows "fs_files fs' p = fs_files fs p \<and> fs_crash fs' p = fs_crash fs p \<and> \<not> is_ok r \<or>
         fs_files fs' p = Some f \<and> fs_crash fs' p = Some f # fs_crash fs p \<and> \<not> is_ok r \<or>
         fs_files fs' p = Some f \<and> fs_crash fs' p = [Some f]"
proof -
  have n: "with_extension p (st_extension st) \<noteq> p" using with_extension_neq [OF assms(2)] .
  show ?thesis
    using assms(1) n n [symmetric] unfolding save_bytes_def Let_def p_def [symmetric] io_step_def
    by (elim sbindE) (auto simp: f_def split: option.splits)
qed

lemma crash_reads_iff:
  "crash_reads p fs b \<longleftrightarrow> (\<exists>e \<in> set (fs_crash fs p). (case e of None \<Rightarrow> b = None | Some f \<Rightarrow> \<not> f_synced f \<or> b = Some (f_bytes f)))"
  by (simp add: crash_reads_def list_ex_iff)

lemma encoded_save_atomic:
  assumes "encoded_save io inject encode st fs x = (r, fs')" and "CHR ''.'' \<in> set (st_extension st)" and "st_path st = p"
  shows "crash_reads p fs' b \<Longrightarrow> crash_reads p fs b \<or> (\<exists>bytes. encode x = Inr bytes \<and> b = Some bytes)"
    and "r = Inr () \<Longrightarrow> \<exists>bytes. encode x = Inr bytes \<and> fs_read p fs' = Some bytes \<and> (\<forall>b. crash_reads p fs' b \<longrightarrow> b = Some bytes)"
  using assms(1,3) save_bytes_outcomes [OF _ assms(2), of io inject _ fs r fs']
  by (fastforce simp: encoded_save_def crash_reads_iff fs_read_def split: sum.splits)+

section \<open>State stores\<close>

text \<open>
  The contract of \<open>RecorderStateStore\<close> and \<open>RuntimeStateStore\<close>: after a successful \<open>save\<close> the store
  holds the snapshot; after a failed one it holds the old or the new one.
\<close>

locale state_store =
  fixes load :: "'s \<Rightarrow> 'a option result \<times> 's"
    and save :: "'s \<Rightarrow> 'a \<Rightarrow> unit result \<times> 's"
    and holds :: "'s \<Rightarrow> 'a option"
  assumes load_holds: "load s = (Inr y, s') \<Longrightarrow> y = holds s"
    and load_keeps: "load s = (r, s') \<Longrightarrow> holds s' = holds s"
    and save_ok: "save s x = (Inr (), s') \<Longrightarrow> holds s' = Some x"
    and save_err: "save s x = (Inl e, s') \<Longrightarrow> holds s' = holds s \<or> holds s' = Some x"

record 'a InMemoryStore =
  ms_snapshot :: "'a option"

definition ms_default :: "'a InMemoryStore" where
  "ms_default = \<lparr>ms_snapshot = None\<rparr>"

definition ms_load :: "'a InMemoryStore \<Rightarrow> 'a option result \<times> 'a InMemoryStore" where
  "ms_load s = (Inr (ms_snapshot s), s)"

definition ms_save :: "'a InMemoryStore \<Rightarrow> 'a \<Rightarrow> unit result \<times> 'a InMemoryStore" where
  "ms_save s x = (Inr (), s\<lparr>ms_snapshot := Some x\<rparr>)"

interpretation ms: state_store ms_load ms_save ms_snapshot
  by unfold_locales (auto simp: ms_load_def ms_save_def)

text \<open>A store behind \<open>Arc<Mutex<_>>\<close>: both operations fail while the lock is poisoned.\<close>

record 's locked_store =
  lk_store :: 's
  lk_poisoned :: bool

definition lk_load :: "('s \<Rightarrow> 'a option result \<times> 's) \<Rightarrow> 's locked_store \<Rightarrow> 'a option result \<times> 's locked_store" where
  "lk_load load s =
     (if lk_poisoned s then (Inl (StorageError ''recorder state store lock was poisoned''), s)
      else let (r, i) = load (lk_store s) in (r, s\<lparr>lk_store := i\<rparr>))"

definition lk_save :: "('s \<Rightarrow> 'a \<Rightarrow> unit result \<times> 's) \<Rightarrow> 's locked_store \<Rightarrow> 'a \<Rightarrow> unit result \<times> 's locked_store" where
  "lk_save save s x =
     (if lk_poisoned s then (Inl (StorageError ''recorder state store lock was poisoned''), s)
      else let (r, i) = save (lk_store s) x in (r, s\<lparr>lk_store := i\<rparr>))"

context state_store
begin

lemma locked_store: "state_store (lk_load load) (lk_save save) (\<lambda>s. holds (lk_store s))"
  by unfold_locales
     (auto simp: lk_load_def lk_save_def Let_def split: if_splits prod.splits
       dest: load_holds load_keeps save_ok save_err)

end

interpretation lkms: state_store "lk_load ms_load" "lk_save ms_save" "\<lambda>s. ms_snapshot (lk_store s)"
  by (rule ms.locked_store)

section \<open>Guarantees\<close>

text \<open>
  C10: Snapshot files are replaced atomically. Whichever operation or crash point fails, the path
  reads as before or as the new bytes, and after a crash at any point it reads as something it could
  already have read or as the new bytes; a save that reports success leaves only the new bytes.
\<close>

theorem save_bytes_atomic:
  assumes "save_bytes io inject st bytes fs = (r, fs')" and "CHR ''.'' \<in> set (st_extension st)"
  shows "fs_read (st_path st) fs' \<in> {fs_read (st_path st) fs, Some bytes}
    \<and> (\<forall>b. crash_reads (st_path st) fs' b \<longrightarrow> crash_reads (st_path st) fs b \<or> b = Some bytes)
    \<and> (r = Inr () \<longrightarrow> fs_read (st_path st) fs' = Some bytes \<and> (\<forall>b. crash_reads (st_path st) fs' b \<longleftrightarrow> b = Some bytes))"
  using save_bytes_outcomes [OF assms] by (auto simp: fs_read_def crash_reads_iff)

definition demo_fs :: file_system where
  "demo_fs = \<lparr>fs_files = (\<lambda>_. None), fs_crash = (\<lambda>_. [None])\<rparr>"

definition demo_target :: snapshot_target where
  "demo_target = \<lparr>st_path = \<lparr>p_dir = ''data'', p_name = ''node.state''\<rparr>, st_extension = ''recorder.tmp'',
     st_label = ''recorder state'', st_points = [RecorderTemporaryOpened, RecorderTemporaryWritten,
       RecorderTemporarySynced, RecorderRenamed, RecorderDirectorySynced]\<rparr>"

definition demo_io :: "io_op \<Rightarrow> io_faults" where
  "demo_io broken = \<lparr>io_error = (\<lambda>op. if op = broken then Some ''disk full'' else None), io_written = 0\<rparr>"

theorem save_bytes_atomic_witness:
  "\<exists>fs'. save_bytes (demo_io SyncParent) noop_injector demo_target [1, 2] demo_fs =
      (Inl (StorageError ''could not sync recorder state directory data: disk full''), fs')
    \<and> (\<forall>b. crash_reads (st_path demo_target) fs' b \<longrightarrow> b = None \<or> b = Some [1, 2])"
proof -
  obtain r fs' where s: "save_bytes (demo_io SyncParent) noop_injector demo_target [1, 2] demo_fs = (r, fs')" by fastforce
  have r: "r = Inl (StorageError ''could not sync recorder state directory data: disk full'')"
    using s by (simp add: save_bytes_def io_step_def demo_io_def noop_injector_def demo_target_def Let_def storage_error_def parent_display_def)
  have "CHR ''.'' \<in> set (st_extension demo_target)" by (simp add: demo_target_def)
  from save_bytes_atomic [OF s this] have "\<forall>b. crash_reads (st_path demo_target) fs' b \<longrightarrow> b = None \<or> b = Some [1, 2]"
    by (auto simp: crash_reads_def demo_fs_def)
  with s r show ?thesis by blast
qed

text \<open>
  C11: The fetching guard only acknowledges data it has. When it answers that the value ids of a
  proposal are available, each of them is in the store; whatever it answers, no payload that was
  stored before is replaced, by it or by the other threads' inserts it lets in between.
\<close>

theorem fetching_availability_sound:
  assumes "fa_ensure_available ivs_contains ivs_insert fetch others fa value_ids = (r, fa')"
  shows "(r = Inr () \<longrightarrow> (\<forall>v \<in> set value_ids. ivs_contains (fa_store fa') v))
    \<and> (\<forall>v b. ivs_get (fa_store fa) v = Some b \<longrightarrow> ivs_get (fa_store fa') v = Some b)"
  using ivs.ensure_available_ok [of fetch others fa value_ids fa'] ivs.ensure_available_keeps [OF assms] assms by blast

theorem fetching_availability_sound_witness:
  "\<exists>fa'. fa_ensure_available ivs_contains ivs_insert (\<lambda>f vs. (Inr (map (\<lambda>v. (v, ''payload'')) vs), f)) []
       (fa_new (ivs_insert ivs_new (1::nat) ''old'') ()) [1, 2] = (Inr (), fa')
     \<and> ivs_contains (fa_store fa') 2 \<and> ivs_get (fa_store fa') 1 = Some ''old''"
proof -
  let ?fa = "fa_new (ivs_insert ivs_new (1::nat) ''old'') ()"
  obtain r fa' where s: "fa_ensure_available ivs_contains ivs_insert (\<lambda>f vs. (Inr (map (\<lambda>v. (v, ''payload'')) vs), f)) [] ?fa [1, 2] = (r, fa')"
    by fastforce
  have "r = Inr ()"
    using s by (auto simp: fa_ensure_available_def fa_missing_def fa_new_def ivs_new_def ivs_insert_def ivs_contains_def bt_or_insert_def Let_def)
  moreover have "ivs_get (fa_store ?fa) 1 = Some ''old''"
    by (simp add: fa_new_def ivs_new_def ivs_insert_def ivs_get_def bt_or_insert_def)
  ultimately show ?thesis using fetching_availability_sound [OF s] s by auto
qed

end
