(* ===== verification/QP_Recorder.thy ===== *)
theory QP_Recorder
  imports QP_Isr QP_Store
begin

text \<open>
  The recorder of \<open>src/recorder.rs\<close>: its limits and configuration, the core state machine
  (\<open>record\<close>, \<open>inform_decision\<close>, \<open>install_membership\<close>, pruning, snapshot and restore) and the durable
  wrapper. A method with \<open>&mut self\<close> returns its result paired with the new state, so a mutation
  that precedes an error is visible. The availability guard is an argument of \<open>record\<close>.
\<close>

section \<open>Limits and configuration\<close>

record RecorderLimits =
  lim_max_active_slots :: usize
  lim_max_decisions :: usize
  lim_max_values_per_proposal :: usize
  lim_max_known_decisions :: usize
  lim_max_step :: Step

definition limits_default :: RecorderLimits where
  "limits_default = \<lparr>lim_max_active_slots = 4096, lim_max_decisions = 4096,
     lim_max_values_per_proposal = 1024, lim_max_known_decisions = 256, lim_max_step = 1027\<rparr>"

record RecorderConfig =
  cfg_id :: ReplicaId
  cfg_cluster :: ClusterIdentity
  cfg_limits :: RecorderLimits

definition config_from_cluster :: "ReplicaId \<Rightarrow> ClusterIdentity \<Rightarrow> RecorderConfig result" where
  "config_from_cluster i c =
     (if \<not> cluster_contains c i then Inl (UnknownReplica i)
      else Inr \<lparr>cfg_id = i, cfg_cluster = c, cfg_limits = limits_default\<rparr>)"

definition config_new :: "ReplicaId \<Rightarrow> ReplicaId list \<Rightarrow> usize \<Rightarrow> RecorderConfig result" where
  "config_new i members max_faults =
     rbind (cluster_new members max_faults) (\<lambda>c.
       if \<not> cluster_contains c i then Inl (UnknownReplica i)
       else Inr \<lparr>cfg_id = i, cfg_cluster = c, cfg_limits = limits_default\<rparr>)"

definition config_with_limits :: "RecorderConfig \<Rightarrow> RecorderLimits \<Rightarrow> RecorderConfig result" where
  "config_with_limits cfg limits =
     (if lim_max_active_slots limits = 0 \<or> lim_max_decisions limits = 0
         \<or> lim_max_values_per_proposal limits = 0 \<or> lim_max_known_decisions limits = 0
         \<or> lim_max_step limits < ROUND_ONE_PHASE_ZERO
      then Inl (InvalidProposal ''recorder limits must be non-zero and include the initial protocol step'')
      else Inr (cfg\<lparr>cfg_limits := limits\<rparr>))"

definition config_contains :: "RecorderConfig \<Rightarrow> ReplicaId \<Rightarrow> bool" where
  "config_contains cfg r = cluster_contains (cfg_cluster cfg) r"

section \<open>The recorder core\<close>

record 'v RecorderSnapshot =
  rs_cluster :: ClusterIdentity
  rs_slots :: "(SlotIndex, 'v IntervalSummarySnapshot) btree"
  rs_round_one_leaders :: "(SlotIndex, ReplicaId option) btree"
  rs_decisions :: "(SlotIndex, 'v Decision) btree"
  rs_pruned_through :: SlotIndex

record 'v RecorderCore =
  rc_config :: RecorderConfig
  rc_slots :: "(SlotIndex, 'v IntervalSummaryRegister) btree"
  rc_round_one_leaders :: "(SlotIndex, ReplicaId option) btree"
  rc_decisions :: "(SlotIndex, 'v Decision) btree"
  rc_pruned_through :: SlotIndex

definition recorder_new :: "RecorderConfig \<Rightarrow> 'v RecorderCore" where
  "recorder_new cfg = \<lparr>rc_config = cfg, rc_slots = [], rc_round_one_leaders = [], rc_decisions = [],
                      rc_pruned_through = GENESIS\<rparr>"

definition recorder_snapshot :: "'v RecorderCore \<Rightarrow> 'v RecorderSnapshot" where
  "recorder_snapshot rc =
     \<lparr>rs_cluster = cfg_cluster (rc_config rc), rs_slots = bt_map_values isr_snapshot (rc_slots rc),
      rs_round_one_leaders = rc_round_one_leaders rc, rs_decisions = rc_decisions rc,
      rs_pruned_through = rc_pruned_through rc\<rparr>"

definition restore_snapshot_state :: "'v RecorderCore \<Rightarrow> 'v RecorderSnapshot \<Rightarrow> 'v RecorderCore" where
  "restore_snapshot_state rc s =
     rc\<lparr>rc_slots := bt_map_values isr_restore (rs_slots s),
        rc_round_one_leaders := rs_round_one_leaders s,
        rc_decisions := rs_decisions s,
        rc_pruned_through := rs_pruned_through s\<rparr>"

definition validate_decision :: "RecorderConfig \<Rightarrow> 'v Decision \<Rightarrow> unit result" where
  "validate_decision cfg d =
     (if dec_value_ids d = [] then Inl EmptyDecision
      else if \<not> config_contains cfg (dec_proposer d) then Inl (InvalidSender (dec_proposer d))
      else if dec_decided_step d > lim_max_step (cfg_limits cfg)
        then Inl (InvalidStep (dec_decided_step d) (lim_max_step (cfg_limits cfg)))
      else if length (dec_value_ids d) > lim_max_values_per_proposal (cfg_limits cfg)
        then Inl (ResourceLimit ''decision value IDs'' (lim_max_values_per_proposal (cfg_limits cfg)))
      else if repeats_earlier (dec_value_ids d)
        then Inl (InvalidProposal ''decision contains duplicate value IDs'')
      else Inr ())"

definition validate_proposal :: "RecorderConfig \<Rightarrow> 'v Proposal \<Rightarrow> unit result" where
  "validate_proposal cfg p =
     (if \<not> config_contains cfg (proposer_id (prop_key p)) then Inl (InvalidSender (proposer_id (prop_key p)))
      else if prop_value_ids p = [] then Inl EmptyProposal
      else if length (prop_value_ids p) > lim_max_values_per_proposal (cfg_limits cfg)
        then Inl (ResourceLimit ''proposal value IDs'' (lim_max_values_per_proposal (cfg_limits cfg)))
      else if repeats_earlier (prop_value_ids p)
        then Inl (InvalidProposal ''proposal contains duplicate value IDs'')
      else Inr ())"

text \<open>A \<open>for\<close> loop whose body may return early with an error.\<close>

fun try_all :: "('a \<Rightarrow> unit result) \<Rightarrow> 'a list \<Rightarrow> unit result" where
  "try_all f [] = Inr ()"
| "try_all f (x # xs) = rbind (f x) (\<lambda>_. try_all f xs)"

definition option_list :: "'a option \<Rightarrow> 'a list" where
  "option_list x = (case x of None \<Rightarrow> [] | Some y \<Rightarrow> [y])"

definition validate_isr_snapshot :: "RecorderConfig \<Rightarrow> 'v IntervalSummarySnapshot \<Rightarrow> unit result" where
  "validate_isr_snapshot cfg s =
     (if iss_step s < ROUND_ONE_PHASE_ZERO \<or> iss_step s > lim_max_step (cfg_limits cfg)
        then Inl (InvalidStep (iss_step s) (lim_max_step (cfg_limits cfg)))
      else if iss_first s = None \<or> iss_current_aggregate s = None then Inl MissingProposal
      else try_all (validate_proposal cfg)
             (option_list (iss_first s) @ option_list (iss_current_aggregate s)
              @ option_list (iss_prior_aggregate s)))"

definition recorder_restore :: "RecorderConfig \<Rightarrow> 'v RecorderSnapshot \<Rightarrow> 'v RecorderCore result" where
  "recorder_restore cfg s =
     (if rs_cluster s \<noteq> cfg_cluster cfg then Inl ConfigurationMismatch
      else if length (rs_slots s) > lim_max_active_slots (cfg_limits cfg)
        then Inl (ResourceLimit ''active recorder slots'' (lim_max_active_slots (cfg_limits cfg)))
      else if length (rs_decisions s) > lim_max_decisions (cfg_limits cfg)
        then Inl (ResourceLimit ''retained decisions'' (lim_max_decisions (cfg_limits cfg)))
      else
        rbind (try_all (\<lambda>(slot, d).
                 if slot \<noteq> dec_slot d \<or> slot \<le> rs_pruned_through s
                 then Inl (InvalidProposal ''recorder snapshot decision key does not match its slot or pruned floor'')
                 else validate_decision cfg d) (rs_decisions s)) (\<lambda>_.
        if list_ex (\<lambda>slot. slot \<le> rs_pruned_through s) (bt_keys (rs_slots s))
          then Inl (InvalidProposal ''recorder snapshot retains a slot at or below its pruned floor'')
        else if bt_keys (rs_round_one_leaders s) \<noteq> bt_keys (rs_slots s)
          then Inl (InvalidProposal ''recorder snapshot leader bindings do not match its active slots'')
        else if list_ex (\<lambda>l. \<not> config_contains cfg l) (concat (map option_list (bt_values (rs_round_one_leaders s))))
          then Inl (InvalidProposal ''recorder snapshot binds a slot to an unknown leader'')
        else
          rbind (try_all (validate_isr_snapshot cfg) (bt_values (rs_slots s))) (\<lambda>_.
          Inr (restore_snapshot_state (recorder_new cfg) s))))"

definition recorder_prune_through :: "'v RecorderCore \<Rightarrow> SlotIndex \<Rightarrow> 'v RecorderCore" where
  "recorder_prune_through rc slot =
     rc\<lparr>rc_slots := bt_retain (\<lambda>i _. i > slot) (rc_slots rc),
        rc_round_one_leaders := bt_retain (\<lambda>i _. i > slot) (rc_round_one_leaders rc),
        rc_decisions := bt_retain (\<lambda>i _. i > slot) (rc_decisions rc),
        rc_pruned_through := max (rc_pruned_through rc) slot\<rparr>"

definition install_state_transfer_floor :: "'v RecorderCore \<Rightarrow> SlotIndex \<Rightarrow> 'v RecorderCore" where
  "install_state_transfer_floor rc slot = recorder_prune_through rc slot"

definition recorder_status :: "'v RecorderCore \<Rightarrow> SlotIndex \<Rightarrow> Step option" where
  "recorder_status rc slot = map_option isr_step (bt_get (rc_slots rc) slot)"

definition inform_decision :: "'v RecorderCore \<Rightarrow> 'v Decision \<Rightarrow> unit result \<times> 'v RecorderCore" where
  "inform_decision rc d =
     (case validate_decision (rc_config rc) d of
        Inl e \<Rightarrow> (Inl e, rc)
      | Inr _ \<Rightarrow>
          if dec_slot d \<le> rc_pruned_through rc then (Inr (), rc)
          else (case bt_get (rc_decisions rc) (dec_slot d) of
              Some existing \<Rightarrow>
                if dec_value_ids existing \<noteq> dec_value_ids d then (Inl (ConflictingDecision (dec_slot d)), rc)
                else (Inr (), rc)
            | None \<Rightarrow>
                if length (rc_decisions rc) = lim_max_decisions (cfg_limits (rc_config rc))
                then (Inl (ResourceLimit ''retained decisions'' (lim_max_decisions (cfg_limits (rc_config rc)))), rc)
                else (Inr (), rc\<lparr>rc_decisions := bt_insert (dec_slot d) d (rc_decisions rc)\<rparr>)))"

fun inform_decisions :: "'v RecorderCore \<Rightarrow> 'v Decision list \<Rightarrow> unit result \<times> 'v RecorderCore" where
  "inform_decisions rc [] = (Inr (), rc)"
| "inform_decisions rc (d # ds) = sbind (inform_decision rc d) (\<lambda>_ rc. inform_decisions rc ds)"

definition recorder_install_membership ::
  "'v RecorderCore \<Rightarrow> 'v MembershipChange \<Rightarrow> unit result \<times> 'v RecorderCore" where
  "recorder_install_membership rc change =
     (case validate_binding change of
        Inl e \<Rightarrow> (Inl e, rc)
      | Inr _ \<Rightarrow>
          let current = cfg_cluster (rc_config rc); slot = dec_slot (ch_anchor change) in
          if current = ch_next change then (Inr (), rc)
          else if \<not> is_successor_of (ch_next change) current then
            (Inl (InvalidReconfiguration ''membership transition does not follow the local configuration epoch''), rc)
          else (case bt_get (rc_decisions rc) slot of
              None \<Rightarrow> (Inl (InvalidReconfiguration ''membership anchor decision is not retained by this recorder''), rc)
            | Some anchor \<Rightarrow>
                if anchor \<noteq> ch_anchor change then (Inl (ConflictingDecision slot), rc)
                else if list_ex (\<lambda>s. s > slot) (bt_keys (rc_slots rc)) \<or> list_ex (\<lambda>s. s > slot) (bt_keys (rc_decisions rc))
                then (Inl (InvalidReconfiguration ''membership changes require all later consensus slots to be drained''), rc)
                else (Inr (), rc\<lparr>rc_config := (rc_config rc)\<lparr>cfg_cluster := ch_next change\<rparr>\<rparr>)))"

definition validate_request :: "RecorderConfig \<Rightarrow> 'v RecordRequest \<Rightarrow> unit result" where
  "validate_request cfg r =
     (if \<not> config_contains cfg (req_sender r) then Inl (InvalidSender (req_sender r))
      else case find (\<lambda>l. \<not> config_contains cfg l) (option_list (req_round_one_leader r)) of
        Some l \<Rightarrow> Inl (UnknownReplica l)
      | None \<Rightarrow>
          rbind (validate_proposal cfg (req_proposal r)) (\<lambda>_.
          if req_step r < ROUND_ONE_PHASE_ZERO \<or> req_step r > lim_max_step (cfg_limits cfg)
            then Inl (InvalidStep (req_step r) (lim_max_step (cfg_limits cfg)))
          else if length (req_known_decisions r) > lim_max_known_decisions (cfg_limits cfg)
            then Inl (ResourceLimit ''known decisions in one request'' (lim_max_known_decisions (cfg_limits cfg)))
          else Inr ()))"

definition slot_register :: "'v RecorderCore \<Rightarrow> SlotIndex \<Rightarrow> 'v IntervalSummaryRegister" where
  "slot_register rc slot = (case bt_get (rc_slots rc) slot of Some i \<Rightarrow> i | None \<Rightarrow> isr_default)"

text \<open>The part of \<open>record\<close> after the known decisions were taken in: bind the leader, update the register.\<close>

definition record_slot :: "'v RecordRequest \<Rightarrow> 'v RecorderCore \<Rightarrow> 'v RecordReply result \<times> 'v RecorderCore" where
  "record_slot r rc =
     (if \<not> bt_contains (rc_slots rc) (req_slot r)
         \<and> length (rc_slots rc) = lim_max_active_slots (cfg_limits (rc_config rc))
      then (Inl (ResourceLimit ''active recorder slots'' (lim_max_active_slots (cfg_limits (rc_config rc)))), rc)
      else
        let leaders = bt_or_insert (req_slot r) (req_round_one_leader r) (rc_round_one_leaders rc);
            (reply, isr') = isr_record (slot_register rc (req_slot r)) (req_step r) (req_proposal r);
            rc' = rc\<lparr>rc_round_one_leaders := leaders, rc_slots := bt_insert (req_slot r) isr' (rc_slots rc)\<rparr>
        in (Inr \<lparr>rep_recorder = cfg_id (rc_config rc), rep_cluster = cfg_cluster (rc_config rc),
                 rep_summary = reply, rep_decision = bt_get (rc_decisions rc) (req_slot r)\<rparr>, rc'))"

definition recorder_record ::
  "('v list \<Rightarrow> unit result) \<Rightarrow> 'v RecorderCore \<Rightarrow> 'v RecordRequest \<Rightarrow> 'v RecordReply result \<times> 'v RecorderCore" where
  "recorder_record ensure_available rc r =
     sbind (validate_request (rc_config rc) r, rc) (\<lambda>_ rc.
     if req_slot r \<le> rc_pruned_through rc then (Inl (SlotPruned (req_slot r)), rc)
     else if list_ex (\<lambda>l. l \<noteq> req_round_one_leader r) (option_list (bt_get (rc_round_one_leaders rc) (req_slot r)))
       then (Inl (ScheduleMismatch (req_slot r)), rc)
     else
       sbind (ensure_available (prop_value_ids (req_proposal r)), rc) (\<lambda>_ rc.
       sbind (inform_decisions rc (req_known_decisions r)) (\<lambda>_ rc.
       record_slot r rc)))"

definition record_from ::
  "('v list \<Rightarrow> unit result) \<Rightarrow> 'v RecorderCore \<Rightarrow> ReplicaId \<Rightarrow> 'v RecordRequest \<Rightarrow> 'v RecordReply result \<times> 'v RecorderCore" where
  "record_from ensure_available rc authenticated_sender r =
     (if authenticated_sender \<noteq> req_sender r then (Inl (InvalidSender (req_sender r)), rc)
      else recorder_record ensure_available rc r)"

section \<open>The durable wrapper\<close>

text \<open>The store's \<open>load\<close> and \<open>save\<close> are arguments; each returns the store after the call.\<close>

record ('v, 's) DurableRecorderCore =
  dr_core :: "'v RecorderCore"
  dr_store :: 's

definition durable_new ::
  "('s \<Rightarrow> 'v RecorderSnapshot option result \<times> 's) \<Rightarrow> RecorderConfig \<Rightarrow> 's \<Rightarrow> ('v, 's) DurableRecorderCore result" where
  "durable_new load cfg store =
     (let (loaded, store') = load store in
      rbind loaded (\<lambda>snapshot.
      rbind (case snapshot of Some s \<Rightarrow> recorder_restore cfg s | None \<Rightarrow> Inr (recorder_new cfg)) (\<lambda>core.
      Inr \<lparr>dr_core = core, dr_store = store'\<rparr>)))"

definition mutate ::
  "('s \<Rightarrow> 'v RecorderSnapshot \<Rightarrow> unit result \<times> 's) \<Rightarrow> ('v RecorderCore \<Rightarrow> 'a result \<times> 'v RecorderCore) \<Rightarrow>
   ('v, 's) DurableRecorderCore \<Rightarrow> 'a result \<times> ('v, 's) DurableRecorderCore" where
  "mutate save mutation d =
     (let before = recorder_snapshot (dr_core d);
          (output, core) = mutation (dr_core d)
      in case output of
           Inl e \<Rightarrow> (Inl e, d\<lparr>dr_core := restore_snapshot_state core before\<rparr>)
         | Inr x \<Rightarrow>
             let (saved, store) = save (dr_store d) (recorder_snapshot core) in
             case saved of
               Inl e \<Rightarrow> (Inl e, \<lparr>dr_core = restore_snapshot_state core before, dr_store = store\<rparr>)
             | Inr _ \<Rightarrow> (Inr x, \<lparr>dr_core = core, dr_store = store\<rparr>))"

definition durable_record where
  "durable_record save ensure_available d r = mutate save (\<lambda>core. recorder_record ensure_available core r) d"

definition durable_record_from where
  "durable_record_from save ensure_available d sender r =
     mutate save (\<lambda>core. record_from ensure_available core sender r) d"

definition durable_inform_decision where
  "durable_inform_decision save d x = mutate save (\<lambda>core. inform_decision core x) d"

definition durable_inform_decisions where
  "durable_inform_decisions save d xs = mutate save (\<lambda>core. inform_decisions core xs) d"

definition durable_prune_through where
  "durable_prune_through save d slot =
     mutate save (\<lambda>core. (Inr (), recorder_prune_through core slot)) d"

definition durable_install_state_transfer_floor where
  "durable_install_state_transfer_floor save d slot =
     mutate save (\<lambda>core. (Inr (), install_state_transfer_floor core slot)) d"

definition durable_install_membership where
  "durable_install_membership save d change =
     mutate save (\<lambda>core. recorder_install_membership core change) d"

text \<open>The file store: the codec is the application's, given as \<open>encode\<close> and \<open>decode\<close>.\<close>

record FileRecorderStore =
  frs_target :: snapshot_target
  frs_fs :: file_system

definition frs_target_at :: "path \<Rightarrow> snapshot_target" where
  "frs_target_at p = \<lparr>st_path = p, st_extension = ''recorder.tmp'', st_label = ''recorder state'',
     st_points = [RecorderTemporaryOpened, RecorderTemporaryWritten, RecorderTemporarySynced,
                  RecorderRenamed, RecorderDirectorySynced]\<rparr>"

definition frs_load ::
  "io_faults \<Rightarrow> (8 word list \<Rightarrow> 'v RecorderSnapshot result) \<Rightarrow> FileRecorderStore \<Rightarrow> 'v RecorderSnapshot option result \<times> FileRecorderStore" where
  "frs_load io decode s = (encoded_load io decode (frs_target s) (frs_fs s), s)"

definition frs_save ::
  "io_faults \<Rightarrow> crash_injector \<Rightarrow> ('v RecorderSnapshot \<Rightarrow> 8 word list result) \<Rightarrow> FileRecorderStore \<Rightarrow> 'v RecorderSnapshot \<Rightarrow>
   unit result \<times> FileRecorderStore" where
  "frs_save io inject encode s x =
     (let (r, fs) = encoded_save io inject encode (frs_target s) (frs_fs s) x in (r, s\<lparr>frs_fs := fs\<rparr>))"

section \<open>The recorder invariant\<close>

text \<open>What the checks of \<open>restore\<close> demand of a snapshot, plus the order of the maps.\<close>

definition recorder_inv :: "'v RecorderCore \<Rightarrow> bool" where
  "recorder_inv rc =
     (bt_wf (rc_slots rc) \<and> bt_wf (rc_round_one_leaders rc) \<and> bt_wf (rc_decisions rc)
      \<and> length (rc_slots rc) \<le> lim_max_active_slots (cfg_limits (rc_config rc))
      \<and> length (rc_decisions rc) \<le> lim_max_decisions (cfg_limits (rc_config rc))
      \<and> bt_keys (rc_round_one_leaders rc) = bt_keys (rc_slots rc)
      \<and> (\<forall>(k, i) \<in> set (rc_slots rc). rc_pruned_through rc < k
            \<and> validate_isr_snapshot (rc_config rc) (isr_snapshot i) = Inr ())
      \<and> (\<forall>(k, l) \<in> set (rc_round_one_leaders rc). list_all (config_contains (rc_config rc)) (option_list l))
      \<and> (\<forall>(k, d) \<in> set (rc_decisions rc). k = dec_slot d \<and> rc_pruned_through rc < k
            \<and> validate_decision (rc_config rc) d = Inr ()))"

lemma try_all_Inr: "try_all f xs = Inr () \<longleftrightarrow> (\<forall>x \<in> set xs. f x = Inr ())"
  by (induction xs) (auto simp: qp_result)

lemma option_list_simps [simp]: "option_list None = []" "option_list (Some x) = [x]"
  by (simp_all add: option_list_def)

lemma set_option_list: "set (option_list x) = set_option x"
  by (cases x) simp_all

lemma recorder_inv_new: "recorder_inv (recorder_new cfg)"
  by (simp add: recorder_inv_def recorder_new_def)

lemma recorder_inv_prune: "recorder_inv rc \<Longrightarrow> recorder_inv (recorder_prune_through rc slot)"
  using length_bt_retain [of "\<lambda>i _. slot < i" "rc_slots rc"] length_bt_retain [of "\<lambda>i _. slot < i" "rc_decisions rc"]
  by (auto simp: recorder_inv_def recorder_prune_through_def bt_keys_retain_key bt_retain_mem)

lemma inform_decision_cases:
  assumes "inform_decision rc d = (r, rc')"
  obtains (same) "rc' = rc"
  | (stored) "r = Inr ()" "bt_get (rc_decisions rc) (dec_slot d) = None" "validate_decision (rc_config rc) d = Inr ()"
      "rc_pruned_through rc < dec_slot d" "length (rc_decisions rc) \<noteq> lim_max_decisions (cfg_limits (rc_config rc))"
      "rc' = rc\<lparr>rc_decisions := bt_insert (dec_slot d) d (rc_decisions rc)\<rparr>"
  using assms by (auto simp: inform_decision_def not_le split: sum.splits option.splits if_splits)

lemma recorder_inv_inform:
  assumes "recorder_inv rc" and "inform_decision rc d = (r, rc')"
  shows "recorder_inv rc'"
  using assms(2)
proof (cases rule: inform_decision_cases)
  case stored
  then show ?thesis
    using assms(1)
    by (auto simp: recorder_inv_def bt_insert_fresh_length dest!: bt_insert_set)
qed (use assms in simp)

lemma inform_decisions_keeps:
  "inform_decisions rc ds = (r, rc') \<Longrightarrow>
     rc_config rc' = rc_config rc \<and> rc_slots rc' = rc_slots rc \<and>
     rc_round_one_leaders rc' = rc_round_one_leaders rc \<and> rc_pruned_through rc' = rc_pruned_through rc"
proof (induction ds arbitrary: rc)
  case (Cons d ds)
  have one: "inform_decision rc d = (q, rc'') \<Longrightarrow>
     rc_config rc'' = rc_config rc \<and> rc_slots rc'' = rc_slots rc \<and>
     rc_round_one_leaders rc'' = rc_round_one_leaders rc \<and> rc_pruned_through rc'' = rc_pruned_through rc" for q rc''
    by (auto elim: inform_decision_cases)
  from Cons.prems show ?case
    by (auto elim!: sbindE dest!: one Cons.IH)
qed simp

lemma recorder_inv_informs:
  "recorder_inv rc \<Longrightarrow> inform_decisions rc ds = (r, rc') \<Longrightarrow> recorder_inv rc'"
  by (induction ds arbitrary: rc) (auto elim!: sbindE dest: recorder_inv_inform)

lemma validate_isr_iff:
  "validate_isr_snapshot cfg (isr_snapshot i) = Inr () \<longleftrightarrow>
     ROUND_ONE_PHASE_ZERO \<le> isr_step i \<and> isr_step i \<le> lim_max_step (cfg_limits cfg)
     \<and> isr_first i \<noteq> None \<and> isr_current_aggregate i \<noteq> None
     \<and> (\<forall>p. p \<in> set_option (isr_first i) \<union> set_option (isr_current_aggregate i) \<union> set_option (isr_prior_aggregate i)
            \<longrightarrow> validate_proposal cfg p = Inr ())"
  by (auto simp: validate_isr_snapshot_def isr_snapshot_def try_all_Inr set_option_list not_less)

lemma best_proposal_in: "best_proposal q p = p \<or> Some (best_proposal q p) = q"
  by (auto simp: best_proposal_def split: option.splits)

lemma isr_advance_valid:
  assumes "validate_isr_snapshot cfg (isr_snapshot i) = Inr () \<or> i = isr_default"
    and "validate_proposal cfg p = Inr ()" "ROUND_ONE_PHASE_ZERO \<le> s" "s \<le> lim_max_step (cfg_limits cfg)"
  shows "validate_isr_snapshot cfg (isr_snapshot (isr_advance i s p)) = Inr ()"
proof -
  have "0 < s" using assms(3) by (auto simp: ROUND_ONE_PHASE_ZERO_def intro: less_le_trans [rotated])
  then show ?thesis
    using assms best_proposal_in [of "isr_current_aggregate i" p]
    by (auto simp: validate_isr_iff isr_advance_def isr_default_def STEP_INITIAL_def split: option.splits)
qed

lemma record_slot_cases:
  assumes "record_slot r rc = (x, rc')"
  obtains (full) e where "x = Inl e" "rc' = rc"
  | (recorded) "bt_get (rc_slots rc) (req_slot r) \<noteq> None \<or>
        length (rc_slots rc) \<noteq> lim_max_active_slots (cfg_limits (rc_config rc))"
      "rc' = rc\<lparr>rc_round_one_leaders := bt_or_insert (req_slot r) (req_round_one_leader r) (rc_round_one_leaders rc),
               rc_slots := bt_insert (req_slot r) (isr_advance (slot_register rc (req_slot r)) (req_step r) (req_proposal r)) (rc_slots rc)\<rparr>"
      "x = Inr \<lparr>rep_recorder = cfg_id (rc_config rc), rep_cluster = cfg_cluster (rc_config rc),
                rep_summary = isr_summary (isr_advance (slot_register rc (req_slot r)) (req_step r) (req_proposal r)),
                rep_decision = bt_get (rc_decisions rc) (req_slot r)\<rparr>"
proof (cases "bt_get (rc_slots rc) (req_slot r) = None \<and> length (rc_slots rc) = lim_max_active_slots (cfg_limits (rc_config rc))")
  case True
  then show thesis using assms unfolding record_slot_def bt_contains_get by (intro full) auto
next
  case False
  then show thesis
    using assms unfolding record_slot_def bt_contains_get isr_record_def Let_def
    by (intro recorded) auto
qed

lemma validate_request_Inr:
  assumes "validate_request cfg r = Inr ()"
  shows "config_contains cfg (req_sender r)" "list_all (config_contains cfg) (option_list (req_round_one_leader r))"
    "validate_proposal cfg (req_proposal r) = Inr ()"
    "ROUND_ONE_PHASE_ZERO \<le> req_step r" "req_step r \<le> lim_max_step (cfg_limits cfg)"
    "length (req_known_decisions r) \<le> lim_max_known_decisions (cfg_limits cfg)"
  using assms
  by (auto simp: validate_request_def qp_result find_None_iff list_all_iff not_less
      split: if_splits option.splits)

lemma slot_register_valid:
  assumes "recorder_inv rc"
  shows "validate_isr_snapshot (rc_config rc) (isr_snapshot (slot_register rc k)) = Inr () \<or> slot_register rc k = isr_default"
  using assms by (auto simp: recorder_inv_def slot_register_def split: option.splits dest!: map_of_SomeD)

lemma recorder_inv_record_slot:
  assumes inv: "recorder_inv rc" and v: "validate_request (rc_config rc) r = Inr ()"
    and p: "rc_pruned_through rc < req_slot r" and x: "record_slot r rc = (x, rc')"
  shows "recorder_inv rc'"
  using x
proof (cases rule: record_slot_cases)
  case recorded
  note q = validate_request_Inr [OF v]
  let ?i = "isr_advance (slot_register rc (req_slot r)) (req_step r) (req_proposal r)"
  have i: "validate_isr_snapshot (rc_config rc) (isr_snapshot ?i) = Inr ()"
    by (rule isr_advance_valid [OF slot_register_valid [OF inv] q(3,4,5)])
  have w: "bt_wf (rc_slots rc)" "bt_wf (rc_round_one_leaders rc)" and k: "bt_keys (rc_round_one_leaders rc) = bt_keys (rc_slots rc)"
    using inv by (auto simp: recorder_inv_def)
  have len: "length (bt_insert (req_slot r) ?i (rc_slots rc)) \<le> lim_max_active_slots (cfg_limits (rc_config rc))"
  proof (cases "bt_get (rc_slots rc) (req_slot r)")
    case None
    then show ?thesis using recorded(1) inv by (simp add: bt_insert_fresh_length recorder_inv_def)
  next
    case (Some a)
    then have "bt_keys (bt_insert (req_slot r) ?i (rc_slots rc)) = bt_keys (rc_slots rc)"
      using w by (simp add: bt_insert_present_keys)
    from arg_cong [OF this, of length] show ?thesis using inv by (simp add: recorder_inv_def)
  qed
  have s: "\<forall>(k, i) \<in> set (bt_insert (req_slot r) ?i (rc_slots rc)). rc_pruned_through rc < k
      \<and> validate_isr_snapshot (rc_config rc) (isr_snapshot i) = Inr ()"
    using inv i p by (auto simp: recorder_inv_def dest!: bt_insert_set [OF w(1)])
  have l: "\<forall>(k, l) \<in> set (bt_or_insert (req_slot r) (req_round_one_leader r) (rc_round_one_leaders rc)).
      list_all (config_contains (rc_config rc)) (option_list l)"
    using inv q(2) by (auto simp: recorder_inv_def dest!: bt_or_insert_set [OF _ w(2)])
  show ?thesis
    using inv w s l len bt_keys_or_insert_same [OF w(2) k, of "req_slot r" "req_round_one_leader r" ?i]
    by (simp add: recorder_inv_def recorded(2))
qed (use inv in simp)

text \<open>The whole of \<open>record\<close>: an error keeps registers and bindings, a reply moves one register.\<close>

lemma recorder_record_cases:
  assumes "recorder_record ens rc r = (x, rc')"
  obtains (rejected) e where "x = Inl e" "rc' = rc"
  | (informed) e ds where "x = Inl e" "inform_decisions rc (req_known_decisions r) = (ds, rc')"
  | (recorded) rc'' where "inform_decisions rc (req_known_decisions r) = (Inr (), rc'')"
      "record_slot r rc'' = (x, rc')" "is_ok x" "validate_request (rc_config rc) r = Inr ()"
      "rc_pruned_through rc < req_slot r" "ens (prop_value_ids (req_proposal r)) = Inr ()"
      "bt_get (rc_round_one_leaders rc) (req_slot r) \<in> {None, Some (req_round_one_leader r)}"
proof (cases "(\<exists>e. x = Inl e \<and> rc' = rc) \<or> (\<exists>e ds. x = Inl e \<and> inform_decisions rc (req_known_decisions r) = (ds, rc'))")
  case True
  then show thesis using rejected informed by blast
next
  case False
  have "bt_get (rc_round_one_leaders rc) (req_slot r) \<in> {None, Some (req_round_one_leader r)}
      \<or> list_ex (\<lambda>l. l \<noteq> req_round_one_leader r) (option_list (bt_get (rc_round_one_leaders rc) (req_slot r)))"
    by (cases "bt_get (rc_round_one_leaders rc) (req_slot r)") auto
  moreover have f: "record_slot r rc'' = (Inl e, rc') \<Longrightarrow> rc'' = rc'" for e rc''
    by (auto elim: record_slot_cases)
  ultimately show thesis
    using False assms recorded unfolding recorder_record_def
    by (cases x) (auto simp: not_le elim!: sbindE split: if_splits dest: f)
qed

lemma recorder_inv_record:
  assumes "recorder_inv rc" and "recorder_record ens rc r = (x, rc')"
  shows "recorder_inv rc'"
  using assms(2)
proof (cases rule: recorder_record_cases)
  case (recorded rc'')
  note k = inform_decisions_keeps [OF recorded(1)]
  show ?thesis
    using recorder_inv_record_slot [OF recorder_inv_informs [OF assms(1) recorded(1)] _ _ recorded(2)] recorded k
    by simp
qed (use assms recorder_inv_informs in auto)

lemma recorder_inv_record_from:
  "recorder_inv rc \<Longrightarrow> record_from ens rc a r = (x, rc') \<Longrightarrow> recorder_inv rc'"
  by (auto simp: record_from_def split: if_splits intro: recorder_inv_record)

section \<open>Snapshots\<close>

lemma bt_map_values_restore: "bt_map_values isr_restore (bt_map_values isr_snapshot m) = m"
  by (simp add: bt_map_values_comp comp_def)

lemma restore_own_snapshot: "restore_snapshot_state rc (recorder_snapshot rc) = rc"
  by (simp add: restore_snapshot_state_def recorder_snapshot_def bt_map_values_restore)

lemma recorder_restore_snapshot:
  assumes "recorder_inv rc"
  shows "recorder_restore (rc_config rc) (recorder_snapshot rc) = Inr rc"
proof -
  have s: "\<forall>s \<in> set (bt_values (bt_map_values isr_snapshot (rc_slots rc))). validate_isr_snapshot (rc_config rc) s = Inr ()"
    using assms by (auto simp: recorder_inv_def bt_map_values_def)
  have l: "\<not> list_ex (\<lambda>l. \<not> config_contains (rc_config rc) l) (concat (map option_list (bt_values (rc_round_one_leaders rc))))"
    using assms by (auto simp: recorder_inv_def list_ex_iff list_all_iff)
  have d: "try_all (\<lambda>(slot, d). if slot \<noteq> dec_slot d \<or> slot \<le> rc_pruned_through rc
       then Inl (InvalidProposal ''recorder snapshot decision key does not match its slot or pruned floor'')
       else validate_decision (rc_config rc) d) (rc_decisions rc) = Inr ()"
    using assms by (auto simp: try_all_Inr recorder_inv_def)
  have k: "\<not> list_ex (\<lambda>slot. slot \<le> rc_pruned_through rc) (bt_keys (rc_slots rc))"
    using assms by (auto simp: recorder_inv_def list_ex_iff)
  have len: "length (bt_map_values isr_snapshot (rc_slots rc)) = length (rc_slots rc)"
    by (simp add: bt_map_values_def)
  have "restore_snapshot_state (recorder_new (rc_config rc)) (recorder_snapshot rc) = rc"
    by (simp add: restore_snapshot_state_def recorder_snapshot_def recorder_new_def bt_map_values_restore)
  moreover have "try_all (validate_isr_snapshot (rc_config rc)) (bt_values (bt_map_values isr_snapshot (rc_slots rc))) = Inr ()"
    using s by (simp add: try_all_Inr)
  ultimately show ?thesis
    using assms l d k len
    by (simp add: recorder_restore_def recorder_snapshot_def recorder_inv_def)
qed

section \<open>Durability\<close>

lemma mutate_cases:
  assumes "mutate save f d = (r, d')"
  obtains (failed) e core where "f (dr_core d) = (Inl e, core)" "r = Inl e"
      "d' = d\<lparr>dr_core := restore_snapshot_state core (recorder_snapshot (dr_core d))\<rparr>"
  | (unsaved) x core e store where "f (dr_core d) = (Inr x, core)" "save (dr_store d) (recorder_snapshot core) = (Inl e, store)"
      "r = Inl e" "d' = \<lparr>dr_core = restore_snapshot_state core (recorder_snapshot (dr_core d)), dr_store = store\<rparr>"
  | (saved) x core store where "f (dr_core d) = (Inr x, core)" "save (dr_store d) (recorder_snapshot core) = (Inr (), store)"
      "r = Inr x" "d' = \<lparr>dr_core = core, dr_store = store\<rparr>"
  using assms unfolding mutate_def Let_def
  by (auto split: prod.splits sum.splits)

text \<open>
  What a store contract gives the wrapper. An acknowledged operation is what a restart reloads; a
  failed one leaves registers, bindings, decisions and floor as they were.
\<close>

locale recorder_store = state_store load save holds
  for load :: "'s \<Rightarrow> 'v RecorderSnapshot option result \<times> 's"
    and save :: "'s \<Rightarrow> 'v RecorderSnapshot \<Rightarrow> unit result \<times> 's"
    and holds :: "'s \<Rightarrow> 'v RecorderSnapshot option"
begin

lemma acknowledged_durable:
  "mutate save f d = (Inr x, d') \<Longrightarrow> holds (dr_store d') = Some (recorder_snapshot (dr_core d'))"
  by (auto elim!: mutate_cases dest: save_ok)

lemma acknowledged_output:
  "mutate save f d = (Inr x, d') \<Longrightarrow> f (dr_core d) = (Inr x, dr_core d')"
  by (auto elim!: mutate_cases)

lemma restart:
  assumes "holds s = Some (recorder_snapshot core)" and "recorder_inv core" and "load s = (Inr y, s')"
  shows "durable_new load (rc_config core) s = Inr \<lparr>dr_core = core, dr_store = s'\<rparr>"
  using load_holds [OF assms(3)] assms recorder_restore_snapshot [of core]
  by (simp add: durable_new_def)

end

lemma mutate_failed:
  assumes "mutate save f d = (Inl e, d')"
    and "\<And>x core. f (dr_core d) = (x, core) \<Longrightarrow> rc_config core = rc_config (dr_core d)"
  shows "dr_core d' = dr_core d"
proof -
  have "restore_snapshot_state core (recorder_snapshot (dr_core d)) = dr_core d" if "rc_config core = rc_config (dr_core d)" for core
    using that by (simp add: restore_snapshot_state_def recorder_snapshot_def bt_map_values_restore)
  with assms show ?thesis by (auto elim!: mutate_cases)
qed

interpretation msr: recorder_store ms_load ms_save ms_snapshot
  by unfold_locales

interpretation lkr: recorder_store "lk_load ms_load" "lk_save ms_save" "\<lambda>s. ms_snapshot (lk_store s)"
  by unfold_locales

lemma recorder_record_config:
  "recorder_record ens rc r = (x, rc') \<Longrightarrow> rc_config rc' = rc_config rc"
  by (erule recorder_record_cases) (auto dest!: inform_decisions_keeps elim!: record_slot_cases)

section \<open>The file store\<close>

text \<open>
  With a codec that decodes what it encodes, every content the state file may have after a crash
  is one it could have had before the save, or the new snapshot.
\<close>

lemma frs_save_atomic:
  assumes "frs_save io inject encode s x = (r, s')" and "frs_target s = frs_target_at p"
  shows "crash_reads p (frs_fs s') b \<Longrightarrow> crash_reads p (frs_fs s) b \<or> (\<exists>bytes. encode x = Inr bytes \<and> b = Some bytes)"
    and "r = Inr () \<Longrightarrow> \<exists>bytes. encode x = Inr bytes \<and> fs_read p (frs_fs s') = Some bytes
          \<and> (\<forall>b. crash_reads p (frs_fs s') b \<longrightarrow> b = Some bytes)"
    and "frs_target s' = frs_target s"
proof -
  obtain fs where fs: "encoded_save io inject encode (frs_target_at p) (frs_fs s) x = (r, fs)" "s' = s\<lparr>frs_fs := fs\<rparr>"
    using assms by (auto simp: frs_save_def split: prod.splits)
  note atomic = encoded_save_atomic [OF fs(1), of p, unfolded frs_target_at_def, simplified]
  show "crash_reads p (frs_fs s') b \<Longrightarrow> crash_reads p (frs_fs s) b \<or> (\<exists>bytes. encode x = Inr bytes \<and> b = Some bytes)"
    using atomic(1) fs(2) by simp
  show "r = Inr () \<Longrightarrow> \<exists>bytes. encode x = Inr bytes \<and> fs_read p (frs_fs s') = Some bytes
          \<and> (\<forall>b. crash_reads p (frs_fs s') b \<longrightarrow> b = Some bytes)"
    using atomic(2) fs(2) by simp
  show "frs_target s' = frs_target s" using fs(2) by simp
qed

section \<open>Guarantees\<close>

text \<open>The states a recorder of a fixed configuration can be in.\<close>

inductive recorder_reachable :: "RecorderConfig \<Rightarrow> 'v RecorderCore \<Rightarrow> bool" for cfg where
  fresh: "recorder_reachable cfg (recorder_new cfg)"
| recorded: "recorder_reachable cfg rc \<Longrightarrow> recorder_reachable cfg (snd (record_from ens rc sender r))"
| informed: "recorder_reachable cfg rc \<Longrightarrow> recorder_reachable cfg (snd (inform_decisions rc ds))"
| pruned: "recorder_reachable cfg rc \<Longrightarrow> recorder_reachable cfg (recorder_prune_through rc slot)"

lemma rc_config_simps [simp]:
  "rc_config (recorder_new cfg) = cfg" "rc_config (recorder_prune_through rc slot) = rc_config rc"
  by (simp_all add: recorder_new_def recorder_prune_through_def)

lemma recorder_reachable_inv:
  "recorder_reachable cfg rc \<Longrightarrow> recorder_inv rc \<and> rc_config rc = cfg"
proof (induction rule: recorder_reachable.induct)
  case (recorded rc ens sender r)
  obtain x rc' where x: "record_from ens rc sender r = (x, rc')" by fastforce
  have "rc_config rc' = rc_config rc"
    using x recorder_record_config [of ens rc r x rc'] by (auto simp: record_from_def split: if_splits)
  then show ?case using recorder_inv_record_from [OF _ x] recorded x by simp
next
  case (informed rc ds)
  obtain x rc' where x: "inform_decisions rc ds = (x, rc')" by fastforce
  then show ?case using recorder_inv_informs [OF _ x] inform_decisions_keeps [OF x] informed by simp
qed (simp_all add: recorder_inv_new recorder_inv_prune rc_config_simps)


definition demo_config :: RecorderConfig where
  "demo_config = \<lparr>cfg_id = 1, cfg_cluster = \<lparr>ci_members = [1, 2, 3], ci_max_faults = 1, ci_epoch = 0, ci_joint = None\<rparr>,
     cfg_limits = \<lparr>lim_max_active_slots = 1, lim_max_decisions = 1, lim_max_values_per_proposal = 2,
                   lim_max_known_decisions = 2, lim_max_step = 1027\<rparr>\<rparr>"

definition sample_request :: "SlotIndex \<Rightarrow> ReplicaId option \<Rightarrow> nat RecordRequest" where
  "sample_request slot leader = \<lparr>req_sender = 2, req_slot = slot, req_round_one_leader = leader, req_step = 4,
     req_proposal = \<lparr>prop_key = ProposalKey 9 2 0, prop_value_ids = [5]\<rparr>, req_known_decisions = []\<rparr>"

lemmas recorder_eval = demo_config_def sample_request_def record_from_def recorder_record_def validate_request_def validate_proposal_def
  record_slot_def slot_register_def isr_record_def isr_default_def isr_advance_def isr_summary_def config_contains_def
  cluster_contains_def recorder_new_def ROUND_ONE_PHASE_ZERO_def STEP_INITIAL_def GENESIS_def bt_or_insert_def allow_all_available_def






lemma pruned_floor_mono:
  "rc_pruned_through rc \<le> rc_pruned_through (snd (record_from ens rc sender r))"
  "rc_pruned_through rc \<le> rc_pruned_through (snd (inform_decisions rc ds))"
  "rc_pruned_through rc \<le> rc_pruned_through (recorder_prune_through rc slot)"
proof -
  obtain x rc' where x: "record_from ens rc sender r = (x, rc')" by fastforce
  have "rc_pruned_through rc' = rc_pruned_through rc"
    using x by (auto simp: record_from_def split: if_splits elim!: recorder_record_cases record_slot_cases
        dest!: inform_decisions_keeps)
  then show "rc_pruned_through rc \<le> rc_pruned_through (snd (record_from ens rc sender r))" using x by simp
  show "rc_pruned_through rc \<le> rc_pruned_through (snd (inform_decisions rc ds))"
    using inform_decisions_keeps [of rc ds] by (cases "inform_decisions rc ds") auto
  show "rc_pruned_through rc \<le> rc_pruned_through (recorder_prune_through rc slot)"
    by (simp add: recorder_prune_through_def)
qed

inductive recorder_continues :: "'v RecorderCore \<Rightarrow> 'v RecorderCore \<Rightarrow> bool" for start where
  stays: "recorder_continues start start"
| recorded: "recorder_continues start rc \<Longrightarrow> recorder_continues start (snd (record_from ens rc sender r))"
| informed: "recorder_continues start rc \<Longrightarrow> recorder_continues start (snd (inform_decisions rc ds))"
| pruned: "recorder_continues start rc \<Longrightarrow> recorder_continues start (recorder_prune_through rc slot)"

lemma recorder_continues_reachable:
  "recorder_continues start rc \<Longrightarrow> recorder_reachable cfg start \<Longrightarrow> recorder_reachable cfg rc"
  by (induction rule: recorder_continues.induct) (auto intro: recorder_reachable.intros)

lemma recorder_continues_floor:
  "recorder_continues start rc \<Longrightarrow> rc_pruned_through start \<le> rc_pruned_through rc"
  by (induction rule: recorder_continues.induct) (auto intro: pruned_floor_mono order_trans)

text \<open>
  C15: Pruned slots stay closed. After pruning through a slot, and whatever the recorder processes
  later, no register, binding or decision at or below that slot exists, and a valid request for such
  a slot is answered with a slot-pruned error instead of running consensus on empty state.
\<close>

theorem pruned_slots_stay_closed:
  assumes "recorder_reachable cfg rc" and "recorder_continues (recorder_prune_through rc slot) later" and "k \<le> slot"
  shows "bt_get (rc_slots later) k = None \<and> bt_get (rc_round_one_leaders later) k = None \<and> bt_get (rc_decisions later) k = None
    \<and> (req_slot r = k \<longrightarrow> validate_request cfg r = Inr () \<longrightarrow> recorder_record ens later r = (Inl (SlotPruned k), later))"
proof -
  have r: "recorder_reachable cfg later"
    using recorder_continues_reachable [OF assms(2)] assms(1) by (blast intro: recorder_reachable.pruned)
  have i: "recorder_inv later" "rc_config later = cfg" using recorder_reachable_inv [OF r] by auto
  have "slot \<le> rc_pruned_through (recorder_prune_through rc slot)" by (simp add: recorder_prune_through_def)
  then have k: "k \<le> rc_pruned_through later" using recorder_continues_floor [OF assms(2)] assms(3) by order
  have keys: "bt_keys (rc_round_one_leaders later) = bt_keys (rc_slots later)"
    and s: "\<forall>(a, b) \<in> set (rc_slots later). rc_pruned_through later < a"
    and d: "\<forall>(a, b) \<in> set (rc_decisions later). rc_pruned_through later < a"
    using i(1) by (auto simp: recorder_inv_def)
  have "k \<notin> set (bt_keys (rc_slots later))" "k \<notin> set (bt_keys (rc_decisions later))" using s d k by auto
  then show ?thesis
    using keys k i(2) by (auto simp: map_of_eq_None_iff recorder_record_def simp flip: set_map)
qed

theorem pruned_slots_stay_closed_witness:
  "recorder_record allow_all_available (recorder_prune_through (recorder_new demo_config) 3) (sample_request 2 None) =
     (Inl (SlotPruned 2), recorder_prune_through (recorder_new demo_config) 3)"
  using pruned_slots_stay_closed [OF recorder_reachable.fresh, of demo_config 3 "recorder_prune_through (recorder_new demo_config) 3" 2
      "sample_request 2 None" allow_all_available]
  by (simp add: recorder_continues.stays sample_request_def demo_config_def validate_request_def validate_proposal_def
      config_contains_def cluster_contains_def ROUND_ONE_PHASE_ZERO_def)



text \<open>
  C17: The recorder's state file is crash-safe. With a codec that decodes what it encodes, every
  content the file may have after a crash at any moment of a \<open>record\<close> call is: after a reply, a
  snapshot from which the recorder restarts in exactly the acknowledged state; after an error, in
  which case the recorder in memory is unchanged, something the file could hold before or the
  complete snapshot of the attempted update.
\<close>

theorem durable_record_crash_safe:
  assumes "durable_record (frs_save io inject encode) ens d r = (x, d')"
    and "frs_target (dr_store d) = frs_target_at p" and "recorder_reachable cfg (dr_core d)"
    and codec: "\<And>s bytes. encode s = Inr bytes \<Longrightarrow> decode bytes = Inr s"
  shows "case x of
      Inr reply \<Rightarrow> \<forall>b. crash_reads p (frs_fs (dr_store d')) b \<longrightarrow>
        (\<exists>bytes snap. b = Some bytes \<and> decode bytes = Inr snap \<and> recorder_restore cfg snap = Inr (dr_core d'))
    | Inl e \<Rightarrow> dr_core d' = dr_core d \<and> (\<forall>b. crash_reads p (frs_fs (dr_store d')) b \<longrightarrow> crash_reads p (frs_fs (dr_store d)) b \<or>
        (\<exists>bytes reply core. b = Some bytes \<and> recorder_record ens (dr_core d) r = (Inr reply, core) \<and> decode bytes = Inr (recorder_snapshot core)))"
proof -
  note m = assms(1) [unfolded durable_record_def]
  have inv: "recorder_inv (dr_core d)" "rc_config (dr_core d) = cfg" using recorder_reachable_inv [OF assms(3)] by auto
  from m show ?thesis
  proof (cases rule: mutate_cases)
    case (failed e core)
    then show ?thesis using mutate_failed [OF m [unfolded failed(2)]] recorder_record_config by fastforce
  next
    case (unsaved reply core e store)
    have "dr_core d' = dr_core d" using mutate_failed [OF m [unfolded unsaved(3)]] recorder_record_config by blast
    moreover have "crash_reads p (frs_fs store) b \<Longrightarrow> crash_reads p (frs_fs (dr_store d)) b \<or> (\<exists>bytes. encode (recorder_snapshot core) = Inr bytes \<and> b = Some bytes)" for b
      by (rule frs_save_atomic(1) [OF unsaved(2) assms(2)])
    ultimately show ?thesis using unsaved codec by fastforce
  next
    case (saved reply core store)
    have c: "recorder_inv core" "rc_config core = cfg"
      using recorder_inv_record [OF inv(1) saved(1)] recorder_record_config [OF saved(1)] inv(2) by auto
    obtain bytes where b: "encode (recorder_snapshot core) = Inr bytes" "\<forall>b. crash_reads p (frs_fs store) b \<longrightarrow> b = Some bytes"
      using frs_save_atomic(2) [OF saved(2) assms(2)] by blast
    have "decode bytes = Inr (recorder_snapshot core)" by (rule codec [OF b(1)])
    moreover have "recorder_restore cfg (recorder_snapshot core) = Inr core" using recorder_restore_snapshot [OF c(1)] c(2) by simp
    ultimately show ?thesis using b(2) saved by auto
  qed
qed

text \<open>A codec that knows the one snapshot of the example.\<close>

definition demo_after :: "nat RecorderCore" where
  "demo_after = snd (recorder_record allow_all_available (recorder_new demo_config) (sample_request 1 None))"

definition demo_encode :: "nat RecorderSnapshot \<Rightarrow> 8 word list result" where
  "demo_encode s = (if s = recorder_snapshot demo_after then Inr [1] else Inl (StorageError ''unknown''))"

definition demo_decode :: "8 word list \<Rightarrow> nat RecorderSnapshot result" where
  "demo_decode bytes = (if bytes = [1] then Inr (recorder_snapshot demo_after) else Inl (StorageError ''unknown''))"

theorem durable_record_crash_safe_witness:
  "\<exists>reply d'. durable_record (frs_save (demo_io ReadPath) noop_injector demo_encode) allow_all_available
       \<lparr>dr_core = recorder_new demo_config, dr_store = \<lparr>frs_target = frs_target_at (st_path demo_target), frs_fs = demo_fs\<rparr>\<rparr> (sample_request 1 None)
       = (Inr reply, d')
     \<and> (\<forall>b. crash_reads (st_path demo_target) (frs_fs (dr_store d')) b \<longrightarrow>
        (\<exists>bytes snap. b = Some bytes \<and> demo_decode bytes = Inr snap \<and> recorder_restore demo_config snap = Inr (dr_core d')))"
proof -
  let ?d = "\<lparr>dr_core = recorder_new demo_config, dr_store = \<lparr>frs_target = frs_target_at (st_path demo_target), frs_fs = demo_fs\<rparr>\<rparr>"
  obtain x d' where s: "durable_record (frs_save (demo_io ReadPath) noop_injector demo_encode) allow_all_available ?d (sample_request 1 None) = (x, d')"
    by fastforce
  obtain reply where rep: "recorder_record allow_all_available (recorder_new demo_config) (sample_request 1 None) = (Inr reply, demo_after)"
    by (simp add: demo_after_def recorder_eval Let_def)
  then have x: "x = Inr reply"
    using s by (auto simp: durable_record_def mutate_def frs_save_def demo_encode_def encoded_save_def save_bytes_def io_step_def demo_io_def
        noop_injector_def Let_def split: prod.splits sum.splits)
  have r: "recorder_reachable demo_config (dr_core ?d)" by (simp add: recorder_reachable.fresh)
  have c: "demo_encode t = Inr bytes \<Longrightarrow> demo_decode bytes = Inr t" for t bytes
    by (auto simp: demo_encode_def demo_decode_def split: if_splits)
  from durable_record_crash_safe [OF s _ r c] x s show ?thesis by auto
qed

section \<open>Where the wrapper and the code's intent part\<close>

text \<open>
  After a failed save \<open>mutate\<close> restores the slots, bindings, decisions and floor, but not the
  configuration: a membership change that could not be stored stays installed in memory.
\<close>

lemma failed_save_keeps_new_membership:
  assumes "recorder_install_membership (dr_core d) change = (Inr (), core)" and "rc_config core \<noteq> rc_config (dr_core d)"
    and "save (dr_store d) (recorder_snapshot core) = (Inl e, store)"
  shows "durable_install_membership save d change = (Inl e, \<lparr>dr_core = (dr_core d)\<lparr>rc_config := rc_config core\<rparr>, dr_store = store\<rparr>)"
  using assms
  by (simp add: durable_install_membership_def mutate_def restore_snapshot_state_def recorder_snapshot_def bt_map_values_restore)

text \<open>
  A decision of a replica that the finalized configuration no longer contains stays retained after
  \<open>install_membership\<close>, and the next restart refuses the recorder's own snapshot.
\<close>

definition leaving_joint :: ClusterIdentity where
  "leaving_joint = \<lparr>ci_members = [1, 2, 3, 4], ci_max_faults = 1, ci_epoch = 1,
     ci_joint = Some \<lparr>jm_old_members = [1, 2, 3], jm_old_max_faults = 1, jm_new_members = [2, 3, 4]\<rparr>\<rparr>"

definition leaving_final :: ClusterIdentity where
  "leaving_final = \<lparr>ci_members = [2, 3, 4], ci_max_faults = 1, ci_epoch = 2, ci_joint = None\<rparr>"

definition leaving_decision :: "SlotIndex \<Rightarrow> nat \<Rightarrow> ReplicaId \<Rightarrow> nat Decision" where
  "leaving_decision slot v r = \<lparr>dec_slot = slot, dec_value_ids = [v], dec_proposer = r, dec_decided_step = 4\<rparr>"

definition leaving_recorder :: "nat RecorderCore" where
  "leaving_recorder = \<lparr>rc_config = \<lparr>cfg_id = 2, cfg_cluster = leaving_joint, cfg_limits = limits_default\<rparr>, rc_slots = [],
     rc_round_one_leaders = [], rc_decisions = [(1, leaving_decision 1 7 1), (2, leaving_decision 2 9 2)], rc_pruned_through = 0\<rparr>"

lemma restart_rejects_removed_proposer:
  "\<exists>rc. recorder_inv leaving_recorder
     \<and> recorder_install_membership leaving_recorder \<lparr>ch_anchor = leaving_decision 2 9 2, ch_next = leaving_final, ch_command_id = 9\<rparr> = (Inr (), rc)
     \<and> recorder_restore (rc_config rc) (recorder_snapshot rc) = Inl (InvalidSender 1)"
proof -
  let ?rc = "leaving_recorder\<lparr>rc_config := (rc_config leaving_recorder)\<lparr>cfg_cluster := leaving_final\<rparr>\<rparr>"
  note defs = leaving_recorder_def leaving_decision_def leaving_joint_def leaving_final_def limits_default_def
  have "is_successor_of leaving_final leaving_joint"
    using finalize_joint_successor [of leaving_joint leaving_final]
    by (simp add: defs finalize_joint_def cluster_stable_Inr usize_max_def checked_add_def is_well_formed_joint
        members_are_normalized_def windows2_def insert_commute)
  then have "recorder_install_membership leaving_recorder \<lparr>ch_anchor = leaving_decision 2 9 2, ch_next = leaving_final, ch_command_id = 9\<rparr> = (Inr (), ?rc)"
    by (simp add: recorder_install_membership_def validate_binding_def Let_def leaving_recorder_def leaving_decision_def)
  moreover have "recorder_inv leaving_recorder"
    by (simp add: recorder_inv_def bt_wf_def defs validate_decision_def config_contains_def cluster_contains_def)
  moreover have "recorder_restore (rc_config ?rc) (recorder_snapshot ?rc) = Inl (InvalidSender 1)"
    by (simp add: recorder_restore_def recorder_snapshot_def bt_map_values_def validate_decision_def
      config_contains_def cluster_contains_def defs)
  ultimately show ?thesis by blast
qed

end
