(* ===== verification/QP_Proposer.thy ===== *)
theory QP_Proposer
  imports QP_Recorder
begin

unbundle bit_operations_syntax

text \<open>
  The synchronous proposer of \<open>src/proposer.rs\<close>: priority sources, recorder handles, the quorum
  collection and Algorithm 4. What a phase of the algorithm gets from outside (which workers
  start, what arrives on the channel and in which order, time-outs) is data given to the model, one
  \<open>iteration\<close> record per pass of the loop.
\<close>

section \<open>Priority sources\<close>

text \<open>
  \<open>OsRandom\<close> reads \<open>/dev/urandom\<close>: the source is the list of what successive reads deliver. The rejection
  loop ends with \<open>None\<close> only when the list runs out, that is while it is still reading.
\<close>

fun os_sample :: "u64 \<Rightarrow> u64 \<Rightarrow> u64 result list \<Rightarrow> (Priority result \<times> u64 result list) option" where
  "os_sample span cutoff [] = None"
| "os_sample span cutoff (Inl e # source) = Some (Inl e, source)"
| "os_sample span cutoff (Inr value # source) =
     (if value < cutoff then Some (Inr (value mod span + 1), source) else os_sample span cutoff source)"

definition os_cutoff :: "u64 \<Rightarrow> u64" where
  "os_cutoff span = u64_max - u64_max mod span"

definition os_next_below :: "u64 result list \<Rightarrow> Priority \<Rightarrow> (Priority result \<times> u64 result list) option" where
  "os_next_below source upper =
     (if upper \<le> 1 then Some (Inl (InvalidProposal ''priority range must reserve zero and the leader priority''), source)
      else os_sample (upper - 1) (os_cutoff (upper - 1)) source)"

record XorShift64 =
  xs_state :: u64

definition xs_new :: "u64 \<Rightarrow> XorShift64" where
  "xs_new seed = \<lparr>xs_state = max seed 1\<rparr>"

definition mix_seed :: "u64 \<Rightarrow> u64" where
  "mix_seed v =
     (let v = v XOR drop_bit 30 v;
          v = v * 0xbf58476d1ce4e5b9;
          v = v XOR drop_bit 27 v;
          v = v * 0x94d049bb133111eb
      in v XOR drop_bit 31 v)"

definition xs_new_for_stream :: "u64 \<Rightarrow> ReplicaId \<Rightarrow> LaneId \<Rightarrow> XorShift64" where
  "xs_new_for_stream seed r l =
     xs_new (mix_seed (seed XOR (r * 0x9e3779b97f4a7c15) XOR (l * 0xbf58476d1ce4e5b9)))"

definition xs_next_below :: "XorShift64 \<Rightarrow> Priority \<Rightarrow> Priority result \<times> XorShift64" where
  "xs_next_below g upper =
     (if upper \<le> 1 then (Inl (InvalidProposal ''priority range must reserve zero and the leader priority''), g)
      else
        let x = xs_state g;
            x = x XOR push_bit 13 x;
            x = x XOR drop_bit 7 x;
            x = x XOR push_bit 17 x
        in (Inr (x mod (upper - 1) + 1), g\<lparr>xs_state := x\<rparr>))"

section \<open>Recorder handles\<close>

text \<open>A handle admits one RPC at a time: the flag is set by \<open>try_begin\<close> and cleared when the worker ends.\<close>

record 'c RecorderHandle =
  rh_id :: ReplicaId
  rh_client :: 'c
  rh_poisoned :: bool
  rh_in_flight :: bool

definition handle_new :: "ReplicaId \<Rightarrow> 'c \<Rightarrow> 'c RecorderHandle" where
  "handle_new i c = \<lparr>rh_id = i, rh_client = c, rh_poisoned = False, rh_in_flight = False\<rparr>"

definition handle_is_idle :: "'c RecorderHandle \<Rightarrow> bool" where
  "handle_is_idle h = (\<not> rh_in_flight h)"

definition try_begin :: "'c RecorderHandle \<Rightarrow> bool \<times> 'c RecorderHandle" where
  "try_begin h = (if rh_in_flight h then (False, h) else (True, h\<lparr>rh_in_flight := True\<rparr>))"

definition handle_release :: "'c RecorderHandle \<Rightarrow> 'c RecorderHandle" where
  "handle_release h = h\<lparr>rh_in_flight := False\<rparr>"

text \<open>
  One RPC on the worker thread: the operation either returns with the client it leaves, or panics
  (\<open>None\<close>), which poisons the lock. The guard clears the flag on every path.
\<close>

definition run_worker ::
  "('c \<Rightarrow> ('a result \<times> 'c) option) \<Rightarrow> 'c RecorderHandle \<Rightarrow> 'a result \<times> 'c RecorderHandle" where
  "run_worker operation h =
     (if rh_poisoned h then (Inl (TransportError ''recorder client lock was poisoned''), handle_release h)
      else case operation (rh_client h) of
        Some (r, c) \<Rightarrow> (r, handle_release (h\<lparr>rh_client := c\<rparr>))
      | None \<Rightarrow> (Inl (TransportError ''recorder client panicked while handling an RPC''),
                 handle_release (h\<lparr>rh_poisoned := True\<rparr>)))"

text \<open>How the caller's wait ends: the answer arrives, or the time-out comes first and the worker goes on.\<close>

datatype worker_wait = SpawnFailed | Answered | StillRunning

definition call_with_timeout ::
  "worker_wait \<Rightarrow> ('c \<Rightarrow> ('a result \<times> 'c) option) \<Rightarrow> 'c RecorderHandle \<Rightarrow> 'a result \<times> 'c RecorderHandle" where
  "call_with_timeout wait operation h =
     (let (began, h') = try_begin h in
      if \<not> began then
        (Inl (TransportError (''recorder '' @ show_u64 (rh_id h) @ '' already has an RPC in flight'')), h)
      else case wait of
        SpawnFailed \<Rightarrow> (Inl (TransportError ''could not start recorder RPC worker''), handle_release h')
      | Answered \<Rightarrow> run_worker operation h'
      | StillRunning \<Rightarrow> (Inl (TransportError ''recorder RPC exceeded its transport timeout''), h'))"

section \<open>Configuration\<close>

text \<open>Durations are in nanoseconds.\<close>

record ProposerConfig =
  pc_max_steps :: u64
  pc_quorum :: "usize option"
  pc_cluster :: "ClusterIdentity option"
  pc_rpc_timeout :: nat

definition proposer_config_default :: ProposerConfig where
  "proposer_config_default = \<lparr>pc_max_steps = 1027, pc_quorum = None, pc_cluster = None,
                              pc_rpc_timeout = 30 * 10 ^ 9\<rparr>"

record 'g ProposerCore =
  pr_replica_id :: ReplicaId
  pr_lane_id :: LaneId
  pr_rng :: 'g
  pr_config :: ProposerConfig

definition proposer_with_rng :: "ReplicaId \<Rightarrow> LaneId \<Rightarrow> 'g \<Rightarrow> 'g ProposerCore" where
  "proposer_with_rng r l g = \<lparr>pr_replica_id = r, pr_lane_id = l, pr_rng = g, pr_config = proposer_config_default\<rparr>"

definition with_config :: "'g ProposerCore \<Rightarrow> ProposerConfig \<Rightarrow> 'g ProposerCore" where
  "with_config pr cfg = pr\<lparr>pr_config := cfg\<rparr>"

definition with_quorum :: "'g ProposerCore \<Rightarrow> usize \<Rightarrow> 'g ProposerCore" where
  "with_quorum pr q = pr\<lparr>pr_config := (pr_config pr)\<lparr>pc_quorum := Some q\<rparr>\<rparr>"

definition with_cluster :: "'g ProposerCore \<Rightarrow> ClusterIdentity \<Rightarrow> 'g ProposerCore" where
  "with_cluster pr c = pr\<lparr>pr_config := (pr_config pr)\<lparr>pc_quorum := Some (cluster_quorum_size c), pc_cluster := Some c\<rparr>\<rparr>"

definition with_rpc_timeout :: "'g ProposerCore \<Rightarrow> nat \<Rightarrow> 'g ProposerCore" where
  "with_rpc_timeout pr t = pr\<lparr>pr_config := (pr_config pr)\<lparr>pc_rpc_timeout := max t (10 ^ 6)\<rparr>\<rparr>"

definition configure_cluster :: "'g ProposerCore \<Rightarrow> ClusterIdentity \<Rightarrow> 'g ProposerCore" where
  "configure_cluster pr c =
     pr\<lparr>pr_config := (pr_config pr)\<lparr>pc_quorum := Some (cluster_quorum_size c), pc_cluster := Some c\<rparr>\<rparr>"

definition quorum_size :: "usize \<Rightarrow> usize result" where
  "quorum_size n = (if n = 0 then Inl EmptyCluster else Inr (n div 2 + 1))"

definition validate_recorders ::
  "ReplicaId list \<Rightarrow> ReplicaId \<Rightarrow> usize option \<Rightarrow> ClusterIdentity option \<Rightarrow> usize result" where
  "validate_recorders recorders proposer configured_quorum expected_cluster =
     rbind (quorum_size (length recorders)) (\<lambda>majority.
     case find_repeated recorders of
       Some r \<Rightarrow> Inl (DuplicateReplica r)
     | None \<Rightarrow>
       if proposer \<notin> set recorders then Inl (UnknownReplica proposer)
       else
         rbind (case expected_cluster of
             None \<Rightarrow> Inr ()
           | Some c \<Rightarrow>
               if set recorders \<noteq> set (ci_members c) then Inl ConfigurationMismatch
               else if configured_quorum \<noteq> Some (cluster_quorum_size c)
                 then Inl (InvalidQuorum (length recorders) (case configured_quorum of Some q \<Rightarrow> q | None \<Rightarrow> majority))
               else Inr ()) (\<lambda>_.
         case configured_quorum of
           Some q \<Rightarrow> if q < majority \<or> q > length recorders then Inl (InvalidQuorum (length recorders) q) else Inr q
         | None \<Rightarrow> Inr majority))"

section \<open>Collecting a quorum\<close>

definition quorum_reached :: "'v RecordReply list \<Rightarrow> usize \<Rightarrow> ClusterIdentity option \<Rightarrow> bool" where
  "quorum_reached replies quorum expected_cluster =
     (case expected_cluster of
        None \<Rightarrow> length replies \<ge> quorum
      | Some c \<Rightarrow> has_quorum c (map rep_recorder replies))"

text \<open>
  What the channel yields, in order: a worker's answer under the identity its handle was bound to,
  or the deadline. The end of the list is the channel with every sender gone.
\<close>

datatype 'v arrival = Arrived ReplicaId "'v RecordReply result" | TimedOut

definition fatal_reply_error :: "QuePaxaError \<Rightarrow> bool" where
  "fatal_reply_error e =
     (case e of ConflictingDecision _ \<Rightarrow> True | SlotPruned _ \<Rightarrow> True | ScheduleMismatch _ \<Rightarrow> True
      | ConfigurationMismatch \<Rightarrow> True | _ \<Rightarrow> False)"

fun collect_loop ::
  "usize \<Rightarrow> ClusterIdentity option \<Rightarrow> usize \<Rightarrow> 'v RecordReply list \<Rightarrow> ReplicaId set \<Rightarrow> 'v arrival list \<Rightarrow>
   'v RecordReply list result" where
  "collect_loop quorum cluster pending replies seen [] =
     (if quorum_reached replies quorum cluster then Inr replies
      else Inl (TransportError ''all recorder workers exited before replying''))"
| "collect_loop quorum cluster pending replies seen (TimedOut # arrivals) =
     (if quorum_reached replies quorum cluster then Inr replies
      else Inl (QuorumNotReached quorum (length replies)))"
| "collect_loop quorum cluster pending replies seen (Arrived expected result # arrivals) =
     (if quorum_reached replies quorum cluster then Inr replies
      else case result of
        Inr reply \<Rightarrow>
          if rep_recorder reply \<noteq> expected then Inl (InvalidRecorderReply expected (rep_recorder reply))
          else if (case cluster of Some c \<Rightarrow> rep_cluster reply \<noteq> c | None \<Rightarrow> False) then Inl ConfigurationMismatch
          else if rep_recorder reply \<in> seen then Inl (DuplicateRecorderReply (rep_recorder reply))
          else collect_loop quorum cluster (pending - 1) (replies @ [reply]) (insert (rep_recorder reply) seen) arrivals
      | Inl e \<Rightarrow>
          if fatal_reply_error e then Inl e
          else if length replies + (pending - 1) < quorum then Inl (QuorumNotReached quorum (length replies))
          else collect_loop quorum cluster (pending - 1) replies seen arrivals)"

text \<open>
  One pass of the loop as the environment shapes it: which handles were idle and got a worker,
  whether the deadline is representable, and the arrivals.
\<close>

record 'v iteration =
  it_starts :: "ReplicaId \<Rightarrow> bool"
  it_deadline_ok :: bool
  it_arrivals :: "'v arrival list"

definition collect_quorum ::
  "(ReplicaId \<times> 'v RecordRequest) list \<Rightarrow> usize \<Rightarrow> ClusterIdentity option \<Rightarrow> 'v iteration \<Rightarrow> 'v RecordReply list result" where
  "collect_quorum requests quorum cluster it =
     (let launched = length (filter (\<lambda>(r, _). it_starts it r) requests) in
      if launched < quorum then Inl (QuorumNotReached quorum launched)
      else if \<not> it_deadline_ok it then Inl (TransportError ''recorder RPC timeout exceeds the clock range'')
      else collect_loop quorum cluster launched [] {} (it_arrivals it))"

section \<open>Algorithm 4\<close>

definition fast_path_winner :: "Step \<Rightarrow> 'v RecordReply list \<Rightarrow> ReplicaId option \<Rightarrow> 'v Proposal option" where
  "fast_path_winner step replies leader =
     (if step \<noteq> ROUND_ONE_PHASE_ZERO then None
      else case replies of
        [] \<Rightarrow> None
      | reply # _ \<Rightarrow>
        (case sum_first (rep_summary reply) of
           None \<Rightarrow> None
         | Some winner \<Rightarrow>
             if \<not> is_leader_priority (priority (prop_key winner)) then None
             else if leader \<noteq> Some (proposer_id (prop_key winner)) then None
             else if list_all (\<lambda>r. case sum_first (rep_summary r) of
                        Some p \<Rightarrow> prop_key p = prop_key winner | None \<Rightarrow> False) replies
             then Some winner else None))"

text \<open>The requests of one phase; only a phase zero that is not the leader's own first draws priorities.\<close>

fun build_requests ::
  "('g \<Rightarrow> Priority \<Rightarrow> Priority result \<times> 'g) \<Rightarrow> 'g \<Rightarrow> bool \<Rightarrow> 'v RecordRequest \<Rightarrow> ReplicaId list \<Rightarrow>
   (ReplicaId \<times> 'v RecordRequest) list result \<times> 'g" where
  "build_requests next_below g draw base [] = (Inr [], g)"
| "build_requests next_below g draw base (r # recorders) =
     sbind (if draw then sbind (next_below g PRIORITY_MAX) (\<lambda>p g. (Inr (with_priority (req_proposal base) p), g))
            else (Inr (req_proposal base), g)) (\<lambda>proposal g.
     sbind (build_requests next_below g draw base recorders) (\<lambda>rest g.
     (Inr ((r, base\<lparr>req_proposal := proposal\<rparr>) # rest), g)))"

definition draws_priorities :: "Step \<Rightarrow> ReplicaId option \<Rightarrow> ReplicaId \<Rightarrow> bool" where
  "draws_priorities step leader self =
     (step_phase step = 0 \<and> (step > ROUND_ONE_PHASE_ZERO \<or> leader \<noteq> Some self))"

text \<open>\<open>max_by_key\<close> returns the last of several greatest elements.\<close>

definition max_step_reply :: "'v RecordReply list \<Rightarrow> 'v RecordReply option" where
  "max_step_reply replies =
     foldl (\<lambda>best r. case best of
              None \<Rightarrow> Some r
            | Some b \<Rightarrow> if sum_step (rep_summary b) > sum_step (rep_summary r) then Some b else Some r) None replies"

datatype 'v outcome = Finished "'v Decision result" | Continue Step "'v Proposal"

definition filter_some :: "('a \<Rightarrow> 'b option) \<Rightarrow> 'a list \<Rightarrow> 'b list" where
  "filter_some f xs = concat (map (\<lambda>x. option_list (f x)) xs)"

definition next_step :: "Step \<Rightarrow> 'v Proposal \<Rightarrow> 'v outcome" where
  "next_step step proposal =
     (case step_checked_next step of None \<Rightarrow> Finished (Inl StepOverflow) | Some s \<Rightarrow> Continue s proposal)"

definition complete_phase ::
  "SlotIndex \<Rightarrow> ReplicaId option \<Rightarrow> Step \<Rightarrow> 'v Proposal \<Rightarrow> 'v RecordReply list \<Rightarrow> 'v outcome" where
  "complete_phase slot leader step proposal replies =
     (if step_phase step = 0 then
        (case fast_path_winner step replies leader of
           Some w \<Rightarrow> Finished (decision_new slot (prop_value_ids w) (proposer_id (prop_key w)) step)
         | None \<Rightarrow>
             (case max_proposal_by_key (filter_some (\<lambda>r. sum_first (rep_summary r)) replies) of
                None \<Rightarrow> Finished (Inl MissingProposal)
              | Some p \<Rightarrow> next_step step p))
      else if step_phase step = 1 then next_step step proposal
      else if step_phase step = 2 then
        (if max_proposal_by_key (filter_some (\<lambda>r. sum_prior_aggregate (rep_summary r)) replies) = Some proposal
         then Finished (decision_new slot (prop_value_ids proposal) (proposer_id (prop_key proposal)) step)
         else next_step step proposal)
      else
        (case max_proposal_by_key (filter_some (\<lambda>r. sum_prior_aggregate (rep_summary r)) replies) of
           Some p \<Rightarrow> next_step step p
         | None \<Rightarrow> next_step step proposal))"

definition handle_replies ::
  "SlotIndex \<Rightarrow> ReplicaId option \<Rightarrow> Step \<Rightarrow> 'v Proposal \<Rightarrow> 'v RecordReply list \<Rightarrow> 'v outcome" where
  "handle_replies slot leader step proposal replies =
     (case find_map rep_decision replies of
        Some d \<Rightarrow>
          if dec_slot d \<noteq> slot \<or> dec_value_ids d = []
          then Finished (Inl (InvalidProposal ''recorder reported a decision for a different slot''))
          else Finished (Inr d)
      | None \<Rightarrow>
          if list_all (\<lambda>r. sum_step (rep_summary r) = step) replies then complete_phase slot leader step proposal replies
          else (case max_step_reply replies of
              None \<Rightarrow> Continue step proposal
            | Some r \<Rightarrow>
                if sum_step (rep_summary r) > step then
                  (case sum_first (rep_summary r) of
                     None \<Rightarrow> Finished (Inl MissingProposal)
                   | Some p \<Rightarrow> Continue (sum_step (rep_summary r)) p)
                else Continue step proposal))"

text \<open>The checks before the loop; they yield the quorum and the first proposal.\<close>

definition propose_init ::
  "'g ProposerCore \<Rightarrow> 'v list \<Rightarrow> ReplicaId option \<Rightarrow> ReplicaId list \<Rightarrow> 'v Decision list \<Rightarrow> (usize \<times> 'v Proposal) result" where
  "propose_init pr value_ids leader recorders known =
     rbind (validate_recorders recorders (pr_replica_id pr) (pc_quorum (pr_config pr)) (pc_cluster (pr_config pr))) (\<lambda>quorum.
     case find (\<lambda>l. l \<notin> set recorders) (option_list leader) of
       Some l \<Rightarrow> Inl (UnknownReplica l)
     | None \<Rightarrow>
       (case find (\<lambda>d. dec_proposer d \<notin> set recorders) known of
          Some d \<Rightarrow> Inl (InvalidSender (dec_proposer d))
        | None \<Rightarrow>
            rbind (proposal_new (ProposalKey PRIORITY_MAX (pr_replica_id pr) (pr_lane_id pr)) value_ids) (\<lambda>p.
            Inr (quorum, p))))"

definition phase_request ::
  "'g ProposerCore \<Rightarrow> SlotIndex \<Rightarrow> ReplicaId option \<Rightarrow> Step \<Rightarrow> 'v Proposal \<Rightarrow> 'v Decision list \<Rightarrow> 'v RecordRequest" where
  "phase_request pr slot leader step proposal known =
     \<lparr>req_sender = pr_replica_id pr, req_slot = slot, req_round_one_leader = leader, req_step = step,
      req_proposal = proposal, req_known_decisions = known\<rparr>"

type_synonym 'v reaction = "(ReplicaId \<times> 'v RecordRequest) list \<Rightarrow> 'v iteration"

text \<open>The loop. The environment reacts to the requests of each pass. The result is \<open>None\<close> while the
  proposer still waits for its environment.\<close>

fun propose_loop ::
  "('g \<Rightarrow> Priority \<Rightarrow> Priority result \<times> 'g) \<Rightarrow> 'g ProposerCore \<Rightarrow> usize \<Rightarrow> SlotIndex \<Rightarrow> ReplicaId option \<Rightarrow>
   ReplicaId list \<Rightarrow> 'v Decision list \<Rightarrow> Step \<Rightarrow> 'v Proposal \<Rightarrow> 'v reaction list \<Rightarrow>
   'v Decision result option \<times> 'g ProposerCore" where
  "propose_loop next_below pr quorum slot leader recorders known step proposal [] =
     (if step \<le> pc_max_steps (pr_config pr) then (None, pr)
      else (Some (Inl (StepLimitExceeded (pc_max_steps (pr_config pr)))), pr))"
| "propose_loop next_below pr quorum slot leader recorders known step proposal (react # its) =
     (if step \<le> pc_max_steps (pr_config pr) then
        let (built, g) = build_requests next_below (pr_rng pr) (draws_priorities step leader (pr_replica_id pr))
                           (phase_request pr slot leader step proposal known) recorders;
            pr' = pr\<lparr>pr_rng := g\<rparr>
        in case rbind built (\<lambda>requests. collect_quorum requests quorum (pc_cluster (pr_config pr)) (react requests)) of
             Inl e \<Rightarrow> (Some (Inl e), pr')
           | Inr replies \<Rightarrow>
               (case handle_replies slot leader step proposal replies of
                  Finished r \<Rightarrow> (Some r, pr')
                | Continue s p \<Rightarrow> propose_loop next_below pr' quorum slot leader recorders [] s p its)
      else (Some (Inl (StepLimitExceeded (pc_max_steps (pr_config pr)))), pr))"

definition propose ::
  "('g \<Rightarrow> Priority \<Rightarrow> Priority result \<times> 'g) \<Rightarrow> 'g ProposerCore \<Rightarrow> SlotIndex \<Rightarrow> 'v list \<Rightarrow> ReplicaId option \<Rightarrow>
   ReplicaId list \<Rightarrow> 'v Decision list \<Rightarrow> 'v reaction list \<Rightarrow> 'v Decision result option \<times> 'g ProposerCore" where
  "propose next_below pr slot value_ids leader recorders known its =
     (case propose_init pr value_ids leader recorders known of
        Inl e \<Rightarrow> (Some (Inl e), pr)
      | Inr (quorum, p) \<Rightarrow>
          propose_loop next_below pr quorum slot leader recorders known ROUND_ONE_PHASE_ZERO p its)"

section \<open>Priority sources stay below the reserved priority\<close>

locale priority_source =
  fixes next_below :: "'g \<Rightarrow> Priority \<Rightarrow> Priority result \<times> 'g"
  assumes next_below_range: "next_below g upper = (Inr p, g') \<Longrightarrow> 0 < p \<and> p < upper"

lemma mod_succ_range:
  fixes x u :: u64
  assumes "1 < u"
  shows "0 < x mod (u - 1) + 1 \<and> x mod (u - 1) + 1 < u"
proof -
  have u: "unat (u - 1) = unat u - 1"
    using assms by (metis order_less_imp_le unat_1 unat_sub)
  then have g: "0 < unat (u - 1)" using assms by (simp add: word_less_nat_alt)
  have m: "unat (x mod (u - 1)) < unat (u - 1)"
    using g by (simp add: unat_mod_distrib)
  moreover have "unat u < 2 ^ LENGTH(64)" by (rule unsigned_less)
  ultimately have "unat (x mod (u - 1)) + 1 < 2 ^ 64" using u by simp
  then have "unat (x mod (u - 1) + 1) = unat (x mod (u - 1)) + 1"
    by (simp add: unat_word_ariths)
  then show ?thesis using m u by (simp add: word_less_nat_alt)
qed

interpretation xs: priority_source xs_next_below
  by unfold_locales (auto simp: xs_next_below_def Let_def not_le split: if_splits dest: mod_succ_range)

lemma os_sample_range:
  "os_sample span c source = Some (Inr p, rest) \<Longrightarrow> \<exists>v < c. p = v mod span + 1"
  by (induction span c source rule: os_sample.induct) (auto split: if_splits)

lemma os_next_below_range:
  assumes "os_next_below source upper = Some (Inr p, rest)"
  shows "0 < p \<and> p < upper"
  using assms mod_succ_range by (auto simp: os_next_below_def not_le split: if_splits dest!: os_sample_range)

lemma os_sample_returns:
  "\<exists>x \<in> set source. case x of Inl _ \<Rightarrow> True | Inr v \<Rightarrow> v < c \<Longrightarrow> \<exists>r. os_sample span c source = Some r"
  by (induction span c source rule: os_sample.induct) (auto split: if_splits)

lemma os_cutoff_nat:
  assumes "0 < span"
  shows "unat (os_cutoff span) = (2 ^ 64 - 1) div unat span * unat span"
proof -
  have "unat (u64_max mod span) = (2 ^ 64 - 1) mod unat span"
    by (simp add: unat_mod_distrib unat_u64_max)
  moreover have "u64_max mod span \<le> u64_max" by simp
  ultimately have "unat (os_cutoff span) = (2 ^ 64 - 1) - (2 ^ 64 - 1) mod unat span"
    by (simp only: os_cutoff_def unat_sub unat_u64_max)
  then show ?thesis by (metis minus_mod_eq_div_mult)
qed

text \<open>Every priority has the same number of accepted draws.\<close>

lemma residue_count: "0 < n \<Longrightarrow> d < n \<Longrightarrow> card {v::nat. v < k * n \<and> v mod n = d} = k"
proof -
  assume n: "0 < n" and d: "d < n"
  have "{v. v < k * n \<and> v mod n = d} = (\<lambda>i. i * n + d) ` {..<k}"
  proof (safe)
    fix v assume "v < k * n" "d = v mod n"
    then have "v = v div n * n + d" "v div n < k" using n by (auto simp: less_mult_imp_div_less)
    then show "v \<in> (\<lambda>i. i * n + v mod n) ` {..<k}" using \<open>d = v mod n\<close> by blast
  next
    fix i assume "i < k"
    then have "Suc i * n \<le> k * n" by (intro mult_le_mono1) simp
    then show "i * n + d < k * n" using d by simp
  qed (use d in simp)
  moreover have "inj_on (\<lambda>i. i * n + d) {..<k}" using n by (auto simp: inj_on_def)
  ultimately show ?thesis by (simp add: card_image)
qed

lemma os_uniform:
  fixes span d :: u64
  assumes "0 < span" and "d < span"
  shows "card {v. v < os_cutoff span \<and> v mod span = d} = (2 ^ 64 - 1) div unat span"
proof -
  let ?N = "{v::nat. v < (2 ^ 64 - 1) div unat span * unat span \<and> v mod unat span = unat d}"
  have s: "0 < unat span" "unat d < unat span" using assms by (simp_all add: word_less_nat_alt)
  have "bij_betw unat {v. v < os_cutoff span \<and> v mod span = d} ?N"
  proof (rule bij_betw_imageI)
    show "inj_on unat {v. v < os_cutoff span \<and> v mod span = d}"
      by (simp add: inj_on_def word_unat_eq_iff)
    show "unat ` {v. v < os_cutoff span \<and> v mod span = d} = ?N"
    proof (safe)
      fix v assume "v < os_cutoff span" "d = v mod span"
      then show "unat v < (2 ^ 64 - 1) div unat span * unat span" "unat v mod unat span = unat (v mod span)"
        by (simp_all add: word_less_nat_alt os_cutoff_nat [OF assms(1)] unat_mod_distrib)
    next
      fix v :: nat assume v: "v < (2 ^ 64 - 1) div unat span * unat span" "v mod unat span = unat d"
      have "(2 ^ 64 - 1) div unat span * unat span \<le> (2::nat) ^ 64 - 1" by (rule div_times_less_eq_dividend)
      with v have "v < 2 ^ 64" by linarith
      then have u: "unat (of_nat v :: u64) = v" by (simp add: unsigned_of_nat take_bit_nat_eq_self)
      have "(of_nat v :: u64) < os_cutoff span"
        using v u by (simp add: word_less_nat_alt os_cutoff_nat [OF assms(1)])
      moreover have "(of_nat v :: u64) mod span = d"
        using v u by (metis unat_mod_distrib word_unat_eq_iff)
      ultimately show "v \<in> unat ` {v. v < os_cutoff span \<and> v mod span = d}"
        using u by (metis (mono_tags, lifting) image_eqI mem_Collect_eq)
    qed
  qed
  then show ?thesis using residue_count [OF s] by (simp add: bij_betw_same_card)
qed

section \<open>Requests of one phase\<close>

lemma build_requests_recorders:
  "build_requests nb g draw base rs = (Inr reqs, g') \<Longrightarrow> map fst reqs = rs"
  by (induction nb g draw base rs arbitrary: reqs g' rule: build_requests.induct) (auto elim!: sbind_OkE)

lemma build_requests_mem:
  "build_requests nb g draw base rs = (Inr reqs, g') \<Longrightarrow> (r, q) \<in> set reqs \<Longrightarrow>
     r \<in> set rs \<and> (\<exists>p. q = base\<lparr>req_proposal := p\<rparr> \<and>
       (if draw then \<exists>pr h h'. nb h PRIORITY_MAX = (Inr pr, h') \<and> p = with_priority (req_proposal base) pr
        else p = req_proposal base))"
proof (induction rs arbitrary: g reqs)
  case (Cons r' rs)
  from Cons.prems(1) obtain p g1 rest where
    p: "(if draw then sbind (nb g PRIORITY_MAX) (\<lambda>p g. (Inr (with_priority (req_proposal base) p), g)) else (Inr (req_proposal base), g)) = (Inr p, g1)"
    and rest: "build_requests nb g1 draw base rs = (Inr rest, g')" and reqs: "reqs = (r', base\<lparr>req_proposal := p\<rparr>) # rest"
    by (auto elim!: sbind_OkE)
  show ?case
  proof (cases "(r, q) \<in> set rest")
    case True
    then show ?thesis using Cons.IH [OF rest] by simp
  next
    case False
    then have rq: "r = r'" "q = base\<lparr>req_proposal := p\<rparr>" using Cons.prems(2) reqs by auto
    have "if draw then \<exists>pr h h'. nb h PRIORITY_MAX = (Inr pr, h') \<and> p = with_priority (req_proposal base) pr else p = req_proposal base"
      using p by (auto split: if_splits elim!: sbind_OkE)
    then show ?thesis using rq by auto
  qed
qed simp

section \<open>Quorum collection\<close>

lemma collect_loop_ok:
  assumes "collect_loop q C n rs seen arr = Inr out" "seen = rep_recorder ` set rs" "distinct (map rep_recorder rs)"
    "\<forall>r \<in> set rs. P r"
    "\<And>r. Arrived (rep_recorder r) (Inr r) \<in> set arr \<Longrightarrow> (case C of Some c \<Rightarrow> rep_cluster r = c | None \<Rightarrow> True) \<Longrightarrow> P r"
  shows "quorum_reached out q C \<and> distinct (map rep_recorder out) \<and> (\<forall>r \<in> set out. P r)"
  using assms
proof (induction q C n rs seen arr rule: collect_loop.induct)
  case (3 q C n rs seen e res arr)
  show ?case
  proof (cases "quorum_reached rs q C")
    case True
    with 3 show ?thesis by simp
  next
    case nq: False
    show ?thesis
    proof (cases res)
      case (Inl x)
      then show ?thesis using 3 nq by (simp split: if_splits)
    next
      case (Inr r)
      have c: "rep_recorder r = e" "(case C of Some c \<Rightarrow> rep_cluster r = c | None \<Rightarrow> True)" "rep_recorder r \<notin> seen"
        "collect_loop q C (n - 1) (rs @ [r]) (insert (rep_recorder r) seen) arr = Inr out"
        using 3(3) nq Inr by (auto split: if_splits option.splits)
      moreover have "P r" using 3(7) c Inr by simp
      ultimately show ?thesis
        using 3(2) [OF nq Inr] 3(4-7) by (simp split: option.splits)
    qed
  qed
qed (auto split: if_splits)

lemma collect_quorum_ok:
  assumes "collect_quorum requests q C it = Inr out"
  shows "quorum_reached out q C" "distinct (map rep_recorder out)"
    "r \<in> set out \<Longrightarrow> Arrived (rep_recorder r) (Inr r) \<in> set (it_arrivals it)"
    "r \<in> set out \<Longrightarrow> C = Some c \<Longrightarrow> rep_cluster r = c"
proof -
  have l: "collect_loop q C (length (filter (\<lambda>(r, _). it_starts it r) requests)) [] {} (it_arrivals it) = Inr out"
    using assms by (simp add: collect_quorum_def Let_def split: if_splits)
  let ?P = "\<lambda>r. Arrived (rep_recorder r) (Inr r) \<in> set (it_arrivals it) \<and> (case C of Some c \<Rightarrow> rep_cluster r = c | None \<Rightarrow> True)"
  have "quorum_reached out q C \<and> distinct (map rep_recorder out) \<and> (\<forall>r \<in> set out. ?P r)"
    by (rule collect_loop_ok [OF l]) auto
  then show "quorum_reached out q C" "distinct (map rep_recorder out)"
    "r \<in> set out \<Longrightarrow> Arrived (rep_recorder r) (Inr r) \<in> set (it_arrivals it)"
    "r \<in> set out \<Longrightarrow> C = Some c \<Longrightarrow> rep_cluster r = c"
    by auto
qed

section \<open>Progress of the loop\<close>

lemma max_step_reply_snoc:
  "max_step_reply (rs @ [r]) = Some (case max_step_reply rs of None \<Rightarrow> r | Some b \<Rightarrow>
     if sum_step (rep_summary b) > sum_step (rep_summary r) then b else r)"
  by (simp add: max_step_reply_def split: option.splits)

lemma max_step_reply_None: "max_step_reply rs = None \<longleftrightarrow> rs = []"
  by (cases rs rule: rev_cases) (simp_all add: max_step_reply_snoc, simp add: max_step_reply_def)

lemma max_step_reply_greatest:
  "max_step_reply rs = Some b \<Longrightarrow> b \<in> set rs \<and> (\<forall>r \<in> set rs. sum_step (rep_summary r) \<le> sum_step (rep_summary b))"
proof (induction rs arbitrary: b rule: rev_induct)
  case (snoc r rs)
  show ?case
  proof (cases "max_step_reply rs")
    case None
    with snoc.prems show ?thesis by (simp add: max_step_reply_snoc max_step_reply_None)
  next
    case (Some a)
    with snoc.IH [OF Some] snoc.prems show ?thesis
      by (auto simp: max_step_reply_snoc split: if_splits intro: order_trans)
  qed
qed (simp add: max_step_reply_def)

lemma next_step_Continue: "next_step s p = Continue s' p' \<longleftrightarrow> unat s' = unat s + 1 \<and> p' = p"
  using step_checked_next_Some [of s s'] by (auto simp: next_step_def split: option.splits)

lemma complete_phase_Continue:
  assumes "complete_phase slot leader step p rs = Continue s' p'"
  shows "unat s' = unat step + 1"
    and "step_phase step = 0 \<Longrightarrow> max_proposal_by_key (filter_some (\<lambda>r. sum_first (rep_summary r)) rs) = Some p'"
    and "step_phase step = 1 \<or> step_phase step = 2 \<Longrightarrow> p' = p"
    and "step_phase step = 3 \<Longrightarrow>
      max_proposal_by_key (filter_some (\<lambda>r. sum_prior_aggregate (rep_summary r)) rs) = Some p' \<or>
      filter_some (\<lambda>r. sum_prior_aggregate (rep_summary r)) rs = []"
  using assms by (auto simp: complete_phase_def next_step_Continue split: if_splits option.splits)

lemma handle_replies_progress:
  assumes "handle_replies slot leader step p rs = Continue s' p'" and "\<forall>r \<in> set rs. step \<le> sum_step (rep_summary r)"
  shows "step < s'"
proof (cases "list_all (\<lambda>r. sum_step (rep_summary r) = step) rs")
  case True
  with assms have "complete_phase slot leader step p rs = Continue s' p'"
    by (auto simp: handle_replies_def split: option.splits if_splits)
  then show ?thesis using complete_phase_Continue(1) by (fastforce simp: word_less_nat_alt)
next
  case False
  then obtain r where r: "r \<in> set rs" "step < sum_step (rep_summary r)"
    using assms(2) by (force simp: list_all_iff order_less_le)
  then have "rs \<noteq> []" by auto
  then obtain b where b: "max_step_reply rs = Some b" using max_step_reply_None by fastforce
  then have "step < sum_step (rep_summary b)" using max_step_reply_greatest [OF b] r by (meson order_less_le_trans)
  with assms(1) b False show ?thesis
    by (auto simp: handle_replies_def split: option.splits if_splits)
qed

text \<open>Recorders that never answer behind the step they were asked about.\<close>

definition honest_reaction :: "'v reaction \<Rightarrow> bool" where
  "honest_reaction react =
     (\<forall>reqs r i. Arrived i (Inr r) \<in> set (it_arrivals (react reqs)) \<longrightarrow>
        (\<exists>q. (i, q) \<in> set reqs \<and> req_step q \<le> sum_step (rep_summary r)))"

lemma propose_loop_returns:
  assumes "\<forall>react \<in> set its. honest_reaction react"
    and "unat (pc_max_steps (pr_config pr)) < unat step + length its"
  shows "\<exists>r. fst (propose_loop nb pr quorum slot leader recorders known step p its) = Some r"
  using assms
proof (induction its arbitrary: pr known step p)
  case Nil
  then show ?case by (simp add: word_le_nat_alt)
next
  case (Cons react its)
  let ?base = "phase_request pr slot leader step p known"
  obtain built g where b: "build_requests nb (pr_rng pr) (draws_priorities step leader (pr_replica_id pr)) ?base recorders = (built, g)"
    by fastforce
  show ?case
  proof (cases "step \<le> pc_max_steps (pr_config pr)")
    case le: True
    show ?thesis
    proof (cases "rbind built (\<lambda>reqs. collect_quorum reqs quorum (pc_cluster (pr_config pr)) (react reqs))")
      case (Inl e)
      with le b show ?thesis by simp
    next
      case (Inr rs)
      then obtain reqs where reqs: "built = Inr reqs" "collect_quorum reqs quorum (pc_cluster (pr_config pr)) (react reqs) = Inr rs"
        by (auto simp: qp_result)
      have "step \<le> sum_step (rep_summary r)" if "r \<in> set rs" for r
      proof -
        have "Arrived (rep_recorder r) (Inr r) \<in> set (it_arrivals (react reqs))"
          by (rule collect_quorum_ok(3) [OF reqs(2) that])
        then obtain q where q: "(rep_recorder r, q) \<in> set reqs" "req_step q \<le> sum_step (rep_summary r)"
          using Cons.prems(1) unfolding honest_reaction_def by (meson list.set_intros(1))
        have "req_step q = step"
          using build_requests_mem [OF b [unfolded reqs(1)] q(1)] by (auto simp: phase_request_def)
        with q show ?thesis by simp
      qed
      then have prog: "handle_replies slot leader step p rs = Continue s' p' \<Longrightarrow> step < s'" for s' p'
        using handle_replies_progress by blast
      show ?thesis
      proof (cases "handle_replies slot leader step p rs")
        case (Continue s' p')
        have "unat (pc_max_steps (pr_config pr)) < unat s' + length its"
          using prog [OF Continue] Cons.prems(2) by (simp add: word_less_nat_alt)
        then show ?thesis
          using Cons.IH [of "pr\<lparr>pr_rng := g\<rparr>" s' "[]" p'] Cons.prems(1) le b Inr Continue by simp
      qed (use le b Inr in simp)
    qed
  qed simp
qed

section \<open>Handles\<close>

lemma call_with_timeout_idle:
  "call_with_timeout wait op h = (r, h') \<Longrightarrow> handle_is_idle h' \<Longrightarrow> handle_is_idle h"
  by (auto simp: call_with_timeout_def try_begin_def handle_is_idle_def split: if_splits)

section \<open>Guarantees\<close>


text \<open>Recorders that do answer, but each a step ahead of the question: the proposer runs into its limit.\<close>

definition racing_reaction :: "nat reaction" where
  "racing_reaction reqs = \<lparr>it_starts = (\<lambda>_. True), it_deadline_ok = True,
     it_arrivals = map (\<lambda>(i, q). Arrived i (Inr \<lparr>rep_recorder = i,
       rep_cluster = \<lparr>ci_members = [1], ci_max_faults = 0, ci_epoch = 0, ci_joint = None\<rparr>,
       rep_summary = \<lparr>sum_step = max (req_step q) (req_step q + 1), sum_first = Some (req_proposal q), sum_prior_aggregate = None\<rparr>,
       rep_decision = None\<rparr>)) reqs\<rparr>"

lemma racing_honest: "honest_reaction racing_reaction"
  by (fastforce simp: honest_reaction_def racing_reaction_def)


text \<open>
  C19: A collected quorum is a quorum. The replies that \<open>collect_quorum\<close> returns come from pairwise
  different recorders, each reply arrived under the identity it claims, all are from the expected
  configuration, and they satisfy the configuration's quorum rule (or the count, without one).
\<close>

theorem collect_quorum_sound:
  assumes "collect_quorum requests quorum expected it = Inr replies"
  shows "distinct (map rep_recorder replies)
    \<and> (\<forall>r \<in> set replies. Arrived (rep_recorder r) (Inr r) \<in> set (it_arrivals it) \<and> (\<forall>c. expected = Some c \<longrightarrow> rep_cluster r = c))
    \<and> (case expected of None \<Rightarrow> quorum \<le> length replies | Some c \<Rightarrow> has_quorum c (map rep_recorder replies))"
  using collect_quorum_ok [OF assms] by (auto simp: quorum_reached_def split: option.splits)

theorem collect_quorum_sound_witness:
  "\<exists>replies. collect_quorum [(1, sample_request 1 None)] 1 None (racing_reaction [(1, sample_request 1 None)]) = Inr replies
     \<and> distinct (map rep_recorder replies) \<and> 1 \<le> length replies"
proof -
  let ?r = "[(1, sample_request 1 None)]"
  obtain replies where s: "collect_quorum ?r 1 None (racing_reaction ?r) = Inr replies"
    by (simp add: collect_quorum_def racing_reaction_def quorum_reached_def)
  from collect_quorum_sound [OF s] s show ?thesis by auto
qed



text \<open>
  C21: One RPC per endpoint. An auxiliary call on a busy handle is refused without touching it; on
  an idle handle the handle is idle again afterwards unless the worker outlived the time-out, and
  only then does it stay busy.
\<close>

theorem one_call_in_flight:
  "(\<not> handle_is_idle h \<longrightarrow> snd (call_with_timeout wait op h) = h \<and> \<not> is_ok (fst (call_with_timeout wait op h)))
   \<and> (handle_is_idle h \<longrightarrow> (handle_is_idle (snd (call_with_timeout wait op h)) \<longleftrightarrow> wait \<noteq> StillRunning))"
  by (cases wait) (auto simp: call_with_timeout_def try_begin_def handle_is_idle_def handle_release_def run_worker_def
      split: option.splits)

theorem one_call_in_flight_witness:
  "\<not> handle_is_idle (snd (call_with_timeout StillRunning (\<lambda>c. Some (Inr (), c)) (handle_new 1 ())))"
  using one_call_in_flight [of "handle_new 1 ()" StillRunning "\<lambda>c. Some (Inr (), c)"]
  by (simp add: handle_new_def handle_is_idle_def)

section \<open>Joint quorums below a majority\<close>

text \<open>
  With old members 1 to 5 and new members 4 to 8, both tolerating two faults, four recorders form
  a joint quorum, but \<open>validate_recorders\<close> insists on a majority of the eight and refuses the
  configuration's own quorum size: no proposer can run in such a joint epoch.
\<close>

lemma joint_quorum_rejected:
  "\<exists>c. is_well_formed c \<and> has_quorum c [4, 5, 3, 6] \<and> cluster_quorum_size c = 4
     \<and> validate_recorders (ci_members c) 4 (Some (cluster_quorum_size c)) (Some c) = Inl (InvalidQuorum 8 4)"
proof -
  let ?c = "\<lparr>ci_members = [1, 2, 3, 4, 5, 6, 7, 8], ci_max_faults = 2, ci_epoch = 1,
     ci_joint = Some \<lparr>jm_old_members = [1, 2, 3, 4, 5], jm_old_max_faults = 2, jm_new_members = [4, 5, 6, 7, 8]\<rparr>\<rparr>"
  have "is_well_formed ?c"
    by (simp add: is_well_formed_joint members_are_normalized_def windows2_def usize_max_def insert_commute)
  moreover have "cluster_quorum_size ?c = 4" "has_quorum ?c [4, 5, 3, 6]"
    by (simp_all add: cluster_quorum_size_def has_quorum_def)
  moreover have "validate_recorders (ci_members ?c) 4 (Some (cluster_quorum_size ?c)) (Some ?c) = Inl (InvalidQuorum 8 4)"
    by (simp add: validate_recorders_def quorum_size_def find_repeated_def cluster_quorum_size_def)
  ultimately show ?thesis by blast
qed

end
