(* ===== verification/QP_Safety.thy ===== *)
theory QP_Safety
  imports Main
begin

text \<open>
  The safety argument of interval-summary consensus, stated once over what recorders accepted and
  how each acceptance was justified. A step \<open>n\<close> belongs to round \<open>n div 4\<close>, phase \<open>n mod 4\<close>. Nothing here
  depends on messages or on the order of events: the laws describe one state of the system, and the
  system's theory proves that every reachable state satisfies them.
\<close>

locale interval_consensus =
  fixes inv :: "'s \<Rightarrow> bool"
    and quorum :: "'s \<Rightarrow> 'r set \<Rightarrow> bool"
    and acc :: "'s \<Rightarrow> 'r \<Rightarrow> nat \<Rightarrow> 'p \<Rightarrow> bool"
    and first :: "'s \<Rightarrow> 'r \<Rightarrow> nat \<Rightarrow> 'p option"
    and bound :: "'s \<Rightarrow> 'r \<Rightarrow> 'l \<Rightarrow> bool"
    and key :: "'p \<Rightarrow> 'k::linorder"
    and val :: "'p \<Rightarrow> 'v"
    and top :: "'p \<Rightarrow> bool"
    and decided :: "'s \<Rightarrow> nat \<Rightarrow> 'p \<Rightarrow> bool"
  assumes meet: "inv s \<Longrightarrow> quorum s A \<Longrightarrow> quorum s B \<Longrightarrow> A \<inter> B \<noteq> {}"
    and bound_unique: "inv s \<Longrightarrow> bound s i l \<Longrightarrow> bound s i l' \<Longrightarrow> l = l'"
    and key_val: "inv s \<Longrightarrow> acc s i n p \<Longrightarrow> acc s j m q \<Longrightarrow> key p = key q \<Longrightarrow> val p = val q"
    and first_acc: "inv s \<Longrightarrow> first s i n = Some p \<Longrightarrow> acc s i n p"
    and top_greatest: "inv s \<Longrightarrow> bound s i l \<Longrightarrow> bound s j l \<Longrightarrow> acc s i 4 p \<Longrightarrow> top p \<Longrightarrow> acc s j 4 q \<Longrightarrow> key q \<le> key p"
    and just0: "inv s \<Longrightarrow> acc s i n p \<Longrightarrow> n mod 4 = 0 \<Longrightarrow> 4 < n \<Longrightarrow>
      \<exists>Q p'. quorum s Q \<and> val p = val p' \<and> (\<exists>j \<in> Q. acc s j (n - 2) p') \<and> (\<forall>j \<in> Q. \<forall>q. acc s j (n - 2) q \<longrightarrow> key q \<le> key p')"
    and just1: "inv s \<Longrightarrow> acc s i n p \<Longrightarrow> n mod 4 = 1 \<Longrightarrow>
      \<exists>Q l. quorum s Q \<and> (\<exists>j \<in> Q. first s j (n - 1) = Some p) \<and>
        (\<forall>j \<in> Q. bound s j l \<and> (\<exists>f. first s j (n - 1) = Some f \<and> key f \<le> key p))"
    and just23: "inv s \<Longrightarrow> acc s i n p \<Longrightarrow> n mod 4 = 2 \<or> n mod 4 = 3 \<Longrightarrow> \<exists>Q. quorum s Q \<and> (\<forall>j \<in> Q. acc s j (n - 1) p)"
    and decision: "inv s \<Longrightarrow> decided s n p \<Longrightarrow>
      n = 4 \<and> top p \<and> (\<exists>Q l. quorum s Q \<and> (\<exists>j \<in> Q. first s j 4 = Some p) \<and>
        (\<forall>j \<in> Q. bound s j l \<and> (\<exists>f. first s j 4 = Some f \<and> key f = key p))) \<or>
      4 < n \<and> n mod 4 = 2 \<and> (\<exists>Q. quorum s Q \<and> (\<forall>j \<in> Q. acc s j n p \<and> (\<forall>q. acc s j (n - 1) q \<longrightarrow> key q \<le> key p)))"
begin

text \<open>A proposal that reached phase 2 was seen by every quorum's phase-1 aggregate.\<close>

lemma phase2_bounded:
  assumes "inv s" and q: "acc s i n q" "n mod 4 = 2"
    and Q: "quorum s Q" "\<forall>j \<in> Q. \<forall>x. acc s j (n - 1) x \<longrightarrow> key x \<le> key p"
  shows "key q \<le> key p"
proof -
  obtain Q' where "quorum s Q'" "\<forall>j \<in> Q'. acc s j (n - 1) q" using just23 [OF assms(1) q(1)] q(2) by blast
  moreover obtain j where "j \<in> Q" "j \<in> Q'" using meet [OF assms(1) Q(1)] calculation(1) by blast
  ultimately show ?thesis using Q(2) by blast
qed

text \<open>Once every phase-0 acceptance of a round carries one value, so does every later acceptance.\<close>

lemma locked_onwards:
  assumes inv: "inv s" and b: "b mod 4 = 0" "4 < b" and base: "\<And>i q. acc s i b q \<Longrightarrow> val q = v"
  shows "acc s i m q \<Longrightarrow> b \<le> m \<Longrightarrow> val q = v"
proof (induction m arbitrary: i q rule: less_induct)
  case (less m)
  show ?case
  proof (cases "m = b")
    case True
    then show ?thesis using base less.prems(1) by blast
  next
    case False
    then have m: "b < m" "b \<le> m - 1" "m - 1 < m" using less.prems(2) by simp_all
    consider (p0) "m mod 4 = 0" | (p1) "m mod 4 = 1" | (p23) "m mod 4 = 2 \<or> m mod 4 = 3" by linarith
    then show ?thesis
    proof cases
      case p0
      then have "b \<le> m - 2" "m - 2 < m" "4 < m" using m(1) b by presburger+
      then show ?thesis using just0 [OF inv less.prems(1) p0] less.IH [of "m - 2"] by metis
    next
      case p1
      then show ?thesis
        using just1 [OF inv less.prems(1) p1] first_acc [OF inv] less.IH [OF m(3)] m(2) by blast
    next
      case p23
      then obtain Q where Q: "quorum s Q" "\<forall>j \<in> Q. acc s j (m - 1) q"
        using just23 [OF inv less.prems(1)] by blast
      then obtain j where "j \<in> Q" using meet [OF inv Q(1) Q(1)] by blast
      then show ?thesis using Q(2) less.IH [OF m(3)] m(2) by blast
    qed
  qed
qed

text \<open>An ordinary decision locks the next round.\<close>

lemma slow_lock:
  assumes inv: "inv s" and n: "n mod 4 = 2" "4 < n"
    and Q: "quorum s Q" "\<forall>j \<in> Q. acc s j n p \<and> (\<forall>q. acc s j (n - 1) q \<longrightarrow> key q \<le> key p)"
    and q: "acc s i m q" "n + 2 \<le> m"
  shows "val q = val p"
proof (rule locked_onwards [OF inv _ _ _ q])
  show b: "(n + 2) mod 4 = 0" "4 < n + 2" using n by presburger+
  fix i q assume a: "acc s i (n + 2) q"
  obtain Q' p' where Q': "quorum s Q'" "val q = val p'" "\<exists>j \<in> Q'. acc s j n p'"
    "\<forall>j \<in> Q'. \<forall>x. acc s j n x \<longrightarrow> key x \<le> key p'"
    using just0 [OF inv a b] by auto

  obtain j where j: "j \<in> Q" "j \<in> Q'" using meet [OF inv Q(1) Q'(1)] by blast
  have "key p \<le> key p'" using Q'(4) Q(2) j by blast
  moreover have "key p' \<le> key p" using phase2_bounded [OF inv _ n(1) Q(1)] Q'(3) Q(2) by blast
  ultimately have "key p' = key p" by simp
  then show "val q = val p" using key_val [OF inv] Q'(2,3) Q(2) j by metis
qed

text \<open>A fast decision already locks phases 1 and 2 of the first round.\<close>

lemma fast_lock:
  assumes inv: "inv s" and p: "top p" "j0 \<in> Q" "first s j0 4 = Some p"
    and Q: "quorum s Q" "\<forall>j \<in> Q. bound s j l \<and> (\<exists>f. first s j 4 = Some f \<and> key f = key p)"
    and q: "acc s i m q" "m = 5 \<or> m = 6 \<or> 8 \<le> m"
  shows "val q = val p"
proof -
  have a0: "acc s j0 4 p" using first_acc [OF inv p(3)] .
  have five: "val q = val p" if a: "acc s i 5 q" for i q
  proof -
    obtain Q' l' i' where Q': "quorum s Q'" "i' \<in> Q'" "first s i' 4 = Some q"
      "\<forall>j \<in> Q'. bound s j l' \<and> (\<exists>f. first s j 4 = Some f \<and> key f \<le> key q)"
      using just1 [OF inv a] by auto
    obtain j where j: "j \<in> Q" "j \<in> Q'" using meet [OF inv Q(1) Q'(1)] by blast
    then have "l' = l" using bound_unique [OF inv] Q(2) Q'(4) by blast
    have "key p \<le> key q" using Q(2) Q'(4) j by force
    moreover have "key q \<le> key p"
      using top_greatest [OF inv, of j0 l i' p q] Q(2) Q'(2-4) p a0 \<open>l' = l\<close> first_acc [OF inv] by blast
    ultimately show ?thesis using key_val [OF inv a a0] by simp
  qed
  have six: "val q = val p" if a: "acc s i 6 q" for i q
  proof -
    obtain Q' where Q': "quorum s Q'" "\<forall>j \<in> Q'. acc s j 5 q" using just23 [OF inv a] by auto
    then obtain j where "j \<in> Q'" using meet [OF inv Q'(1) Q'(1)] by blast
    then show ?thesis using five Q'(2) by blast
  qed
  have eight: "val q = val p" if a: "acc s i 8 q" for i q
    using just0 [OF inv a] six by auto
  show ?thesis
    using q five six locked_onwards [OF inv _ _ eight, of 8] by fastforce
qed

lemma later_decision:
  assumes inv: "inv s" and "decided s n p" "decided s m q" "n < m"
  shows "val p = val q"
proof -
  have m: "4 < m" "m mod 4 = 2" and q: "\<exists>Q. quorum s Q \<and> (\<forall>j \<in> Q. acc s j m q)"
    using decision [OF inv assms(3)] decision [OF inv assms(2)] assms(4) by auto
  obtain j where j: "acc s j m q" using q meet [OF inv] by blast
  from decision [OF inv assms(2)] show ?thesis
  proof
    assume "n = 4 \<and> top p \<and> (\<exists>Q l. quorum s Q \<and> (\<exists>j \<in> Q. first s j 4 = Some p) \<and>
        (\<forall>j \<in> Q. bound s j l \<and> (\<exists>f. first s j 4 = Some f \<and> key f = key p)))"
    moreover have "m = 6 \<or> 8 \<le> m" using m by presburger
    ultimately show ?thesis using fast_lock [OF inv _ _ _ _ _ j] by metis
  next
    assume d: "4 < n \<and> n mod 4 = 2 \<and> (\<exists>Q. quorum s Q \<and> (\<forall>j \<in> Q. acc s j n p \<and> (\<forall>q. acc s j (n - 1) q \<longrightarrow> key q \<le> key p)))"
    then have "n mod 4 = 2" by blast
    then have "n + 2 \<le> m" using m assms(4) by presburger
    then show ?thesis using d slow_lock [OF inv _ _ _ _ j] by metis
  qed
qed

lemma same_step_decision:
  assumes inv: "inv s" and "decided s n p" "decided s n q"
  shows "val p = val q"
proof (cases "n = 4")
  case True
  obtain Q i where Q: "quorum s Q" "i \<in> Q" "first s i 4 = Some p" "\<forall>j \<in> Q. \<exists>f. first s j 4 = Some f \<and> key f = key p"
    using decision [OF inv assms(2)] True by fastforce
  obtain Q' i' where Q': "quorum s Q'" "i' \<in> Q'" "first s i' 4 = Some q" "\<forall>j \<in> Q'. \<exists>f. first s j 4 = Some f \<and> key f = key q"
    using decision [OF inv assms(3)] True by fastforce
  obtain j where "j \<in> Q" "j \<in> Q'" using meet [OF inv Q(1) Q'(1)] by blast
  then have "key p = key q" using Q(4) Q'(4) by fastforce
  then show ?thesis using key_val [OF inv first_acc [OF inv Q(3)] first_acc [OF inv Q'(3)]] by simp
next
  case False
  obtain Q where Q: "n mod 4 = 2" "quorum s Q" "\<forall>j \<in> Q. acc s j n p \<and> (\<forall>x. acc s j (n - 1) x \<longrightarrow> key x \<le> key p)"
    using decision [OF inv assms(2)] False by blast
  obtain Q' where Q': "quorum s Q'" "\<forall>j \<in> Q'. acc s j n q \<and> (\<forall>x. acc s j (n - 1) x \<longrightarrow> key x \<le> key q)"
    using decision [OF inv assms(3)] False by blast
  obtain j where j: "j \<in> Q" "j \<in> Q'" using meet [OF inv Q(2) Q'(1)] by blast
  have "key q \<le> key p" using phase2_bounded [OF inv _ Q(1,2), of j q] Q(3) Q'(2) j by blast
  moreover have "key p \<le> key q" using phase2_bounded [OF inv _ Q(1) Q'(1), of j p] Q(3) Q'(2) j by blast
  ultimately show ?thesis using key_val [OF inv] Q(3) Q'(2) j by (meson order_antisym)
qed

theorem agreement:
  assumes "inv s" "decided s n p" "decided s m q"
  shows "val p = val q"
  using later_decision [OF assms(1)] same_step_decision [OF assms(1)] assms(2,3)
  by (metis linorder_neqE_nat)

end

end
