(* ===== verification/QP_Evidence.thy ===== *)
theory QP_Evidence
  imports QP_Proposer QP_Safety
begin

text \<open>
  One consensus slot seen from its recorders: the record calls each of them accepted, the evidence
  a proposer's step and proposal rest on, and the proof that these satisfy the laws of the safety
  argument. Evidence is monotone: it survives every later call.
\<close>

section \<open>Deployments\<close>

text \<open>
  What is fixed while the system runs: the configuration, the recorder configurations, the value
  each replica proposes for a slot on each of its lanes (if it does), the one lane on which a replica acts as
  round-one leader, and the priority source.
\<close>

record ('v, 'g) Deployment =
  dp_cluster :: ClusterIdentity
  dp_config :: "ReplicaId \<Rightarrow> RecorderConfig"
  dp_input :: "ReplicaId \<Rightarrow> LaneId \<Rightarrow> SlotIndex \<Rightarrow> 'v list option"
  dp_leader_lane :: "ReplicaId \<Rightarrow> SlotIndex \<Rightarrow> LaneId"
  dp_next_below :: "'g \<Rightarrow> Priority \<Rightarrow> Priority result \<times> 'g"

definition deployment_ok :: "('v, 'g) Deployment \<Rightarrow> bool" where
  "deployment_ok D =
     (is_well_formed (dp_cluster D) \<and> priority_source (dp_next_below D)
      \<and> (\<forall>i. cfg_id (dp_config D i) = i \<and> cfg_cluster (dp_config D i) = dp_cluster D))"

section \<open>What one slot's recorders accepted\<close>

text \<open>The accepted record calls of each recorder for one slot, oldest first.\<close>

type_synonym 'v slot_calls = "ReplicaId \<Rightarrow> 'v RecordRequest list"

definition calls_of :: "'v RecordRequest list \<Rightarrow> 'v call list" where
  "calls_of qs = map (\<lambda>q. (req_step q, req_proposal q)) qs"

definition acc_at :: "'v slot_calls \<Rightarrow> ReplicaId \<Rightarrow> nat \<Rightarrow> 'v Proposal list" where
  "acc_at c j n = hist_at (calls_of (c j)) n"

definition first_at :: "'v slot_calls \<Rightarrow> ReplicaId \<Rightarrow> nat \<Rightarrow> 'v Proposal option" where
  "first_at c j n = (case acc_at c j n of [] \<Rightarrow> None | p # _ \<Rightarrow> Some p)"

definition bound_to :: "'v slot_calls \<Rightarrow> ReplicaId \<Rightarrow> ReplicaId option \<Rightarrow> bool" where
  "bound_to c j l = (l \<in> req_round_one_leader ` set (c j))"

definition passed :: "'v slot_calls \<Rightarrow> ReplicaId \<Rightarrow> nat \<Rightarrow> bool" where
  "passed c j n = (n < unat (hist_step (calls_of (c j))))"

definition quorum_set :: "ClusterIdentity \<Rightarrow> ReplicaId set \<Rightarrow> bool" where
  "quorum_set C Q = (\<exists>vs. Q = set vs \<and> has_quorum C vs)"

definition calls_extend :: "'v slot_calls \<Rightarrow> 'v slot_calls \<Rightarrow> bool" where
  "calls_extend c c' = (\<forall>j. \<exists>qs. c' j = c j @ qs)"

lemma calls_of_append [simp]: "calls_of (qs @ rs) = calls_of qs @ calls_of rs"
  by (simp add: calls_of_def)

lemma calls_extend_refl [simp]: "calls_extend c c"
  by (simp add: calls_extend_def)

lemma calls_extend_upd: "c' = c(j := c j @ qs) \<Longrightarrow> calls_extend c c'"
  by (simp add: calls_extend_def)

lemma calls_extendD: "calls_extend c c' \<Longrightarrow> \<exists>h. calls_of (c' j) = calls_of (c j) @ h"
  unfolding calls_extend_def by (metis calls_of_append)

lemma acc_at_mono: "calls_extend c c' \<Longrightarrow> p \<in> set (acc_at c j n) \<Longrightarrow> p \<in> set (acc_at c' j n)"
  unfolding acc_at_def using calls_extendD [of c c' j] hist_at_mono by fastforce

lemma first_at_mono: "calls_extend c c' \<Longrightarrow> first_at c j n = Some p \<Longrightarrow> first_at c' j n = Some p"
proof -
  assume "calls_extend c c'" and f: "first_at c j n = Some p"
  then obtain h where "calls_of (c' j) = calls_of (c j) @ h" using calls_extendD by blast
  then obtain ps where "acc_at c' j n = acc_at c j n @ ps"
    using hist_at_append_prefix [of "calls_of (c j)" h n] by (auto simp: acc_at_def)
  with f show ?thesis by (cases "acc_at c j n") (auto simp: first_at_def)
qed

lemma bound_to_mono: "calls_extend c c' \<Longrightarrow> bound_to c j l \<Longrightarrow> bound_to c' j l"
  unfolding calls_extend_def bound_to_def by (metis UnCI image_Un set_append)

lemma passed_mono: "calls_extend c c' \<Longrightarrow> passed c j n \<Longrightarrow> passed c' j n"
  unfolding passed_def using calls_extendD [of c c' j] hist_step_append
  by (metis order_less_le_trans word_le_nat_alt)

lemma passed_frozen: "calls_extend c c' \<Longrightarrow> passed c j n \<Longrightarrow> acc_at c' j n = acc_at c j n"
  unfolding passed_def acc_at_def using calls_extendD [of c c' j] hist_at_frozen by fastforce

lemma first_at_acc: "first_at c j n = Some p \<Longrightarrow> p \<in> set (acc_at c j n)"
  by (auto simp: first_at_def split: list.splits)

lemma acc_at_call: "p \<in> set (acc_at c j n) \<Longrightarrow> \<exists>q \<in> set (c j). req_proposal q = p \<and> unat (req_step q) = n"
  unfolding acc_at_def using hist_at_calls [of p "calls_of (c j)" n] by (auto simp: calls_of_def)

section \<open>Evidence\<close>

text \<open>
  Why a proposer may be at step \<open>n\<close> with proposal \<open>p\<close>. Every clause only speaks of what recorders
  have accepted and can no longer lose.
\<close>

definition evidence0 :: "ClusterIdentity \<Rightarrow> 'v slot_calls \<Rightarrow> nat \<Rightarrow> 'v Proposal \<Rightarrow> bool" where
  "evidence0 C c n p =
     (\<exists>Q p'. quorum_set C Q \<and> prop_value_ids p = prop_value_ids p' \<and> (\<exists>j \<in> Q. p' \<in> set (acc_at c j (n - 2)))
       \<and> (\<forall>j \<in> Q. passed c j (n - 2) \<and> (\<forall>q \<in> set (acc_at c j (n - 2)). prop_key q \<le> prop_key p')))"

definition evidence1 :: "ClusterIdentity \<Rightarrow> 'v slot_calls \<Rightarrow> ReplicaId option \<Rightarrow> nat \<Rightarrow> 'v Proposal \<Rightarrow> bool" where
  "evidence1 C c l n p =
     (\<exists>Q. quorum_set C Q \<and> (\<exists>j \<in> Q. first_at c j (n - 1) = Some p)
       \<and> (\<forall>j \<in> Q. bound_to c j l \<and> (\<exists>f. first_at c j (n - 1) = Some f \<and> prop_key f \<le> prop_key p)))"

definition evidence23 :: "ClusterIdentity \<Rightarrow> 'v slot_calls \<Rightarrow> nat \<Rightarrow> 'v Proposal \<Rightarrow> bool" where
  "evidence23 C c n p = (\<exists>Q. quorum_set C Q \<and> (\<forall>j \<in> Q. p \<in> set (acc_at c j (n - 1))))"

definition evidence :: "ClusterIdentity \<Rightarrow> 'v slot_calls \<Rightarrow> ReplicaId option \<Rightarrow> nat \<Rightarrow> 'v Proposal \<Rightarrow> bool" where
  "evidence C c l n p =
     (if n mod 4 = 0 then evidence0 C c n p
      else if n mod 4 = 1 then evidence1 C c l n p
      else evidence23 C c n p)"

lemma evidence_mono:
  assumes x: "calls_extend c c'" and e: "evidence C c l n p"
  shows "evidence C c' l n p"
proof -
  have "evidence0 C c n p \<Longrightarrow> evidence0 C c' n p"
    unfolding evidence0_def using passed_frozen [OF x] passed_mono [OF x] by metis
  moreover have "evidence1 C c l n p \<Longrightarrow> evidence1 C c' l n p"
    unfolding evidence1_def using first_at_mono [OF x] bound_to_mono [OF x] by meson
  moreover have "evidence23 C c n p \<Longrightarrow> evidence23 C c' n p"
    unfolding evidence23_def using acc_at_mono [OF x] by meson
  ultimately show ?thesis using e by (simp add: evidence_def split: if_splits)
qed

text \<open>The value of a proposal is the input of the replica and lane its key names.\<close>

definition has_origin :: "('v, 'g) Deployment \<Rightarrow> SlotIndex \<Rightarrow> 'v Proposal \<Rightarrow> bool" where
  "has_origin D k p = (dp_input D (proposer_id (prop_key p)) (lane_id (prop_key p)) k = Some (prop_value_ids p))"

text \<open>
  What every accepted request satisfies. At step 4 the reserved priority is only used by the
  slot's leader, on its leader lane; at later steps the proposal has its evidence.
\<close>

definition request_ok :: "('v, 'g) Deployment \<Rightarrow> SlotIndex \<Rightarrow> 'v slot_calls \<Rightarrow> 'v RecordRequest \<Rightarrow> bool" where
  "request_ok D k c q =
     (let p = req_proposal q; n = unat (req_step q); l = req_round_one_leader q in
      has_origin D k p \<and> 4 \<le> n
      \<and> (n = 4 \<longrightarrow> priority (prop_key p) = PRIORITY_MAX \<longrightarrow>
           l = Some (proposer_id (prop_key p)) \<and> lane_id (prop_key p) = dp_leader_lane D (proposer_id (prop_key p)) k)
      \<and> (4 < n \<longrightarrow> evidence (dp_cluster D) c l n p))"

definition slot_inv :: "('v, 'g) Deployment \<Rightarrow> SlotIndex \<Rightarrow> 'v slot_calls \<Rightarrow> bool" where
  "slot_inv D k c =
     (is_well_formed (dp_cluster D) \<and>
      (\<forall>j. \<forall>q \<in> set (c j). request_ok D k c q \<and> (\<forall>q' \<in> set (c j). req_round_one_leader q' = req_round_one_leader q)))"

lemma request_ok_mono: "calls_extend c c' \<Longrightarrow> request_ok D k c q \<Longrightarrow> request_ok D k c' q"
  using evidence_mono by (auto simp: request_ok_def Let_def)

text \<open>The two ways a proposer decides.\<close>

definition fast_evidence :: "ClusterIdentity \<Rightarrow> 'v slot_calls \<Rightarrow> 'v Proposal \<Rightarrow> bool" where
  "fast_evidence C c p =
     (is_leader_priority (priority (prop_key p)) \<and>
      (\<exists>Q l. quorum_set C Q \<and> (\<exists>j \<in> Q. first_at c j 4 = Some p)
        \<and> (\<forall>j \<in> Q. bound_to c j l \<and> (\<exists>f. first_at c j 4 = Some f \<and> prop_key f = prop_key p))))"

definition slow_evidence :: "ClusterIdentity \<Rightarrow> 'v slot_calls \<Rightarrow> nat \<Rightarrow> 'v Proposal \<Rightarrow> bool" where
  "slow_evidence C c n p =
     (4 < n \<and> n mod 4 = 2 \<and>
      (\<exists>Q. quorum_set C Q \<and> (\<forall>j \<in> Q. p \<in> set (acc_at c j n) \<and> passed c j (n - 1)
        \<and> (\<forall>q \<in> set (acc_at c j (n - 1)). prop_key q \<le> prop_key p))))"

definition decision_evidence :: "ClusterIdentity \<Rightarrow> 'v slot_calls \<Rightarrow> nat \<Rightarrow> 'v Proposal \<Rightarrow> bool" where
  "decision_evidence C c n p = (n = 4 \<and> fast_evidence C c p \<or> slow_evidence C c n p)"

lemma decision_evidence_mono:
  assumes x: "calls_extend c c'" and e: "decision_evidence C c n p"
  shows "decision_evidence C c' n p"
proof -
  have "fast_evidence C c p \<Longrightarrow> fast_evidence C c' p"
    unfolding fast_evidence_def using first_at_mono [OF x] bound_to_mono [OF x] by meson
  moreover have "slow_evidence C c n p \<Longrightarrow> slow_evidence C c' n p"
    unfolding slow_evidence_def using acc_at_mono [OF x] passed_frozen [OF x] passed_mono [OF x] by metis
  ultimately show ?thesis using e by (auto simp: decision_evidence_def)
qed

lemma quorum_set_meet:
  "is_well_formed C \<Longrightarrow> quorum_set C A \<Longrightarrow> quorum_set C B \<Longrightarrow> A \<inter> B \<noteq> {}"
  unfolding quorum_set_def using cluster.meet by blast

section \<open>The interpretation of the safety argument\<close>

lemma slot_leader:
  "slot_inv D k c \<Longrightarrow> q \<in> set (c j) \<Longrightarrow> bound_to c j l \<Longrightarrow> req_round_one_leader q = l"
  unfolding slot_inv_def bound_to_def by (metis imageE)

lemma slot_request: "slot_inv D k c \<Longrightarrow> q \<in> set (c j) \<Longrightarrow> request_ok D k c q"
  unfolding slot_inv_def by blast

lemma acc_at_request:
  assumes "slot_inv D k c" "p \<in> set (acc_at c j n)"
  obtains q where "q \<in> set (c j)" "req_proposal q = p" "unat (req_step q) = n" "request_ok D k c q"
  using assms acc_at_call [of p c j n] slot_request by blast

lemma acc_at_evidence:
  assumes "slot_inv D k c" "p \<in> set (acc_at c j n)" "4 < n"
  shows "\<exists>l. evidence (dp_cluster D) c l n p"
  using assms(1,2) by (rule acc_at_request) (use assms(3) in \<open>auto simp: request_ok_def Let_def\<close>)

lemma acc_at_step:
  assumes "slot_inv D k c" "p \<in> set (acc_at c j n)"
  shows "4 \<le> n"
  using assms by (rule acc_at_request) (auto simp: request_ok_def Let_def)

lemma slot_bound_unique: "slot_inv D k c \<Longrightarrow> bound_to c j l \<Longrightarrow> bound_to c j l' \<Longrightarrow> l = l'"
  unfolding bound_to_def [of c j l] using slot_leader by fastforce

lemma slot_top_greatest:
  assumes inv: "slot_inv D k c" and b: "bound_to c i l" "bound_to c j l"
    and p: "p \<in> set (acc_at c i 4)" "is_leader_priority (priority (prop_key p))" and q: "q \<in> set (acc_at c j 4)"
  shows "prop_key q \<le> prop_key p"
proof -
  note r = slot_leader [OF inv]
  obtain r where r1: "r \<in> set (c i)" "req_proposal r = p" "unat (req_step r) = 4" "request_ok D k c r"
    using inv p(1) by (rule acc_at_request)
  obtain r' where r2: "r' \<in> set (c j)" "req_proposal r' = q" "unat (req_step r') = 4" "request_ok D k c r'"
    using inv q by (rule acc_at_request)
  show ?thesis
  proof (cases "priority (prop_key q) = PRIORITY_MAX")
    case True
    then have "proposer_id (prop_key q) = proposer_id (prop_key p)" "lane_id (prop_key q) = lane_id (prop_key p)"
      using r1 r2 r [OF r1(1) b(1)] r [OF r2(1) b(2)] p(2)
      by (auto simp: request_ok_def Let_def is_leader_priority_def)
    then show ?thesis using True p(2) by (simp add: less_eq_ProposalKey_def is_leader_priority_def)
  next
    case False
    then have "priority (prop_key q) < PRIORITY_MAX"
      by (simp add: PRIORITY_MAX_def order_less_le)
    then show ?thesis using p(2) by (simp add: less_eq_ProposalKey_def is_leader_priority_def)
  qed
qed

lemma slot_key_val:
  assumes "slot_inv D k c" "p \<in> set (acc_at c i n)" "q \<in> set (acc_at c j m)" "prop_key p = prop_key q"
  shows "prop_value_ids p = prop_value_ids q"
proof -
  have "has_origin D k p" using assms(1,2) by (rule acc_at_request) (auto simp: request_ok_def Let_def)
  moreover have "has_origin D k q" using assms(1,3) by (rule acc_at_request) (auto simp: request_ok_def Let_def)
  ultimately show ?thesis using assms(4) by (simp add: has_origin_def)
qed

interpretation slot: interval_consensus "slot_inv D k" "\<lambda>_. quorum_set (dp_cluster D)"
  "\<lambda>c j n p. p \<in> set (acc_at c j n)" first_at bound_to prop_key prop_value_ids
  "\<lambda>p. is_leader_priority (priority (prop_key p))" "decision_evidence (dp_cluster D)"
  for D :: "('v, 'g) Deployment" and k
proof
  fix c :: "'v slot_calls" and i :: ReplicaId and n p assume inv: "slot_inv D k c"
  have wf: "is_well_formed (dp_cluster D)" using inv by (simp add: slot_inv_def)
  show "quorum_set (dp_cluster D) A \<Longrightarrow> quorum_set (dp_cluster D) B \<Longrightarrow> A \<inter> B \<noteq> {}" for A B
    using quorum_set_meet [OF wf] .
  assume a: "p \<in> set (acc_at c i n)"
  have n4: "4 \<le> n" by (rule acc_at_step [OF inv a])
  note ev = acc_at_evidence [OF inv a]
  show "\<exists>Q p'. quorum_set (dp_cluster D) Q \<and> prop_value_ids p = prop_value_ids p' \<and> (\<exists>j \<in> Q. p' \<in> set (acc_at c j (n - 2)))
      \<and> (\<forall>j \<in> Q. \<forall>q. q \<in> set (acc_at c j (n - 2)) \<longrightarrow> prop_key q \<le> prop_key p')" if "n mod 4 = 0" "4 < n"
    using ev that unfolding evidence_def evidence0_def by auto
  show "\<exists>Q l. quorum_set (dp_cluster D) Q \<and> (\<exists>j \<in> Q. first_at c j (n - 1) = Some p) \<and>
        (\<forall>j \<in> Q. bound_to c j l \<and> (\<exists>f. first_at c j (n - 1) = Some f \<and> prop_key f \<le> prop_key p))" if m: "n mod 4 = 1"
  proof -
    have "4 < n" using m n4 by (cases "n = 4") auto
    then show ?thesis using ev m unfolding evidence_def evidence1_def by auto
  qed
  show "\<exists>Q. quorum_set (dp_cluster D) Q \<and> (\<forall>j \<in> Q. p \<in> set (acc_at c j (n - 1)))" if m: "n mod 4 = 2 \<or> n mod 4 = 3"
  proof -
    have "4 < n" using m n4 by (cases "n = 4") auto
    then show ?thesis using ev m unfolding evidence_def evidence23_def by auto
  qed
qed (auto intro: slot_bound_unique slot_key_val slot_top_greatest first_at_acc
    simp: decision_evidence_def fast_evidence_def slow_evidence_def)

end
