(* ===== verification/QP_Consensus.thy ===== *)
theory QP_Consensus
  imports QP_Evidence
begin

text \<open>
  The running system: any number of concurrent \<open>propose\<close> calls against recorders that share one
  configuration, over an asynchronous network that delays, reorders, repeats and loses messages.
  The events execute the recorder's and the proposer's own definitions. The invariant ties every
  run, request, reply and decision to the recorders' histories, and gives agreement and validity.
\<close>

section \<open>The state\<close>

text \<open>
  A run is one call of \<open>propose\<close>. \<open>run_sent\<close> holds the requests of the pass that is under way; a
  pass ends when its replies have been collected.
\<close>

record ('v, 'g) Run =
  run_proposer :: "'g ProposerCore"
  run_slot :: SlotIndex
  run_leader :: "ReplicaId option"
  run_recorders :: "ReplicaId list"
  run_quorum :: usize
  run_known :: "'v Decision list"
  run_step :: Step
  run_proposal :: "'v Proposal"
  run_pass :: nat
  run_sent :: "(ReplicaId \<times> 'v RecordRequest) list option"
  run_result :: "'v Decision result option"

text \<open>
  Requests and replies carry the run and the pass they belong to, since an RPC answer reaches only
  the call that made it. \<open>sys_calls\<close> is a history variable: the accepted calls per recorder and slot.
\<close>

record ('v, 'g) Sys =
  sys_recorders :: "ReplicaId \<Rightarrow> 'v RecorderCore"
  sys_runs :: "('v, 'g) Run list"
  sys_requests :: "(nat \<times> nat \<times> ReplicaId \<times> 'v RecordRequest) list"
  sys_replies :: "(nat \<times> nat \<times> 'v RecordReply) list"
  sys_calls :: "SlotIndex \<Rightarrow> 'v slot_calls"
  sys_decided :: "'v Decision list"

definition sys_init :: "('v, 'g) Deployment \<Rightarrow> ('v, 'g) Sys" where
  "sys_init D = \<lparr>sys_recorders = (\<lambda>i. recorder_new (dp_config D i)), sys_runs = [], sys_requests = [],
                 sys_replies = [], sys_calls = (\<lambda>_ _. []), sys_decided = []\<rparr>"

section \<open>The events\<close>

datatype ('v, 'g) event =
    Start "'g ProposerCore" SlotIndex "ReplicaId option" "ReplicaId list" "'v Decision list"
  | Send nat
  | Deliver nat nat ReplicaId "'v RecordRequest" "unit result"
  | Collect nat "'v iteration"
  | Inform ReplicaId "'v Decision"
  | Prune ReplicaId SlotIndex

definition start_run ::
  "'g ProposerCore \<Rightarrow> SlotIndex \<Rightarrow> 'v list \<Rightarrow> ReplicaId option \<Rightarrow> ReplicaId list \<Rightarrow> 'v Decision list \<Rightarrow> ('v, 'g) Run" where
  "start_run pr slot value_ids leader recorders known =
     (let p0 = \<lparr>prop_key = ProposalKey PRIORITY_MAX (pr_replica_id pr) (pr_lane_id pr), prop_value_ids = value_ids\<rparr>;
          init = propose_init pr value_ids leader recorders known
      in \<lparr>run_proposer = pr, run_slot = slot, run_leader = leader, run_recorders = recorders,
          run_quorum = (case init of Inr (q, _) \<Rightarrow> q | Inl _ \<Rightarrow> 0), run_known = known,
          run_step = ROUND_ONE_PHASE_ZERO, run_proposal = (case init of Inr (_, p) \<Rightarrow> p | Inl _ \<Rightarrow> p0),
          run_pass = 0, run_sent = None,
          run_result = (case init of Inl e \<Rightarrow> Some (Inl e) | Inr _ \<Rightarrow> None)\<rparr>)"

definition send_run :: "('v, 'g) Deployment \<Rightarrow> ('v, 'g) Run \<Rightarrow> ('v, 'g) Run" where
  "send_run D run =
     (let pr = run_proposer run in
      if run_step run > pc_max_steps (pr_config pr)
      then run\<lparr>run_result := Some (Inl (StepLimitExceeded (pc_max_steps (pr_config pr))))\<rparr>
      else
        let (built, g) = build_requests (dp_next_below D) (pr_rng pr)
              (draws_priorities (run_step run) (run_leader run) (pr_replica_id pr))
              (phase_request pr (run_slot run) (run_leader run) (run_step run) (run_proposal run) (run_known run))
              (run_recorders run);
            run' = run\<lparr>run_proposer := pr\<lparr>pr_rng := g\<rparr>\<rparr>
        in case built of
             Inl e \<Rightarrow> run'\<lparr>run_result := Some (Inl e)\<rparr>
           | Inr requests \<Rightarrow> run'\<lparr>run_sent := Some requests\<rparr>)"

definition collect_run :: "('v, 'g) Run \<Rightarrow> (ReplicaId \<times> 'v RecordRequest) list \<Rightarrow> 'v iteration \<Rightarrow> ('v, 'g) Run" where
  "collect_run run requests it =
     (case collect_quorum requests (run_quorum run) (pc_cluster (pr_config (run_proposer run))) it of
        Inl e \<Rightarrow> run\<lparr>run_result := Some (Inl e)\<rparr>
      | Inr replies \<Rightarrow>
          (case handle_replies (run_slot run) (run_leader run) (run_step run) (run_proposal run) replies of
             Finished r \<Rightarrow> run\<lparr>run_result := Some r\<rparr>
           | Continue s p \<Rightarrow> run\<lparr>run_step := s, run_proposal := p, run_known := [],
                                 run_pass := Suc (run_pass run), run_sent := None\<rparr>))"

definition run_live :: "('v, 'g) Sys \<Rightarrow> nat \<Rightarrow> bool" where
  "run_live s i = (i < length (sys_runs s) \<and> run_result (sys_runs s ! i) = None)"

text \<open>
  One event, or \<open>None\<close> when it is not possible. A started proposer follows the fixed cluster and
  the deployment's inputs, an arriving reply is one its recorder gave to this very pass, and
  decisions are only passed on once made. Requests may be delivered any number of times, in any order.
\<close>

fun sys_step :: "('v, 'g) Deployment \<Rightarrow> ('v, 'g) Sys \<Rightarrow> ('v, 'g) event \<Rightarrow> ('v, 'g) Sys option" where
  "sys_step D s (Start pr slot leader recorders known) =
     (case dp_input D (pr_replica_id pr) (pr_lane_id pr) slot of
        None \<Rightarrow> None
      | Some value_ids \<Rightarrow>
          if pc_cluster (pr_config pr) = Some (dp_cluster D)
             \<and> (leader = Some (pr_replica_id pr) \<longrightarrow> pr_lane_id pr = dp_leader_lane D (pr_replica_id pr) slot)
             \<and> set known \<subseteq> set (sys_decided s)
          then Some (s\<lparr>sys_runs := sys_runs s @ [start_run pr slot value_ids leader recorders known]\<rparr>)
          else None)"
| "sys_step D s (Send i) =
     (if run_live s i \<and> run_sent (sys_runs s ! i) = None then
        let run' = send_run D (sys_runs s ! i) in
        Some (s\<lparr>sys_runs := (sys_runs s)[i := run'],
                sys_requests := sys_requests s @
                  map (\<lambda>(r, q). (i, run_pass run', r, q)) (concat (option_list (run_sent run')))\<rparr>)
      else None)"
| "sys_step D s (Deliver i n r q available) =
     (if (i, n, r, q) \<in> set (sys_requests s) then
        let (reply, core) = record_from (\<lambda>_. available) (sys_recorders s r) (pr_replica_id (run_proposer (sys_runs s ! i))) q;
            s' = s\<lparr>sys_recorders := (sys_recorders s)(r := core)\<rparr>
        in case reply of
             Inl e \<Rightarrow> Some s'
           | Inr rep \<Rightarrow> Some (s'\<lparr>sys_replies := sys_replies s @ [(i, n, rep)],
               sys_calls := (sys_calls s)(req_slot q := (sys_calls s (req_slot q))(r := sys_calls s (req_slot q) r @ [q]))\<rparr>)
      else None)"
| "sys_step D s (Collect i it) =
     (if run_live s i \<and> list_all (\<lambda>a. case a of
             Arrived r (Inr rep) \<Rightarrow> rep_recorder rep = r \<longrightarrow> (i, run_pass (sys_runs s ! i), rep) \<in> set (sys_replies s)
           | _ \<Rightarrow> True) (it_arrivals it)
      then (case run_sent (sys_runs s ! i) of
          None \<Rightarrow> None
        | Some requests \<Rightarrow>
            let run' = collect_run (sys_runs s ! i) requests it in
            Some (s\<lparr>sys_runs := (sys_runs s)[i := run'],
                    sys_decided := sys_decided s @ (case run_result run' of Some (Inr d) \<Rightarrow> [d] | _ \<Rightarrow> [])\<rparr>))
      else None)"
| "sys_step D s (Inform r d) =
     (if d \<in> set (sys_decided s)
      then Some (s\<lparr>sys_recorders := (sys_recorders s)(r := snd (inform_decision (sys_recorders s r) d))\<rparr>)
      else None)"
| "sys_step D s (Prune r slot) =
     Some (s\<lparr>sys_recorders := (sys_recorders s)(r := recorder_prune_through (sys_recorders s r) slot)\<rparr>)"

fun sys_run :: "('v, 'g) Deployment \<Rightarrow> ('v, 'g) Sys \<Rightarrow> ('v, 'g) event list \<Rightarrow> ('v, 'g) Sys option" where
  "sys_run D s [] = Some s"
| "sys_run D s (e # es) = (case sys_step D s e of None \<Rightarrow> None | Some s' \<Rightarrow> sys_run D s' es)"

inductive reachable :: "('v, 'g) Deployment \<Rightarrow> ('v, 'g) Sys \<Rightarrow> bool" for D where
  init: "reachable D (sys_init D)"
| step: "reachable D s \<Longrightarrow> sys_step D s e = Some s' \<Longrightarrow> reachable D s'"

inductive_cases reachableE: "reachable D s"

lemma reachable_run: "reachable D s \<Longrightarrow> sys_run D s es = Some s' \<Longrightarrow> reachable D s'"
  by (induction es arbitrary: s) (auto split: option.splits intro: reachable.step)

section \<open>The invariant\<close>

definition recorder_ok :: "('v, 'g) Deployment \<Rightarrow> ('v, 'g) Sys \<Rightarrow> ReplicaId \<Rightarrow> bool" where
  "recorder_ok D s j =
     (let rc = sys_recorders s j in
      rc_config rc = dp_config D j
      \<and> (\<forall>k. rc_pruned_through rc < k \<longrightarrow>
           slot_register rc k = isr_run (calls_of (sys_calls s k j))
           \<and> bt_get (rc_round_one_leaders rc) k =
               (case sys_calls s k j of [] \<Rightarrow> None | q # _ \<Rightarrow> Some (req_round_one_leader q)))
      \<and> (\<forall>k d. bt_get (rc_decisions rc) k = Some d \<longrightarrow> dec_slot d = k \<and> d \<in> set (sys_decided s)))"

text \<open>What a run knows: its proposal has an origin and, after the first step, evidence.\<close>

definition run_ok :: "('v, 'g) Deployment \<Rightarrow> ('v, 'g) Sys \<Rightarrow> ('v, 'g) Run \<Rightarrow> bool" where
  "run_ok D s run =
     (let p = run_proposal run; n = unat (run_step run); pr = run_proposer run; k = run_slot run in
      pc_cluster (pr_config pr) = Some (dp_cluster D)
      \<and> set (run_known run) \<subseteq> set (sys_decided s)
      \<and> has_origin D k p \<and> 4 \<le> n
      \<and> (n = 4 \<longrightarrow> prop_key p = ProposalKey PRIORITY_MAX (pr_replica_id pr) (pr_lane_id pr)
           \<and> (run_leader run = Some (pr_replica_id pr) \<longrightarrow> pr_lane_id pr = dp_leader_lane D (pr_replica_id pr) k))
      \<and> (4 < n \<longrightarrow> evidence (dp_cluster D) (sys_calls s k) (run_leader run) n p))"

text \<open>A request of the run's current pass is for its step and, outside phase 0, for its proposal.\<close>

definition sent_ok :: "('v, 'g) Deployment \<Rightarrow> ('v, 'g) Sys \<Rightarrow> nat \<times> nat \<times> ReplicaId \<times> 'v RecordRequest \<Rightarrow> bool" where
  "sent_ok D s x =
     (case x of (i, n, r, q) \<Rightarrow>
        i < length (sys_runs s) \<and>
        (let run = sys_runs s ! i in
         req_slot q = run_slot run \<and> req_round_one_leader q = run_leader run
         \<and> set (req_known_decisions q) \<subseteq> set (sys_decided s)
         \<and> request_ok D (req_slot q) (sys_calls s (req_slot q)) q
         \<and> n \<le> run_pass run \<and> (n = run_pass run \<longrightarrow> run_sent run \<noteq> None \<and> req_step q = run_step run
              \<and> (step_phase (run_step run) \<noteq> 0 \<longrightarrow> req_proposal q = run_proposal run))))"

definition reply_ok :: "('v, 'g) Deployment \<Rightarrow> ('v, 'g) Sys \<Rightarrow> nat \<times> nat \<times> 'v RecordReply \<Rightarrow> bool" where
  "reply_ok D s x =
     (case x of (i, n, rep) \<Rightarrow>
        (\<exists>q before after. (i, n, rep_recorder rep, q) \<in> set (sys_requests s)
           \<and> sys_calls s (req_slot q) (rep_recorder rep) = before @ q # after
           \<and> rep_summary rep = isr_summary (isr_run (calls_of (before @ [q])))
           \<and> (\<forall>d. rep_decision rep = Some d \<longrightarrow> d \<in> set (sys_decided s) \<and> dec_slot d = req_slot q)))"

definition decision_ok :: "('v, 'g) Deployment \<Rightarrow> ('v, 'g) Sys \<Rightarrow> 'v Decision \<Rightarrow> bool" where
  "decision_ok D s d =
     (\<exists>p. prop_value_ids p = dec_value_ids d \<and> proposer_id (prop_key p) = dec_proposer d \<and> has_origin D (dec_slot d) p
        \<and> decision_evidence (dp_cluster D) (sys_calls s (dec_slot d)) (unat (dec_decided_step d)) p)"

definition sys_inv :: "('v, 'g) Deployment \<Rightarrow> ('v, 'g) Sys \<Rightarrow> bool" where
  "sys_inv D s =
     ((\<forall>k. slot_inv D k (sys_calls s k)) \<and> (\<forall>j. recorder_ok D s j) \<and> (\<forall>run \<in> set (sys_runs s). run_ok D s run)
      \<and> (\<forall>x \<in> set (sys_requests s). sent_ok D s x) \<and> (\<forall>x \<in> set (sys_replies s). reply_ok D s x)
      \<and> (\<forall>d \<in> set (sys_decided s). decision_ok D s d))"

text \<open>Facts that only need the histories and the decided set to grow.\<close>

definition sys_grows :: "('v, 'g) Sys \<Rightarrow> ('v, 'g) Sys \<Rightarrow> bool" where
  "sys_grows s s' =
     ((\<forall>k. calls_extend (sys_calls s k) (sys_calls s' k)) \<and> set (sys_decided s) \<subseteq> set (sys_decided s')
      \<and> set (sys_requests s) \<subseteq> set (sys_requests s'))"

lemma run_ok_mono: "sys_grows s s' \<Longrightarrow> run_ok D s run \<Longrightarrow> run_ok D s' run"
  using evidence_mono by (fastforce simp: sys_grows_def run_ok_def Let_def)

lemma decision_ok_mono: "sys_grows s s' \<Longrightarrow> decision_ok D s d \<Longrightarrow> decision_ok D s' d"
  using decision_evidence_mono by (fastforce simp: sys_grows_def decision_ok_def)

lemma reply_ok_mono:
  assumes "sys_grows s s'" "reply_ok D s x"
  shows "reply_ok D s' x"
proof -
  obtain i n rep q before after where x: "x = (i, n, rep)"
    "(i, n, rep_recorder rep, q) \<in> set (sys_requests s)"
    "sys_calls s (req_slot q) (rep_recorder rep) = before @ q # after"
    "rep_summary rep = isr_summary (isr_run (calls_of (before @ [q])))"
    "\<forall>d. rep_decision rep = Some d \<longrightarrow> d \<in> set (sys_decided s) \<and> dec_slot d = req_slot q"
    using assms(2) by (auto simp: reply_ok_def)
  obtain qs where "sys_calls s' (req_slot q) (rep_recorder rep) = before @ q # after @ qs"
    using assms(1) x(3) unfolding sys_grows_def calls_extend_def by (metis append.assoc append_Cons)
  then show ?thesis
    using assms(1) x unfolding reply_ok_def sys_grows_def by blast
qed

lemma sent_ok_mono:
  assumes "sys_grows s s'" "sent_ok D s x" "sys_runs s' = sys_runs s"
  shows "sent_ok D s' x"
  using assms request_ok_mono by (fastforce simp: sent_ok_def sys_grows_def Let_def)

text \<open>A recorder that some event leaves alone stays correct while its own histories do not move.\<close>

lemma recorder_ok_mono:
  assumes "recorder_ok D s j" "sys_recorders s' j = sys_recorders s j"
    "\<And>k. sys_calls s' k j = sys_calls s k j" "set (sys_decided s) \<subseteq> set (sys_decided s')"
  shows "recorder_ok D s' j"
  using assms by (auto simp: recorder_ok_def Let_def)

section \<open>Recorder events\<close>

lemma inform_decisions_stored:
  "inform_decisions rc ds = (r, rc') \<Longrightarrow> bt_get (rc_decisions rc') k = Some d \<Longrightarrow>
     bt_get (rc_decisions rc) k = Some d \<or> d \<in> set ds \<and> dec_slot d = k"
proof (induction ds arbitrary: rc)
  case (Cons x ds)
  have one: "inform_decision rc x = (e, rc'') \<Longrightarrow> bt_get (rc_decisions rc'') k = Some d \<Longrightarrow>
     bt_get (rc_decisions rc) k = Some d \<or> d = x \<and> dec_slot d = k" for e rc''
    by (erule inform_decision_cases) (auto split: if_splits)
  from Cons.prems(1) show ?case
    by (auto elim!: sbindE dest: one Cons.IH [OF _ Cons.prems(2)] simp: Cons.prems(2))
qed simp

lemma recorder_ok_informed:
  assumes ok: "recorder_ok D s j" and i: "inform_decisions (sys_recorders s j) ds = (r, rc)"
    and ds: "set ds \<subseteq> set (sys_decided s)"
  shows "recorder_ok D (s\<lparr>sys_recorders := (sys_recorders s)(j := rc)\<rparr>) j"
  using ok inform_decisions_keeps [OF i] inform_decisions_stored [OF i] ds
  by (fastforce simp: recorder_ok_def Let_def slot_register_def)

lemma recorder_ok_pruned:
  assumes "recorder_ok D s j"
  shows "recorder_ok D (s\<lparr>sys_recorders := (sys_recorders s)(j := recorder_prune_through (sys_recorders s j) slot)\<rparr>) j"
  using assms
  by (auto simp: recorder_ok_def Let_def recorder_prune_through_def slot_register_def split: if_splits)

lemma slot_inv_grow:
  assumes inv: "slot_inv D k c" and q: "request_ok D k c q"
    and l: "case c j of [] \<Rightarrow> True | q' # _ \<Rightarrow> req_round_one_leader q' = req_round_one_leader q"
  shows "slot_inv D k (c(j := c j @ [q]))"
proof -
  let ?c = "c(j := c j @ [q])"
  have x: "calls_extend c ?c" by (rule calls_extend_upd) simp
  have new: "req_round_one_leader q' = req_round_one_leader q" if "q' \<in> set (c j)" for q'
  proof -
    from that obtain h hs where h: "c j = h # hs" by (cases "c j") auto
    then have "bound_to c j (req_round_one_leader h)" by (simp add: bound_to_def)
    then show ?thesis using slot_leader [OF inv that] l h by simp
  qed
  have old: "req_round_one_leader q' = req_round_one_leader q''" if "q' \<in> set (c i)" "q'' \<in> set (c i)" for i q' q''
    using inv that unfolding slot_inv_def by blast
  have "req_round_one_leader q' = req_round_one_leader q''" if "q' \<in> set (?c i)" "q'' \<in> set (?c i)" for i q' q''
    using that new [of q'] new [of q''] old [of q' i q''] by (cases "i = j") auto
  moreover have "request_ok D k ?c q'" if "q' \<in> set (?c i)" for i q'
    using that by (cases "i = j") (auto intro!: request_ok_mono [OF x] intro: q slot_request [OF inv])
  moreover have "is_well_formed (dp_cluster D)" using inv by (simp add: slot_inv_def)
  ultimately show ?thesis unfolding slot_inv_def by blast
qed

text \<open>What a reply and the state after it look like.\<close>

lemma record_from_Inr:
  assumes "record_from ens rc a q = (Inr rep, rc')"
  shows "\<exists>ds. inform_decisions rc (req_known_decisions q) = (Inr (), ds) \<and> record_slot q ds = (Inr rep, rc')"
    and "rc_pruned_through rc < req_slot q"
    and "bt_get (rc_round_one_leaders rc) (req_slot q) \<in> {None, Some (req_round_one_leader q)}"
  using assms by (auto simp: record_from_def split: if_splits elim!: recorder_record_cases)

lemma record_from_Inl:
  assumes "record_from ens rc a q = (Inl e, rc')"
  shows "\<exists>ds r. set ds \<subseteq> set (req_known_decisions q) \<and> inform_decisions rc ds = (r, rc')"
proof -
  have "inform_decisions rc [] = (Inr (), rc)" by simp
  then show ?thesis
    using assms by (auto simp: record_from_def split: if_splits elim!: recorder_record_cases intro: exI [of _ "[]"])
qed

lemma record_from_state:
  assumes r: "record_from ens rc a q = (Inr rep, rc')"
  shows "rc_config rc' = rc_config rc" "rc_pruned_through rc' = rc_pruned_through rc"
    "slot_register rc' k = (if k = req_slot q then isr_advance (slot_register rc k) (req_step q) (req_proposal q) else slot_register rc k)"
    "bt_get (rc_round_one_leaders rc') k =
       (if k = req_slot q \<and> bt_get (rc_round_one_leaders rc) k = None then Some (req_round_one_leader q) else bt_get (rc_round_one_leaders rc) k)"
    "rep_recorder rep = cfg_id (rc_config rc)"
    "rep_summary rep = isr_summary (isr_advance (slot_register rc (req_slot q)) (req_step q) (req_proposal q))"
    "\<exists>ds. inform_decisions rc (req_known_decisions q) = (Inr (), ds) \<and> rc_decisions rc' = rc_decisions ds
      \<and> rep_decision rep = bt_get (rc_decisions ds) (req_slot q)"
proof -
  obtain ds where ds: "inform_decisions rc (req_known_decisions q) = (Inr (), ds)" "record_slot q ds = (Inr rep, rc')"
    using record_from_Inr(1) [OF r] by blast
  note keep = inform_decisions_keeps [OF ds(1)]
  from ds(2) show "rc_config rc' = rc_config rc" "rc_pruned_through rc' = rc_pruned_through rc"
    "slot_register rc' k = (if k = req_slot q then isr_advance (slot_register rc k) (req_step q) (req_proposal q) else slot_register rc k)"
    "bt_get (rc_round_one_leaders rc') k =
       (if k = req_slot q \<and> bt_get (rc_round_one_leaders rc) k = None then Some (req_round_one_leader q) else bt_get (rc_round_one_leaders rc) k)"
    "rep_recorder rep = cfg_id (rc_config rc)"
    "rep_summary rep = isr_summary (isr_advance (slot_register rc (req_slot q)) (req_step q) (req_proposal q))"
    using keep by (auto elim!: record_slot_cases simp: slot_register_def)
  show "\<exists>ds. inform_decisions rc (req_known_decisions q) = (Inr (), ds) \<and> rc_decisions rc' = rc_decisions ds
      \<and> rep_decision rep = bt_get (rc_decisions ds) (req_slot q)"
    using ds by (auto elim!: record_slot_cases)
qed

section \<open>Every event preserves the invariant\<close>

lemma sys_invI:
  assumes "\<And>k. slot_inv D k (sys_calls s k)" "\<And>j. recorder_ok D s j" "\<And>run. run \<in> set (sys_runs s) \<Longrightarrow> run_ok D s run"
    "\<And>x. x \<in> set (sys_requests s) \<Longrightarrow> sent_ok D s x" "\<And>x. x \<in> set (sys_replies s) \<Longrightarrow> reply_ok D s x"
    "\<And>d. d \<in> set (sys_decided s) \<Longrightarrow> decision_ok D s d"
  shows "sys_inv D s"
  using assms by (simp add: sys_inv_def)

lemma sys_inv_init: "deployment_ok D \<Longrightarrow> sys_inv D (sys_init D)"
  by (auto simp: sys_inv_def sys_init_def slot_inv_def recorder_ok_def deployment_ok_def recorder_new_def
      slot_register_def calls_of_def Let_def)

text \<open>An event that only touches recorder \<open>r\<close>, without a reply.\<close>

lemma sys_inv_recorder:
  assumes inv: "sys_inv D s" and s': "s' = s\<lparr>sys_recorders := (sys_recorders s)(r := rc)\<rparr>" and r: "recorder_ok D s' r"
  shows "sys_inv D s'"
proof (rule sys_invI)
  have g: "sys_grows s s'" by (simp add: sys_grows_def s')
  note i = inv [unfolded sys_inv_def]
  show "slot_inv D k (sys_calls s' k)" for k using i by (simp add: s')
  show "recorder_ok D s' j" for j
    using r i recorder_ok_mono [of D s j s'] by (cases "j = r") (simp_all add: s')
  show "run \<in> set (sys_runs s') \<Longrightarrow> run_ok D s' run" for run using i run_ok_mono [OF g] by (simp add: s')
  show "x \<in> set (sys_requests s') \<Longrightarrow> sent_ok D s' x" for x using i sent_ok_mono [OF g] by (simp add: s')
  show "x \<in> set (sys_replies s') \<Longrightarrow> reply_ok D s' x" for x using i reply_ok_mono [OF g] by (simp add: s')
  show "d \<in> set (sys_decided s') \<Longrightarrow> decision_ok D s' d" for d using i decision_ok_mono [OF g] by (simp add: s')
qed

lemma sys_inv_inform:
  assumes inv: "sys_inv D s" and d: "d \<in> set (sys_decided s)"
  shows "sys_inv D (s\<lparr>sys_recorders := (sys_recorders s)(r := snd (inform_decision (sys_recorders s r) d))\<rparr>)"
proof -
  have "inform_decisions (sys_recorders s r) [d] =
      (fst (inform_decision (sys_recorders s r) d), snd (inform_decision (sys_recorders s r) d))"
    by (cases "inform_decision (sys_recorders s r) d"; cases "fst (inform_decision (sys_recorders s r) d)") auto
  from recorder_ok_informed [OF _ this] show ?thesis
    using inv d by (intro sys_inv_recorder [OF inv refl]) (simp add: sys_inv_def)
qed

lemma sys_inv_prune:
  "sys_inv D s \<Longrightarrow> sys_inv D (s\<lparr>sys_recorders := (sys_recorders s)(r := recorder_prune_through (sys_recorders s r) slot)\<rparr>)"
  by (rule sys_inv_recorder [OF _ refl]) (auto intro: recorder_ok_pruned simp: sys_inv_def)

text \<open>An accepted record call.\<close>

lemma sys_inv_recorded:
  assumes inv: "sys_inv D s" and D: "deployment_ok D" and x: "(i, n, r, q) \<in> set (sys_requests s)"
    and rec: "record_from ens (sys_recorders s r) a q = (Inr rep, rc)"
    and s': "s' = s\<lparr>sys_recorders := (sys_recorders s)(r := rc), sys_replies := sys_replies s @ [(i, n, rep)],
      sys_calls := (sys_calls s)(req_slot q := (sys_calls s (req_slot q))(r := sys_calls s (req_slot q) r @ [q]))\<rparr>"
  shows "sys_inv D s'"
proof (rule sys_invI)
  let ?k = "req_slot q"
  note iv = inv [unfolded sys_inv_def]
  have g: "sys_grows s s'" by (auto simp: sys_grows_def s' intro: calls_extend_upd)
  have sent: "sent_ok D s (i, n, r, q)" using iv x by blast
  then have q: "request_ok D ?k (sys_calls s ?k) q" "set (req_known_decisions q) \<subseteq> set (sys_decided s)"
    by (auto simp: sent_ok_def Let_def)
  have rok: "recorder_ok D s r" using iv by blast
  note st = record_from_state [OF rec]
  have live: "rc_pruned_through (sys_recorders s r) < ?k"
    and lead: "bt_get (rc_round_one_leaders (sys_recorders s r)) ?k \<in> {None, Some (req_round_one_leader q)}"
    using record_from_Inr(2,3) [OF rec] by auto
  have b: "case sys_calls s ?k r of [] \<Rightarrow> True | q' # _ \<Rightarrow> req_round_one_leader q' = req_round_one_leader q"
    using rok live lead by (auto simp: recorder_ok_def Let_def split: list.splits)
  show "slot_inv D k (sys_calls s' k)" for k
    using iv slot_inv_grow [OF _ q(1) b] by (cases "k = ?k") (simp_all add: s')
  obtain ds where ds: "inform_decisions (sys_recorders s r) (req_known_decisions q) = (Inr (), ds)"
    "rc_decisions rc = rc_decisions ds" "rep_decision rep = bt_get (rc_decisions ds) ?k"
    using st(7) by blast
  have dec: "bt_get (rc_decisions ds) k = Some d \<Longrightarrow> dec_slot d = k \<and> d \<in> set (sys_decided s)" for k d
    using inform_decisions_stored [OF ds(1), of k d] rok q(2) by (auto simp: recorder_ok_def Let_def)
  show "recorder_ok D s' j" for j
  proof (cases "j = r")
    case True
    show ?thesis
      using rok dec st(1-4) live b
      by (auto simp: recorder_ok_def Let_def s' True ds(2) calls_of_def split: list.splits)
  qed (use iv recorder_ok_mono [of D s j s'] in \<open>simp add: s'\<close>)
  show "run \<in> set (sys_runs s') \<Longrightarrow> run_ok D s' run" for run using iv run_ok_mono [OF g] by (simp add: s')
  show "x \<in> set (sys_requests s') \<Longrightarrow> sent_ok D s' x" for x using iv sent_ok_mono [OF g] by (simp add: s')
  show "d \<in> set (sys_decided s') \<Longrightarrow> decision_ok D s' d" for d using iv decision_ok_mono [OF g] by (simp add: s')
  have rep: "rep_recorder rep = r" using st(5) rok D by (simp add: recorder_ok_def Let_def deployment_ok_def)
  have "slot_register (sys_recorders s r) ?k = isr_run (calls_of (sys_calls s ?k r))"
    using rok live by (simp add: recorder_ok_def Let_def)
  then have sum: "rep_summary rep = isr_summary (isr_run (calls_of (sys_calls s ?k r @ [q])))"
    using st(6) by (simp add: calls_of_def)
  have "reply_ok D s' (i, n, rep)"
    unfolding reply_ok_def prod.case
    by (intro exI [of _ q] exI [of _ "sys_calls s ?k r"] exI [of _ "[]"]) (use x rep sum ds(3) dec in \<open>auto simp: s'\<close>)
  moreover have "y \<in> set (sys_replies s) \<Longrightarrow> reply_ok D s' y" for y
    using iv reply_ok_mono [OF g] by blast
  moreover have "set (sys_replies s') = insert (i, n, rep) (set (sys_replies s))" by (simp add: s')
  ultimately show "y \<in> set (sys_replies s') \<Longrightarrow> reply_ok D s' y" for y by (metis insert_iff)
qed

lemma sys_inv_deliver:
  assumes inv: "sys_inv D s" and D: "deployment_ok D" and e: "sys_step D s (Deliver i n r q av) = Some s'"
  shows "sys_inv D s'"
proof -
  obtain reply rc where rec: "record_from (\<lambda>_. av) (sys_recorders s r) (pr_replica_id (run_proposer (sys_runs s ! i))) q = (reply, rc)"
    by fastforce
  have x: "(i, n, r, q) \<in> set (sys_requests s)" using e by (simp split: if_splits)
  show ?thesis
  proof (cases reply)
    case (Inr rep)
    then have "s' = s\<lparr>sys_recorders := (sys_recorders s)(r := rc), sys_replies := sys_replies s @ [(i, n, rep)],
      sys_calls := (sys_calls s)(req_slot q := (sys_calls s (req_slot q))(r := sys_calls s (req_slot q) r @ [q]))\<rparr>"
      using e x rec by simp
    then show ?thesis using sys_inv_recorded [OF inv D x rec [unfolded Inr]] by blast
  next
    case (Inl err)
    then have s': "s' = s\<lparr>sys_recorders := (sys_recorders s)(r := rc)\<rparr>" using e x rec by simp
    obtain ds y where ds: "set ds \<subseteq> set (req_known_decisions q)" "inform_decisions (sys_recorders s r) ds = (y, rc)"
      using record_from_Inl [OF rec [unfolded Inl]] by blast
    have "sent_ok D s (i, n, r, q)" using inv x unfolding sys_inv_def by blast
    then have "set ds \<subseteq> set (sys_decided s)" using ds(1) by (auto simp: sent_ok_def Let_def)
    moreover have "recorder_ok D s r" using inv by (simp add: sys_inv_def)
    ultimately have "recorder_ok D s' r" unfolding s' using recorder_ok_informed [OF _ ds(2)] by blast
    then show ?thesis by (rule sys_inv_recorder [OF inv s'])
  qed
qed

text \<open>Starting a run.\<close>

lemma propose_init_proposal:
  assumes "propose_init pr vs l rs ks = Inr (q, p)"
  shows "p = \<lparr>prop_key = ProposalKey PRIORITY_MAX (pr_replica_id pr) (pr_lane_id pr), prop_value_ids = vs\<rparr>"
  using assms by (auto simp: propose_init_def proposal_new_def qp_result split: option.splits if_splits)

lemma start_run_fields:
  "run_proposal (start_run pr k vs l rs ks) =
     \<lparr>prop_key = ProposalKey PRIORITY_MAX (pr_replica_id pr) (pr_lane_id pr), prop_value_ids = vs\<rparr>"
  "run_step (start_run pr k vs l rs ks) = 4" "run_proposer (start_run pr k vs l rs ks) = pr"
  "run_slot (start_run pr k vs l rs ks) = k" "run_leader (start_run pr k vs l rs ks) = l"
  "run_known (start_run pr k vs l rs ks) = ks"
  using propose_init_proposal [of pr vs l rs ks]
  by (auto simp: start_run_def Let_def ROUND_ONE_PHASE_ZERO_def split: sum.splits prod.splits)

lemma sys_inv_start:
  assumes inv: "sys_inv D s" and e: "sys_step D s (Start pr k l rs ks) = Some s'"
  shows "sys_inv D s'"
proof (rule sys_invI)
  note iv = inv [unfolded sys_inv_def]
  obtain vs where vs: "dp_input D (pr_replica_id pr) (pr_lane_id pr) k = Some vs"
    using e by (auto split: option.splits)
  let ?run = "start_run pr k vs l rs ks"
  have g: "pc_cluster (pr_config pr) = Some (dp_cluster D)" "set ks \<subseteq> set (sys_decided s)"
    "l = Some (pr_replica_id pr) \<longrightarrow> pr_lane_id pr = dp_leader_lane D (pr_replica_id pr) k"
    and s': "s' = s\<lparr>sys_runs := sys_runs s @ [?run]\<rparr>"
    using e vs by (auto split: if_splits)
  have m: "sys_grows s s'" by (simp add: sys_grows_def s')
  have "run_ok D s' ?run"
    using g vs by (simp add: run_ok_def start_run_fields has_origin_def s')
  then show "run \<in> set (sys_runs s') \<Longrightarrow> run_ok D s' run" for run
    using iv run_ok_mono [OF m] by (auto simp: s')
  show "x \<in> set (sys_requests s') \<Longrightarrow> sent_ok D s' x" for x
    using iv by (fastforce simp: s' sent_ok_def Let_def nth_append)
  show "slot_inv D j (sys_calls s' j)" for j using iv by (simp add: s')
  show "recorder_ok D s' j" for j using iv recorder_ok_mono [of D s j s'] by (simp add: s')
  show "x \<in> set (sys_replies s') \<Longrightarrow> reply_ok D s' x" for x using iv reply_ok_mono [OF m] by (simp add: s')
  show "d \<in> set (sys_decided s') \<Longrightarrow> decision_ok D s' d" for d using iv decision_ok_mono [OF m] by (simp add: s')
qed

text \<open>Sending: the requests of a justified run are justified.\<close>

lemma phase_request_simps:
  "req_proposal (phase_request pr k l n p ds) = p"
  "phase_request pr k l n p ds\<lparr>req_proposal := p'\<rparr> = phase_request pr k l n p' ds"
  by (simp_all add: phase_request_def)

lemma sent_request_ok:
  assumes run: "run_ok D s run" and ps: "priority_source (dp_next_below D)"
    and b: "build_requests (dp_next_below D) g (draws_priorities (run_step run) (run_leader run) (pr_replica_id (run_proposer run)))
        (phase_request (run_proposer run) (run_slot run) (run_leader run) (run_step run) (run_proposal run) (run_known run)) rs
      = (Inr reqs, g')"
    and q: "(r, q) \<in> set reqs"
  shows "request_ok D (run_slot run) (sys_calls s (run_slot run)) q" "req_slot q = run_slot run"
    "req_round_one_leader q = run_leader run" "req_step q = run_step run" "req_known_decisions q = run_known run"
    "step_phase (run_step run) \<noteq> 0 \<Longrightarrow> req_proposal q = run_proposal run"
proof -
  let ?d = "draws_priorities (run_step run) (run_leader run) (pr_replica_id (run_proposer run))"
  let ?n = "unat (run_step run)"
  obtain p where p: "q = phase_request (run_proposer run) (run_slot run) (run_leader run) (run_step run) p (run_known run)"
    "if ?d then \<exists>pr h h'. dp_next_below D h PRIORITY_MAX = (Inr pr, h') \<and> p = with_priority (run_proposal run) pr else p = run_proposal run"
    using build_requests_mem [OF b q] unfolding phase_request_simps by blast
  show "req_slot q = run_slot run" "req_round_one_leader q = run_leader run" "req_step q = run_step run"
    "req_known_decisions q = run_known run"
    by (simp_all add: p(1) phase_request_def)
  show keep: "step_phase (run_step run) \<noteq> 0 \<Longrightarrow> req_proposal q = run_proposal run"
    using p by (simp add: draws_priorities_def phase_request_def)
  have v: "prop_value_ids p = prop_value_ids (run_proposal run)" "proposer_id (prop_key p) = proposer_id (prop_key (run_proposal run))"
    "lane_id (prop_key p) = lane_id (prop_key (run_proposal run))"
    using p(2) by (auto split: if_splits)
  have top: "priority (prop_key p) \<noteq> PRIORITY_MAX" if ?d
    using p(2) that priority_source.next_below_range [OF ps] by fastforce
  have ev: "evidence (dp_cluster D) (sys_calls s (run_slot run)) (run_leader run) ?n p" if "4 < ?n"
  proof (cases "?n mod 4 = 0")
    case True
    then show ?thesis
      using run that v(1) by (auto simp: run_ok_def Let_def evidence_def evidence0_def)
  next
    case False
    then have "p = run_proposal run" using keep by (simp add: step_phase_iffs p(1) phase_request_def)
    then show ?thesis using run that by (simp add: run_ok_def Let_def)
  qed
  have first: "priority (prop_key p) = PRIORITY_MAX \<longrightarrow>
      run_leader run = Some (proposer_id (prop_key p)) \<and> lane_id (prop_key p) = dp_leader_lane D (proposer_id (prop_key p)) (run_slot run)"
    if "?n = 4"
  proof -
    have "step_phase (run_step run) = 0" using that by (simp add: step_phase_iffs)
    then have "?d \<or> run_leader run = Some (pr_replica_id (run_proposer run))" by (auto simp: draws_priorities_def)
    then show ?thesis using run that v top by (auto simp: run_ok_def Let_def)
  qed
  show "request_ok D (run_slot run) (sys_calls s (run_slot run)) q"
    using run v ev first by (simp add: request_ok_def Let_def p(1) phase_request_def has_origin_def run_ok_def)
qed

lemma send_run_cases:
  assumes "send_run D run = run'"
  obtains (stopped) e g where "run' = run\<lparr>run_proposer := (run_proposer run)\<lparr>pr_rng := g\<rparr>, run_result := Some (Inl e)\<rparr>"
  | (sent) reqs g where "run' = run\<lparr>run_proposer := (run_proposer run)\<lparr>pr_rng := g\<rparr>, run_sent := Some reqs\<rparr>"
      "build_requests (dp_next_below D) (pr_rng (run_proposer run))
        (draws_priorities (run_step run) (run_leader run) (pr_replica_id (run_proposer run)))
        (phase_request (run_proposer run) (run_slot run) (run_leader run) (run_step run) (run_proposal run) (run_known run))
        (run_recorders run) = (Inr reqs, g)"
proof (cases "run_step run > pc_max_steps (pr_config (run_proposer run))")
  case True
  then have "run' = run\<lparr>run_proposer := (run_proposer run)\<lparr>pr_rng := pr_rng (run_proposer run)\<rparr>,
      run_result := Some (Inl (StepLimitExceeded (pc_max_steps (pr_config (run_proposer run)))))\<rparr>"
    using assms by (auto simp: send_run_def Let_def)
  then show thesis by (rule stopped)
next
  case False
  then show thesis
    using assms stopped sent unfolding send_run_def Let_def
    by (auto split: prod.splits sum.splits)
qed

text \<open>An event that moves run \<open>i\<close>, sends \<open>new\<close> and decides \<open>ds\<close>.\<close>

lemma sys_inv_run:
  assumes inv: "sys_inv D s" and i: "i < length (sys_runs s)"
    and s': "s' = s\<lparr>sys_runs := (sys_runs s)[i := run'], sys_requests := sys_requests s @ new, sys_decided := sys_decided s @ ds\<rparr>"
    and ok: "run_ok D s' run'"
    and same: "run_slot run' = run_slot (sys_runs s ! i)" "run_leader run' = run_leader (sys_runs s ! i)"
    and pass: "run_pass (sys_runs s ! i) < run_pass run' \<or>
      run_pass run' = run_pass (sys_runs s ! i) \<and> run_step run' = run_step (sys_runs s ! i)
      \<and> run_proposal run' = run_proposal (sys_runs s ! i) \<and> (run_sent (sys_runs s ! i) \<noteq> None \<longrightarrow> run_sent run' \<noteq> None)"
    and new: "\<And>x. x \<in> set new \<Longrightarrow> sent_ok D s' x" and ds: "\<And>d. d \<in> set ds \<Longrightarrow> decision_ok D s' d"
  shows "sys_inv D s'"
proof (rule sys_invI)
  note iv = inv [unfolded sys_inv_def]
  have f: "sys_calls s' = sys_calls s" "sys_recorders s' = sys_recorders s" "sys_replies s' = sys_replies s"
    "set (sys_decided s') = set (sys_decided s) \<union> set ds" "set (sys_requests s') = set (sys_requests s) \<union> set new"
    "sys_runs s' = (sys_runs s)[i := run']"
    by (simp_all add: s')
  have g: "sys_grows s s'" by (simp add: sys_grows_def f)
  show "run_ok D s' run" if "run \<in> set (sys_runs s')" for run
  proof (cases "run = run'")
    case False
    then have "run \<in> set (sys_runs s)" using that set_update_subset_insert [of "sys_runs s" i run'] by (auto simp: f)
    then show ?thesis using iv run_ok_mono [OF g] by blast
  qed (use ok in simp)
  have old: "sent_ok D s' x" if x: "x \<in> set (sys_requests s)" for x
  proof -
    obtain i' n r q where xx: "x = (i', n, r, q)" by (cases x)
    have sx: "sent_ok D s (i', n, r, q)" using iv x xx by blast
    show ?thesis
    proof (cases "i' = i")
      case True
      have "sys_runs s' ! i = run'" "i < length (sys_runs s')" using i by (simp_all add: f)
      then show ?thesis using sx same pass by (auto simp: sent_ok_def Let_def xx True f)
    next
      case False
      then show ?thesis using sx by (auto simp: sent_ok_def Let_def xx f)
    qed
  qed
  show "sent_ok D s' x" if "x \<in> set (sys_requests s')" for x
    using that old new f(5) by blast
  show "slot_inv D j (sys_calls s' j)" for j using iv by (simp add: f)
  show "recorder_ok D s' j" for j using iv recorder_ok_mono [of D s j s'] by (simp add: f)
  show "reply_ok D s' x" if "x \<in> set (sys_replies s')" for x using that iv reply_ok_mono [OF g] by (simp add: f)
  show "decision_ok D s' d" if "d \<in> set (sys_decided s')" for d
    using that iv decision_ok_mono [OF g] ds f(4) by blast
qed

lemma sys_inv_send:
  assumes inv: "sys_inv D s" and D: "deployment_ok D" and e: "sys_step D s (Send i) = Some s'"
  shows "sys_inv D s'"
proof -
  define run where "run = sys_runs s ! i"
  define run' where "run' = send_run D run"
  let ?new = "map (\<lambda>(r, q). (i, run_pass run', r, q)) (concat (option_list (run_sent run')))"
  have i: "i < length (sys_runs s)" "run_sent run = None"
    and s': "s' = s\<lparr>sys_runs := (sys_runs s)[i := run'], sys_requests := sys_requests s @ ?new, sys_decided := sys_decided s @ []\<rparr>"
    using e by (auto simp: run_live_def Let_def run_def run'_def split: if_splits)
  have ok: "run_ok D s run" using inv i(1) by (simp add: sys_inv_def run_def)
  have ps: "priority_source (dp_next_below D)" using D by (simp add: deployment_ok_def)
  have r: "run_slot run' = run_slot run \<and> run_leader run' = run_leader run \<and> run_pass run' = run_pass run
      \<and> run_step run' = run_step run \<and> run_proposal run' = run_proposal run \<and> run_ok D s run'"
    using run'_def [symmetric] by (rule send_run_cases) (use ok in \<open>simp_all add: run_ok_def Let_def\<close>)
  have "sent_ok D s' x" if x: "x \<in> set ?new" for x
    using run'_def [symmetric]
  proof (rule send_run_cases)
    fix e g assume "run' = run\<lparr>run_proposer := (run_proposer run)\<lparr>pr_rng := g\<rparr>, run_result := Some (Inl e)\<rparr>"
    with x i show ?thesis by simp
  next
    fix reqs g assume rr: "run' = run\<lparr>run_proposer := (run_proposer run)\<lparr>pr_rng := g\<rparr>, run_sent := Some reqs\<rparr>"
      and b: "build_requests (dp_next_below D) (pr_rng (run_proposer run))
        (draws_priorities (run_step run) (run_leader run) (pr_replica_id (run_proposer run)))
        (phase_request (run_proposer run) (run_slot run) (run_leader run) (run_step run) (run_proposal run) (run_known run))
        (run_recorders run) = (Inr reqs, g)"
    from x rr obtain j q where q: "(j, q) \<in> set reqs" "x = (i, run_pass run, j, q)" by auto
    note ro = sent_request_ok [OF ok ps b q(1)]
    have "set (run_known run) \<subseteq> set (sys_decided s)" using ok by (simp add: run_ok_def Let_def)
    moreover have "sys_runs s' ! i = run'" "i < length (sys_runs s')" using i by (simp_all add: s')
    moreover have "sys_calls s' = sys_calls s" "sys_decided s' = sys_decided s" by (simp_all add: s')
    ultimately show ?thesis using ro by (simp add: sent_ok_def Let_def q(2) rr)
  qed
  moreover have "sys_grows s s'" by (simp add: sys_grows_def s')
  then have "run_ok D s' run'" using r run_ok_mono by blast
  ultimately show ?thesis
    using r i by (intro sys_inv_run [OF inv i(1) s']) (auto simp: run_def)
qed

section \<open>Collecting replies\<close>

text \<open>A reply to the current pass of a run, and what it says about the histories from then on.\<close>

definition answered :: "('v, 'g) Sys \<Rightarrow> ('v, 'g) Run \<Rightarrow> 'v RecordReply \<Rightarrow> bool" where
  "answered s run rep =
     (\<exists>q before after. sys_calls s (run_slot run) (rep_recorder rep) = before @ q # after
        \<and> req_step q = run_step run \<and> req_round_one_leader q = run_leader run
        \<and> (step_phase (run_step run) \<noteq> 0 \<longrightarrow> req_proposal q = run_proposal run)
        \<and> rep_summary rep = isr_summary (isr_run (calls_of (before @ [q])))
        \<and> (\<forall>d. rep_decision rep = Some d \<longrightarrow> d \<in> set (sys_decided s) \<and> dec_slot d = run_slot run))"

lemma collected:
  assumes inv: "sys_inv D s" and i: "i < length (sys_runs s)" "run = sys_runs s ! i"
    and a: "list_all (\<lambda>a. case a of Arrived r (Inr rep) \<Rightarrow> rep_recorder rep = r \<longrightarrow> (i, run_pass run, rep) \<in> set (sys_replies s)
           | _ \<Rightarrow> True) (it_arrivals it)"
    and c: "collect_quorum reqs (run_quorum run) (pc_cluster (pr_config (run_proposer run))) it = Inr rs"
  shows "quorum_set (dp_cluster D) (rep_recorder ` set rs)" and "rep \<in> set rs \<Longrightarrow> answered s run rep"
proof -
  have "run_ok D s run" using inv i by (simp add: sys_inv_def)
  then have "pc_cluster (pr_config (run_proposer run)) = Some (dp_cluster D)" by (simp add: run_ok_def Let_def)
  then show "quorum_set (dp_cluster D) (rep_recorder ` set rs)"
    using collect_quorum_ok(1) [OF c] by (auto simp: quorum_reached_def quorum_set_def intro!: exI [of _ "map rep_recorder rs"])
  assume "rep \<in> set rs"
  then have "Arrived (rep_recorder rep) (Inr rep) \<in> set (it_arrivals it)" by (rule collect_quorum_ok(3) [OF c])
  then have "(i, run_pass run, rep) \<in> set (sys_replies s)" using a by (fastforce simp: list_all_iff)
  then have "reply_ok D s (i, run_pass run, rep)" using inv unfolding sys_inv_def by blast
  then obtain q before after where q: "(i, run_pass run, rep_recorder rep, q) \<in> set (sys_requests s)"
    "sys_calls s (req_slot q) (rep_recorder rep) = before @ q # after"
    "rep_summary rep = isr_summary (isr_run (calls_of (before @ [q])))"
    "\<forall>d. rep_decision rep = Some d \<longrightarrow> d \<in> set (sys_decided s) \<and> dec_slot d = req_slot q"
    by (auto simp: reply_ok_def)
  have "sent_ok D s (i, run_pass run, rep_recorder rep, q)" using inv q(1) unfolding sys_inv_def by blast
  then have "req_slot q = run_slot run \<and> req_step q = run_step run \<and> req_round_one_leader q = run_leader run
      \<and> (step_phase (run_step run) \<noteq> 0 \<longrightarrow> req_proposal q = run_proposal run)"
    by (simp add: sent_ok_def Let_def i(2))
  then show "answered s run rep" using q(2-4) unfolding answered_def by metis
qed

lemma answered_facts:
  assumes "answered s run rep" "4 \<le> unat (run_step run)"
  defines "c \<equiv> sys_calls s (run_slot run)" and "j \<equiv> rep_recorder rep" and "m \<equiv> rep_summary rep"
  shows "run_step run \<le> sum_step m" "passed c j (unat (sum_step m) - 1)" "bound_to c j (run_leader run)"
    "sum_first m = Some f \<Longrightarrow> first_at c j (unat (sum_step m)) = Some f"
    "sum_prior_aggregate m = max_proposal_by_key (acc_at c j (unat (sum_step m) - 1))"
    "sum_step m = run_step run \<Longrightarrow> sum_first m \<noteq> None"
    "sum_step m = run_step run \<Longrightarrow> step_phase (run_step run) \<noteq> 0 \<Longrightarrow> run_proposal run \<in> set (acc_at c j (unat (run_step run)))"
proof -
  obtain q before after where q: "c j = before @ q # after" "req_step q = run_step run" "req_round_one_leader q = run_leader run"
    "step_phase (run_step run) \<noteq> 0 \<longrightarrow> req_proposal q = run_proposal run" "m = isr_summary (isr_run (calls_of (before @ [q])))"
    using assms by (auto simp: answered_def)
  let ?h = "calls_of before" and ?h' = "calls_of after"
  have H: "calls_of (c j) = ?h @ (req_step q, req_proposal q) # ?h'" by (simp add: q(1) calls_of_def)
  have m: "isr_summary (isr_run (?h @ [(req_step q, req_proposal q)])) = m" by (simp add: q(5) calls_of_def)
  have "0 < req_step q" using assms(2) by (simp add: q(2) word_less_nat_alt)
  note st = isr_reply_stable [OF m this H]
  show "run_step run \<le> sum_step m" using st(2) by (simp add: q(2))
  show "passed c j (unat (sum_step m) - 1)" using st(1,3) by (simp add: passed_def word_le_nat_alt)
  show "bound_to c j (run_leader run)" by (auto simp: bound_to_def q(1) q(3) [symmetric])
  show "sum_first m = Some f \<Longrightarrow> first_at c j (unat (sum_step m)) = Some f"
    using st(5) [of f] by (cases "acc_at c j (unat (sum_step m))") (auto simp: first_at_def acc_at_def)
  show "sum_prior_aggregate m = max_proposal_by_key (acc_at c j (unat (sum_step m) - 1))"
    using st(6) by (simp add: acc_at_def)
  show "sum_step m = run_step run \<Longrightarrow> sum_first m \<noteq> None" using st(4) by (simp add: q(2))
  show "sum_step m = run_step run \<Longrightarrow> step_phase (run_step run) \<noteq> 0 \<Longrightarrow> run_proposal run \<in> set (acc_at c j (unat (run_step run)))"
    using st(7) q(2,4) by (auto simp: acc_at_def)
qed

lemma filter_some_mem: "x \<in> set (filter_some f xs) \<longleftrightarrow> (\<exists>y \<in> set xs. f y = Some x)"
  by (auto simp: filter_some_def set_option_list)

end
