(* ===== verification/QP_Agreement.thy ===== *)
theory QP_Agreement
  imports QP_Consensus
begin

text \<open>
  The step that makes the consensus invariant inductive: what a collected quorum of replies says
  about the recorders' histories is exactly the evidence the next step, or the decision, needs.
  From the invariant follow agreement, validity and the absence of conflict errors.
\<close>

text \<open>One pass of the loop turns the evidence of a step into the evidence of the next.\<close>

definition pass_ok :: "('v, 'g) Deployment \<Rightarrow> ('v, 'g) Sys \<Rightarrow> ('v, 'g) Run \<Rightarrow> 'v RecordReply list \<Rightarrow> bool" where
  "pass_ok D s run rs =
     (sys_inv D s \<and> run_ok D s run \<and> quorum_set (dp_cluster D) (rep_recorder ` set rs) \<and> (\<forall>rep \<in> set rs. answered s run rep))"

lemma pass_answer:
  assumes "pass_ok D s run rs" "rep \<in> set rs"
  shows "answered s run rep" "4 \<le> unat (run_step run)"
  using assms by (auto simp: pass_ok_def run_ok_def Let_def)

lemma acc_origin: "slot_inv D k c \<Longrightarrow> p \<in> set (acc_at c j n) \<Longrightarrow> has_origin D k p"
  by (erule acc_at_request) (auto simp: request_ok_def Let_def)

lemma pass_slot_inv: "pass_ok D s run rs \<Longrightarrow> slot_inv D (run_slot run) (sys_calls s (run_slot run))"
  by (simp add: pass_ok_def sys_inv_def)

lemma pass_firsts:
  assumes ok: "pass_ok D s run rs" and st: "\<And>rep. rep \<in> set rs \<Longrightarrow> sum_step (rep_summary rep) = run_step run"
    and p: "max_proposal_by_key (filter_some (\<lambda>r. sum_first (rep_summary r)) rs) = Some p"
  shows "evidence1 (dp_cluster D) (sys_calls s (run_slot run)) (run_leader run) (unat (run_step run) + 1) p"
    and "has_origin D (run_slot run) p"
proof -
  let ?c = "sys_calls s (run_slot run)" and ?n = "unat (run_step run)"
  have f: "bound_to ?c (rep_recorder rep) (run_leader run) \<and>
      (\<exists>f. sum_first (rep_summary rep) = Some f \<and> first_at ?c (rep_recorder rep) ?n = Some f)" if "rep \<in> set rs" for rep
    using answered_facts(3,4,6) [OF pass_answer [OF ok that]] st [OF that] by fastforce
  note m = max_proposal_Some [OF p]
  obtain rep where rep: "rep \<in> set rs" "sum_first (rep_summary rep) = Some p"
    using m by (auto simp: filter_some_mem)
  then have fp: "first_at ?c (rep_recorder rep) ?n = Some p" using f [OF rep(1)] by simp
  have "prop_key g \<le> prop_key p" if "r \<in> set rs" "sum_first (rep_summary r) = Some g" for r g
    using m that by (auto simp: filter_some_mem)
  then show "evidence1 (dp_cluster D) ?c (run_leader run) (?n + 1) p"
    unfolding evidence1_def using ok f fp rep(1)
    by (intro exI [of _ "rep_recorder ` set rs"]) (fastforce simp: pass_ok_def)
  show "has_origin D (run_slot run) p"
    by (rule acc_origin [OF pass_slot_inv [OF ok] first_at_acc [OF fp]])
qed

lemma pass_spread:
  assumes ok: "pass_ok D s run rs" and st: "\<And>rep. rep \<in> set rs \<Longrightarrow> sum_step (rep_summary rep) = run_step run"
    and ph: "step_phase (run_step run) \<noteq> 0"
  shows "\<forall>j \<in> rep_recorder ` set rs. run_proposal run \<in> set (acc_at (sys_calls s (run_slot run)) j (unat (run_step run)))"
  using answered_facts(7) [OF pass_answer [OF ok] st ph] by blast

lemma pass_priors:
  assumes ok: "pass_ok D s run rs" and st: "\<And>rep. rep \<in> set rs \<Longrightarrow> sum_step (rep_summary rep) = run_step run"
    and p: "max_proposal_by_key (filter_some (\<lambda>r. sum_prior_aggregate (rep_summary r)) rs) = Some p"
  shows "\<exists>j \<in> rep_recorder ` set rs. p \<in> set (acc_at (sys_calls s (run_slot run)) j (unat (run_step run) - 1))"
    and "\<forall>j \<in> rep_recorder ` set rs. passed (sys_calls s (run_slot run)) j (unat (run_step run) - 1) \<and>
      (\<forall>q \<in> set (acc_at (sys_calls s (run_slot run)) j (unat (run_step run) - 1)). prop_key q \<le> prop_key p)"
proof -
  let ?c = "sys_calls s (run_slot run)" and ?n = "unat (run_step run)"
  have f: "passed ?c (rep_recorder rep) (?n - 1)"
    "sum_prior_aggregate (rep_summary rep) = max_proposal_by_key (acc_at ?c (rep_recorder rep) (?n - 1))" if "rep \<in> set rs" for rep
    using answered_facts(2,5) [OF pass_answer [OF ok that]] st [OF that] by simp_all
  note m = max_proposal_Some [OF p]
  then obtain rep where rep: "rep \<in> set rs" "sum_prior_aggregate (rep_summary rep) = Some p"
    by (auto simp: filter_some_mem)
  then have "p \<in> set (acc_at ?c (rep_recorder rep) (?n - 1))"
    using f(2) [OF rep(1)] max_proposal_Some [of "acc_at ?c (rep_recorder rep) (?n - 1)" p] by simp
  then show "\<exists>j \<in> rep_recorder ` set rs. p \<in> set (acc_at ?c j (?n - 1))" using rep(1) by blast
  have "prop_key q \<le> prop_key p" if r: "r \<in> set rs" and q: "q \<in> set (acc_at ?c (rep_recorder r) (?n - 1))" for r q
  proof -
    obtain a where a: "max_proposal_by_key (acc_at ?c (rep_recorder r) (?n - 1)) = Some a"
      using q max_proposal_None [of "acc_at ?c (rep_recorder r) (?n - 1)"] by (cases "max_proposal_by_key (acc_at ?c (rep_recorder r) (?n - 1))") auto
    have "prop_key q \<le> prop_key a" using max_proposal_Some [OF a] q by blast
    moreover have "prop_key a \<le> prop_key p" using m r f(2) [OF r] a by (auto simp: filter_some_mem)
    ultimately show ?thesis by (rule order_trans)
  qed
  then show "\<forall>j \<in> rep_recorder ` set rs. passed ?c j (?n - 1) \<and> (\<forall>q \<in> set (acc_at ?c j (?n - 1)). prop_key q \<le> prop_key p)"
    using f(1) by blast
qed

text \<open>In phase 3 some prior aggregate is always reported.\<close>

lemma pass_priors_nonempty:
  assumes ok: "pass_ok D s run rs" and st: "\<And>rep. rep \<in> set rs \<Longrightarrow> sum_step (rep_summary rep) = run_step run"
    and ph: "step_phase (run_step run) = 3"
  shows "filter_some (\<lambda>r. sum_prior_aggregate (rep_summary r)) rs \<noteq> []"
proof -
  let ?c = "sys_calls s (run_slot run)" and ?n = "unat (run_step run)"
  have n: "?n mod 4 = 3" using ph by (simp add: step_phase_iffs)
  moreover have "4 \<le> ?n" using ok by (simp add: pass_ok_def run_ok_def Let_def)
  ultimately have "4 < ?n" by (cases "?n = 4") auto
  then have "evidence23 (dp_cluster D) ?c ?n (run_proposal run)"
    using ok n by (simp add: pass_ok_def run_ok_def Let_def evidence_def)
  then obtain Q where Q: "quorum_set (dp_cluster D) Q" "\<forall>j \<in> Q. run_proposal run \<in> set (acc_at ?c j (?n - 1))"
    by (auto simp: evidence23_def)
  have "is_well_formed (dp_cluster D)" using pass_slot_inv [OF ok] by (simp add: slot_inv_def)
  then obtain rep where rep: "rep \<in> set rs" "rep_recorder rep \<in> Q"
    using quorum_set_meet [OF _ Q(1), of "rep_recorder ` set rs"] ok by (auto simp: pass_ok_def)
  then have "acc_at ?c (rep_recorder rep) (?n - 1) \<noteq> []" using Q(2) by fastforce
  then have "sum_prior_aggregate (rep_summary rep) \<noteq> None"
    using answered_facts(5) [OF pass_answer [OF ok rep(1)]] st [OF rep(1)] by simp
  then obtain a where "sum_prior_aggregate (rep_summary rep) = Some a" by blast
  then have "a \<in> set (filter_some (\<lambda>r. sum_prior_aggregate (rep_summary r)) rs)"
    using rep(1) by (auto simp: filter_some_mem)
  then show ?thesis by auto
qed

text \<open>The next step after a completed phase.\<close>

lemma pass_completed:
  assumes ok: "pass_ok D s run rs" and st: "\<And>rep. rep \<in> set rs \<Longrightarrow> sum_step (rep_summary rep) = run_step run"
    and c: "complete_phase k l (run_step run) (run_proposal run) rs = Continue s' p'"
  shows "evidence (dp_cluster D) (sys_calls s (run_slot run)) (run_leader run) (unat s') p' \<and> has_origin D (run_slot run) p' \<and> 4 < unat s'"
proof -
  let ?c = "sys_calls s (run_slot run)" and ?n = "unat (run_step run)" and ?C = "dp_cluster D"
  note cc = complete_phase_Continue [OF c]
  have o: "has_origin D (run_slot run) (run_proposal run)" "4 \<le> ?n" "quorum_set ?C (rep_recorder ` set rs)"
    using ok by (simp_all add: pass_ok_def run_ok_def Let_def)
  note oi = acc_origin [OF pass_slot_inv [OF ok]]
  consider "?n mod 4 = 0" | "?n mod 4 = 1 \<or> ?n mod 4 = 2" | "?n mod 4 = 3" by linarith
  then show ?thesis
  proof cases
    case 1
    then have "max_proposal_by_key (filter_some (\<lambda>r. sum_first (rep_summary r)) rs) = Some p'"
      using cc(2) by (simp add: step_phase_iffs)
    moreover have "(?n + 1) mod 4 = 1" using 1 by presburger
    ultimately show ?thesis using pass_firsts [OF ok st] cc(1) o(2) by (simp add: evidence_def)
  next
    case 2
    then have "p' = run_proposal run" "step_phase (run_step run) \<noteq> 0" using cc(3) by (auto simp: step_phase_iffs)
    moreover from this have "evidence23 ?C ?c (?n + 1) p'"
      unfolding evidence23_def using pass_spread [OF ok st] o(3) by auto
    moreover have "(?n + 1) mod 4 = 2 \<or> (?n + 1) mod 4 = 3" using 2 by presburger
    ultimately show ?thesis using cc(1) o by (auto simp: evidence_def)
  next
    case 3
    then have ph: "step_phase (run_step run) = 3" by (simp add: step_phase_iffs)
    then have p: "max_proposal_by_key (filter_some (\<lambda>r. sum_prior_aggregate (rep_summary r)) rs) = Some p'"
      using cc(4) pass_priors_nonempty [OF ok st] by blast
    note pp = pass_priors [OF ok st p]
    have "evidence0 ?C ?c (?n + 1) p'"
      unfolding evidence0_def using pp o(2,3) by (intro exI [of _ "rep_recorder ` set rs"] exI [of _ p']) auto
    moreover have "(?n + 1) mod 4 = 0" using 3 by presburger
    ultimately show ?thesis using cc(1) o(2) pp(1) oi by (auto simp: evidence_def)
  qed
qed

text \<open>Catching up: a proposal some recorder holds first at a later step has that step's evidence.\<close>

lemma pass_catch_up:
  assumes ok: "pass_ok D s run rs" and rep: "rep \<in> set rs" "sum_first (rep_summary rep) = Some p"
    and gt: "run_step run < sum_step (rep_summary rep)"
  shows "evidence (dp_cluster D) (sys_calls s (run_slot run)) (run_leader run) (unat (sum_step (rep_summary rep))) p
    \<and> has_origin D (run_slot run) p \<and> 4 < unat (sum_step (rep_summary rep))"
proof -
  let ?c = "sys_calls s (run_slot run)" and ?n = "unat (sum_step (rep_summary rep))"
  note inv = pass_slot_inv [OF ok]
  have "p \<in> set (acc_at ?c (rep_recorder rep) ?n)"
    by (rule first_at_acc [OF answered_facts(4) [OF pass_answer [OF ok rep(1)] rep(2)]])
  with inv obtain q where q: "q \<in> set (?c (rep_recorder rep))" "req_proposal q = p" "unat (req_step q) = ?n"
    "request_ok D (run_slot run) ?c q"
    by (rule acc_at_request)
  have "req_round_one_leader q = run_leader run"
    by (rule slot_leader [OF inv q(1) answered_facts(3) [OF pass_answer [OF ok rep(1)]]])
  moreover have "4 < ?n" using pass_answer(2) [OF ok rep(1)] gt by (simp add: word_less_nat_alt)
  ultimately show ?thesis using q(2-4) by (simp add: request_ok_def Let_def)
qed

lemma handle_continue:
  assumes ok: "pass_ok D s run rs"
    and h: "handle_replies (run_slot run) (run_leader run) (run_step run) (run_proposal run) rs = Continue s' p'"
  shows "s' = run_step run \<and> p' = run_proposal run \<or>
    evidence (dp_cluster D) (sys_calls s (run_slot run)) (run_leader run) (unat s') p' \<and> has_origin D (run_slot run) p' \<and> 4 < unat s'"
proof (cases "list_all (\<lambda>r. sum_step (rep_summary r) = run_step run) rs")
  case True
  then have "complete_phase (run_slot run) (run_leader run) (run_step run) (run_proposal run) rs = Continue s' p'"
    using h by (auto simp: handle_replies_def split: option.splits if_splits)
  then show ?thesis using pass_completed [OF ok] True by (simp add: list_all_iff)
next
  case False
  show ?thesis
  proof (cases "max_step_reply rs")
    case None
    then show ?thesis using h False by (auto simp: handle_replies_def split: option.splits if_splits)
  next
    case (Some r)
    then have "r \<in> set rs" using max_step_reply_greatest by blast
    then show ?thesis using h False Some pass_catch_up [OF ok]
      by (auto simp: handle_replies_def split: option.splits if_splits)
  qed
qed

section \<open>Deciding\<close>

lemma fast_path_winner_Some:
  assumes "fast_path_winner n rs l = Some w"
  obtains rep rest where "n = 4" "rs = rep # rest" "sum_first (rep_summary rep) = Some w"
    "is_leader_priority (priority (prop_key w))"
    "\<forall>r \<in> set rs. \<exists>p. sum_first (rep_summary r) = Some p \<and> prop_key p = prop_key w"
proof (cases rs)
  case Nil
  then show thesis using assms by (simp add: fast_path_winner_def split: if_splits)
next
  case (Cons rep rest)
  let ?same = "\<lambda>r. case sum_first (rep_summary r) of Some p \<Rightarrow> prop_key p = prop_key w | None \<Rightarrow> False"
  have f: "n = 4" "sum_first (rep_summary rep) = Some w" "is_leader_priority (priority (prop_key w))" "list_all ?same rs"
    using assms unfolding fast_path_winner_def ROUND_ONE_PHASE_ZERO_def Cons
    by (simp_all split: option.splits if_splits)
  have "\<exists>p. sum_first (rep_summary r) = Some p \<and> prop_key p = prop_key w" if "r \<in> set rs" for r
    using f(4) that by (cases "sum_first (rep_summary r)") (auto simp: list_all_iff)
  then show thesis using f Cons that by blast
qed

lemma fast_winner:

  assumes ok: "pass_ok D s run rs" and st: "\<And>rep. rep \<in> set rs \<Longrightarrow> sum_step (rep_summary rep) = run_step run"
    and w: "fast_path_winner (run_step run) rs l = Some w"
  shows "unat (run_step run) = 4" "fast_evidence (dp_cluster D) (sys_calls s (run_slot run)) w" "has_origin D (run_slot run) w"
proof -
  let ?c = "sys_calls s (run_slot run)"
  obtain rep rest where w': "run_step run = 4" "rs = rep # rest" "sum_first (rep_summary rep) = Some w"
    "is_leader_priority (priority (prop_key w))"
    "\<forall>r \<in> set rs. \<exists>p. sum_first (rep_summary r) = Some p \<and> prop_key p = prop_key w"
    using fast_path_winner_Some [OF w] by metis
  show n: "unat (run_step run) = 4" by (simp add: w'(1))
  have f: "bound_to ?c (rep_recorder r) (run_leader run)" "sum_first (rep_summary r) = Some p \<Longrightarrow> first_at ?c (rep_recorder r) 4 = Some p"
    if "r \<in> set rs" for r p
    using answered_facts(3,4) [OF pass_answer [OF ok that]] st [OF that] n by auto
  have fw: "first_at ?c (rep_recorder rep) 4 = Some w" using f(2) [of rep w] w' by simp
  show "fast_evidence (dp_cluster D) ?c w"
    unfolding fast_evidence_def
  proof (intro conjI exI [of _ "rep_recorder ` set rs"] exI [of _ "run_leader run"])
    show "is_leader_priority (priority (prop_key w))" by (rule w'(4))
    show "quorum_set (dp_cluster D) (rep_recorder ` set rs)" using ok by (simp add: pass_ok_def)
    show "\<exists>j \<in> rep_recorder ` set rs. first_at ?c j 4 = Some w" using fw w'(2) by auto
    show "\<forall>j \<in> rep_recorder ` set rs. bound_to ?c j (run_leader run) \<and> (\<exists>f. first_at ?c j 4 = Some f \<and> prop_key f = prop_key w)"
      using f w'(5) by blast
  qed
  show "has_origin D (run_slot run) w" by (rule acc_origin [OF pass_slot_inv [OF ok] first_at_acc [OF fw]])
qed

lemma slow_winner:
  assumes ok: "pass_ok D s run rs" and st: "\<And>rep. rep \<in> set rs \<Longrightarrow> sum_step (rep_summary rep) = run_step run"
    and ph: "step_phase (run_step run) = 2"
    and p: "max_proposal_by_key (filter_some (\<lambda>r. sum_prior_aggregate (rep_summary r)) rs) = Some (run_proposal run)"
  shows "slow_evidence (dp_cluster D) (sys_calls s (run_slot run)) (unat (run_step run)) (run_proposal run)"
proof -
  let ?c = "sys_calls s (run_slot run)" and ?n = "unat (run_step run)"
  have n: "?n mod 4 = 2" using ph by (simp add: step_phase_iffs)
  moreover have "4 \<le> ?n" using ok by (simp add: pass_ok_def run_ok_def Let_def)
  ultimately have "4 < ?n" by (cases "?n = 4") auto
  moreover have "\<forall>j \<in> rep_recorder ` set rs. run_proposal run \<in> set (acc_at ?c j ?n)"
    using pass_spread [OF ok st] ph by simp
  moreover have "quorum_set (dp_cluster D) (rep_recorder ` set rs)" using ok by (simp add: pass_ok_def)
  ultimately show ?thesis
    unfolding slow_evidence_def using n pass_priors(2) [OF ok st p] by blast
qed

lemma handle_finished:
  assumes ok: "pass_ok D s run rs"
    and h: "handle_replies (run_slot run) (run_leader run) (run_step run) (run_proposal run) rs = Finished (Inr d)"
  shows "decision_ok D s d \<and> dec_slot d = run_slot run"
proof (cases "find_map rep_decision rs")
  case (Some x)
  then obtain rep where rep: "rep \<in> set rs" "rep_decision rep = Some x" using find_map_Some by fast
  then have "x \<in> set (sys_decided s)" "dec_slot x = run_slot run"
    using pass_answer(1) [OF ok rep(1)] by (auto simp: answered_def)
  moreover have "d = x" using h Some by (simp add: handle_replies_def split: if_splits)
  ultimately show ?thesis using ok by (simp add: pass_ok_def sys_inv_def)
next
  case None
  let ?w = "fast_path_winner (run_step run) rs (run_leader run)"
  have all: "list_all (\<lambda>r. sum_step (rep_summary r) = run_step run) rs"
    using h None by (auto simp: handle_replies_def split: option.splits if_splits)
  then have st: "\<And>rep. rep \<in> set rs \<Longrightarrow> sum_step (rep_summary rep) = run_step run" by (simp add: list_all_iff)
  have c: "complete_phase (run_slot run) (run_leader run) (run_step run) (run_proposal run) rs = Finished (Inr d)"
    using h None all by (simp add: handle_replies_def)
  have o: "has_origin D (run_slot run) (run_proposal run)" using ok by (simp add: pass_ok_def run_ok_def Let_def)
  consider (fast) w where "?w = Some w" "decision_new (run_slot run) (prop_value_ids w) (proposer_id (prop_key w)) (run_step run) = Inr d"
    | (slow) "step_phase (run_step run) = 2" "max_proposal_by_key (filter_some (\<lambda>r. sum_prior_aggregate (rep_summary r)) rs) = Some (run_proposal run)"
      "decision_new (run_slot run) (prop_value_ids (run_proposal run)) (proposer_id (prop_key (run_proposal run))) (run_step run) = Inr d"
    using c by (auto simp: complete_phase_def next_step_def split: if_splits option.splits)
  then show ?thesis
  proof cases
    case fast
    note w = fast_winner [OF ok st fast(1)]
    show ?thesis using fast(2) w
      by (auto simp: decision_new_def decision_ok_def decision_evidence_def split: if_splits)
  next
    case slow
    note w = slow_winner [OF ok st slow(1,2)]
    show ?thesis using slow(3) w o
      by (auto simp: decision_new_def decision_ok_def decision_evidence_def split: if_splits)
  qed
qed

section \<open>Every reachable state satisfies the invariant\<close>

lemma sys_inv_collect:
  assumes inv: "sys_inv D s" and e: "sys_step D s (Collect i it) = Some s'"
  shows "sys_inv D s'"
proof -
  define run where "run = sys_runs s ! i"
  obtain reqs where i: "i < length (sys_runs s)" "run_sent run = Some reqs"
    and a: "list_all (\<lambda>a. case a of Arrived r (Inr rep) \<Rightarrow> rep_recorder rep = r \<longrightarrow> (i, run_pass run, rep) \<in> set (sys_replies s)
           | _ \<Rightarrow> True) (it_arrivals it)"
    and res: "run_result run = None"
    and s0: "s' = s\<lparr>sys_runs := (sys_runs s)[i := collect_run run reqs it],
        sys_decided := sys_decided s @ (case run_result (collect_run run reqs it) of Some (Inr d) \<Rightarrow> [d] | _ \<Rightarrow> [])\<rparr>"
    using e by (auto simp: run_live_def Let_def run_def split: if_splits option.splits)
  define run' where "run' = collect_run run reqs it"
  define ds where "ds = (case run_result run' of Some (Inr d) \<Rightarrow> [d] | _ \<Rightarrow> [])"
  have s': "s' = s\<lparr>sys_runs := (sys_runs s)[i := run'], sys_requests := sys_requests s @ [], sys_decided := sys_decided s @ ds\<rparr>"
    by (simp add: s0 run'_def ds_def)
  have ok: "run_ok D s run" using inv i(1) by (simp add: sys_inv_def run_def)
  have g: "sys_grows s s'" by (simp add: sys_grows_def s')
  have pass: "pass_ok D s run rs"
    if "collect_quorum reqs (run_quorum run) (pc_cluster (pr_config (run_proposer run))) it = Inr rs" for rs
    using collected [OF inv i(1) run_def a that] inv ok by (simp add: pass_ok_def)
  note cr = run'_def collect_run_def
  have r: "run_slot run' = run_slot run \<and> run_leader run' = run_leader run \<and>
      (run_pass run < run_pass run' \<or> run_pass run' = run_pass run \<and> run_step run' = run_step run
        \<and> run_proposal run' = run_proposal run \<and> run_sent run' \<noteq> None)"
    using i(2) by (simp add: cr split: sum.splits outcome.splits)
  have "run_ok D s run'"
  proof (cases "run_pass run' = run_pass run")
    case True
    then show ?thesis using ok by (auto simp: cr run_ok_def Let_def split: sum.splits outcome.splits)
  next
    case False
    then obtain rs t p where c: "collect_quorum reqs (run_quorum run) (pc_cluster (pr_config (run_proposer run))) it = Inr rs"
      "handle_replies (run_slot run) (run_leader run) (run_step run) (run_proposal run) rs = Continue t p"
      by (auto simp: cr split: sum.splits outcome.splits)
    then have "run' = run\<lparr>run_step := t, run_proposal := p, run_known := [], run_pass := Suc (run_pass run), run_sent := None\<rparr>"
      by (simp add: cr)
    then show ?thesis using handle_continue [OF pass [OF c(1)] c(2)] ok by (auto simp: run_ok_def Let_def)
  qed
  then have "run_ok D s' run'" by (rule run_ok_mono [OF g])
  moreover have "decision_ok D s' d" if "d \<in> set ds" for d
  proof -
    have "run_result run' = Some (Inr d)" using that by (auto simp: ds_def split: option.splits sum.splits)
    then obtain rs where c: "collect_quorum reqs (run_quorum run) (pc_cluster (pr_config (run_proposer run))) it = Inr rs"
      "handle_replies (run_slot run) (run_leader run) (run_step run) (run_proposal run) rs = Finished (Inr d)"
      using res by (auto simp: cr split: sum.splits outcome.splits)
    then show ?thesis using handle_finished [OF pass [OF c(1)] c(2)] decision_ok_mono [OF g] by blast
  qed
  ultimately show ?thesis
    using r by (intro sys_inv_run [OF inv i(1) s']) (auto simp: run_def [symmetric])
qed

lemma sys_inv_step:
  assumes "sys_inv D s" "deployment_ok D" "sys_step D s e = Some s'"
  shows "sys_inv D s'"
proof (cases e)
  case (Start pr k l rs ks)
  then show ?thesis using sys_inv_start [OF assms(1)] assms(3) by blast
next
  case (Send i)
  then show ?thesis using sys_inv_send [OF assms(1,2)] assms(3) by blast
next
  case (Deliver i n r q av)
  then show ?thesis using sys_inv_deliver [OF assms(1,2)] assms(3) by blast
next
  case (Collect i it)
  then show ?thesis using sys_inv_collect [OF assms(1)] assms(3) by blast
next
  case (Inform r d)
  then show ?thesis using sys_inv_inform [OF assms(1)] assms(3) by (auto split: if_splits)
next
  case (Prune r k)
  then show ?thesis using sys_inv_prune [OF assms(1)] assms(3) by auto
qed

lemma reachable_inv: "reachable D s \<Longrightarrow> deployment_ok D \<Longrightarrow> sys_inv D s"
  by (induction rule: reachable.induct) (auto intro: sys_inv_init sys_inv_step)

section \<open>Agreement, validity, no conflicts\<close>

lemma decided_agree:
  assumes "sys_inv D s" "d \<in> set (sys_decided s)" "d' \<in> set (sys_decided s)" "dec_slot d = dec_slot d'"
  shows "dec_value_ids d = dec_value_ids d'"
proof -
  note i = assms(1) [unfolded sys_inv_def]
  obtain p where p: "prop_value_ids p = dec_value_ids d"
    "decision_evidence (dp_cluster D) (sys_calls s (dec_slot d)) (unat (dec_decided_step d)) p"
    using i assms(2) by (auto simp: decision_ok_def)
  obtain q where q: "prop_value_ids q = dec_value_ids d'"
    "decision_evidence (dp_cluster D) (sys_calls s (dec_slot d)) (unat (dec_decided_step d')) q"
    using i assms(3,4) by (auto simp: decision_ok_def)
  have "slot_inv D (dec_slot d) (sys_calls s (dec_slot d))" using i by blast
  from slot.agreement [OF this p(2) q(2)] show ?thesis using p(1) q(1) by simp
qed

text \<open>Decisions that agree never raise the conflict alarm when a recorder learns them.\<close>

lemma validate_decision_not_conflict: "validate_decision cfg d \<noteq> Inl (ConflictingDecision k)"
  by (simp add: validate_decision_def)

lemma inform_no_conflict:
  assumes "\<And>x y. x \<in> A \<Longrightarrow> y \<in> A \<Longrightarrow> dec_slot x = dec_slot y \<Longrightarrow> dec_value_ids x = dec_value_ids y"
  shows "\<forall>k x. bt_get (rc_decisions rc) k = Some x \<longrightarrow> x \<in> A \<and> dec_slot x = k \<Longrightarrow> set ds \<subseteq> A \<Longrightarrow>
    fst (inform_decisions rc ds) \<noteq> Inl (ConflictingDecision k)"
proof (induction ds arbitrary: rc)
  case (Cons d ds)
  obtain r rc' where i: "inform_decision rc d = (r, rc')" by fastforce
  have d: "d \<in> A" using Cons.prems(2) by simp
  have st: "\<forall>k x. bt_get (rc_decisions rc') k = Some x \<longrightarrow> x \<in> A \<and> dec_slot x = k"
    using i by (rule inform_decision_cases) (use Cons.prems(1) d in \<open>auto split: if_splits\<close>)
  have "r \<noteq> Inl (ConflictingDecision k)"
  proof (cases "bt_get (rc_decisions rc) (dec_slot d)")
    case None
    then show ?thesis using i validate_decision_not_conflict [of "rc_config rc" d k]
      by (auto simp: inform_decision_def split: sum.splits if_splits)
  next
    case (Some x)
    then have "dec_value_ids x = dec_value_ids d" using Cons.prems(1) d assms by blast
    then show ?thesis using i Some validate_decision_not_conflict [of "rc_config rc" d k]
      by (auto simp: inform_decision_def split: sum.splits if_splits)
  qed
  then show ?case using Cons.IH [OF st] Cons.prems(2) i by (cases r) auto
qed simp

lemma recorded_no_conflict:
  assumes inv: "sys_inv D s" and ds: "set ds \<subseteq> set (sys_decided s)"
  shows "fst (inform_decisions (sys_recorders s r) ds) \<noteq> Inl (ConflictingDecision k)"
proof (rule inform_no_conflict [OF _ _ ds])
  show "\<forall>k x. bt_get (rc_decisions (sys_recorders s r)) k = Some x \<longrightarrow> x \<in> set (sys_decided s) \<and> dec_slot x = k"
    using inv by (auto simp: sys_inv_def recorder_ok_def Let_def)
qed (use decided_agree [OF inv] in blast)

section \<open>A concrete run\<close>

text \<open>
  A run of three replicas. Replica 2, the leader, decides at step 4 with recorders 1 and 2. Replica 1
  works with recorders 1 and 3, loses its own proposal in phase 0 and decides at step 6.
\<close>

definition demo_cluster :: ClusterIdentity where
  "demo_cluster = \<lparr>ci_members = [1, 2, 3], ci_max_faults = 1, ci_epoch = 0, ci_joint = None\<rparr>"

definition demo_limits :: RecorderLimits where
  "demo_limits = \<lparr>lim_max_active_slots = 2, lim_max_decisions = 2, lim_max_values_per_proposal = 2,
                  lim_max_known_decisions = 2, lim_max_step = 1027\<rparr>"

definition demo_deployment :: "(nat, XorShift64) Deployment" where
  "demo_deployment = \<lparr>dp_cluster = demo_cluster,
     dp_config = (\<lambda>i. \<lparr>cfg_id = i, cfg_cluster = demo_cluster, cfg_limits = demo_limits\<rparr>),
     dp_input = (\<lambda>r l k. Some [unat r]), dp_leader_lane = (\<lambda>r k. 0), dp_next_below = xs_next_below\<rparr>"

definition demo_proposer :: "ReplicaId \<Rightarrow> XorShift64 ProposerCore" where
  "demo_proposer r = with_cluster (proposer_with_rng r 0 (xs_new 7)) demo_cluster"

definition demo_proposal :: "Priority \<Rightarrow> ReplicaId \<Rightarrow> nat Proposal" where
  "demo_proposal x r = \<lparr>prop_key = ProposalKey x r 0, prop_value_ids = [unat r]\<rparr>"

definition demo_request :: "ReplicaId \<Rightarrow> Step \<Rightarrow> nat Proposal \<Rightarrow> nat RecordRequest" where
  "demo_request r n p = phase_request (demo_proposer r) 1 (Some 2) n p []"

definition demo_reply :: "ReplicaId \<Rightarrow> Step \<Rightarrow> nat Proposal \<Rightarrow> nat Proposal option \<Rightarrow> nat arrival" where
  "demo_reply j n f a = Arrived j (Inr \<lparr>rep_recorder = j, rep_cluster = demo_cluster,
     rep_summary = \<lparr>sum_step = n, sum_first = Some f, sum_prior_aggregate = a\<rparr>, rep_decision = None\<rparr>)"

definition demo_decision :: "Step \<Rightarrow> nat Decision" where
  "demo_decision n = \<lparr>dec_slot = 1, dec_value_ids = [2], dec_proposer = 2, dec_decided_step = n\<rparr>"

definition demo_collect :: "nat \<Rightarrow> nat arrival list \<Rightarrow> (nat, XorShift64) event" where
  "demo_collect i as = Collect i \<lparr>it_starts = (\<lambda>_. True), it_deadline_ok = True, it_arrivals = as\<rparr>"

definition demo_events :: "(nat, XorShift64) event list" where
  "demo_events =
     (let p2 = demo_proposal PRIORITY_MAX 2; own1 = demo_proposal 7575888328 1; own3 = demo_proposal 13931920357059763744 1 in
     [Start (demo_proposer 2) 1 (Some 2) [1, 2, 3] [], Start (demo_proposer 1) 1 (Some 2) [1, 2, 3] [], Send 0, Send 1,
      Deliver 0 0 1 (demo_request 2 4 p2) (Inr ()), Deliver 0 0 2 (demo_request 2 4 p2) (Inr ()),
      Deliver 1 0 3 (demo_request 1 4 own3) (Inr ()), Deliver 1 0 1 (demo_request 1 4 own1) (Inr ()),
      demo_collect 0 [demo_reply 1 4 p2 None, demo_reply 2 4 p2 None],
      demo_collect 1 [demo_reply 3 4 own3 None, demo_reply 1 4 p2 None],
      Send 1, Deliver 1 1 1 (demo_request 1 5 p2) (Inr ()), Deliver 1 1 3 (demo_request 1 5 p2) (Inr ()),
      demo_collect 1 [demo_reply 1 5 p2 (Some p2), demo_reply 3 5 p2 (Some own3)],
      Send 1, Deliver 1 2 1 (demo_request 1 6 p2) (Inr ()), Deliver 1 2 3 (demo_request 1 6 p2) (Inr ()),
      demo_collect 1 [demo_reply 1 6 p2 (Some p2), demo_reply 3 6 p2 (Some p2)],
      Inform 1 (demo_decision 4)])"

lemmas demo_defs = demo_deployment_def demo_proposer_def demo_request_def demo_proposal_def demo_reply_def demo_decision_def
  demo_cluster_def demo_limits_def demo_collect_def

lemmas demo_ops = propose_init_def validate_recorders_def quorum_size_def find_repeated_def with_cluster_def
   proposer_with_rng_def proposer_config_default_def cluster_quorum_size_def proposal_new_def
   sys_init_def start_run_def send_run_def collect_run_def run_live_def draws_priorities_def step_phase_iffs
   phase_request_def record_from_def recorder_record_def validate_request_def validate_proposal_def record_slot_def
   slot_register_def isr_record_def isr_default_def isr_advance_def isr_summary_def config_contains_def cluster_contains_def
   recorder_new_def ROUND_ONE_PHASE_ZERO_def STEP_INITIAL_def GENESIS_def bt_or_insert_def
   collect_quorum_def quorum_reached_def has_quorum_def handle_replies_def complete_phase_def fast_path_winner_def is_leader_priority_def
   decision_new_def inform_decision_def validate_decision_def next_step_def step_checked_next_def checked_add_def filter_some_def
   max_proposal_by_key_def best_proposal_def less_eq_ProposalKey_def is_next_after_def with_priority_def

lemma demo_priorities:
  "xs_next_below (xs_new 7) PRIORITY_MAX = (Inr 7575888328, \<lparr>xs_state = 7575888327\<rparr>)"
  "xs_next_below \<lparr>xs_state = 7575888327\<rparr> PRIORITY_MAX = (Inr 8070950887952051653, \<lparr>xs_state = 8070950887952051652\<rparr>)"
  "xs_next_below \<lparr>xs_state = 8070950887952051652\<rparr> PRIORITY_MAX = (Inr 13931920357059763744, \<lparr>xs_state = 13931920357059763743\<rparr>)"
  by (simp_all add: xs_next_below_def xs_new_def PRIORITY_MAX_def Let_def max_def u64_max_numeral word_le_nat_alt word_mod_def)

lemma demo_max:
  "PRIORITY_MAX \<noteq> 7575888328" "PRIORITY_MAX \<noteq> 13931920357059763744"
  "(7575888328::u64) < PRIORITY_MAX" "(13931920357059763744::u64) < PRIORITY_MAX"
  "\<not> PRIORITY_MAX < 7575888328" "\<not> PRIORITY_MAX < 13931920357059763744"
  by (simp_all add: PRIORITY_MAX_def u64_max_numeral word_less_nat_alt)

lemma demo_run:
  "map_option (\<lambda>s. (sys_decided s, take 1 (sys_requests s))) (sys_run demo_deployment (sys_init demo_deployment) demo_events) =
     Some ([demo_decision 4, demo_decision 6], [(0, 0, 1, demo_request 2 4 (demo_proposal PRIORITY_MAX 2))])"
  by (simp add: demo_events_def demo_defs demo_ops Let_def demo_priorities demo_max)

lemma demo_ok: "deployment_ok demo_deployment"
proof -
  have "is_well_formed demo_cluster"
    by (simp add: demo_cluster_def is_well_formed_def members_are_normalized_def windows2_def validate_fault_tolerance_def
        usize_checked_mul_def usize_checked_add_def usize_max_def)
  then show ?thesis by (simp add: deployment_ok_def demo_deployment_def xs.priority_source_axioms)
qed

lemma demo_reachable:
  "\<exists>s. reachable demo_deployment s \<and> sys_decided s = [demo_decision 4, demo_decision 6]
     \<and> (0, 0, 1, demo_request 2 4 (demo_proposal PRIORITY_MAX 2)) \<in> set (sys_requests s)"
proof -
  obtain s where s: "sys_run demo_deployment (sys_init demo_deployment) demo_events = Some s" "sys_decided s = [demo_decision 4, demo_decision 6]"
    and h: "take 1 (sys_requests s) = [(0, 0, 1, demo_request 2 4 (demo_proposal PRIORITY_MAX 2))]"
    using demo_run by (cases "sys_run demo_deployment (sys_init demo_deployment) demo_events") auto
  have r: "reachable demo_deployment s" using reachable_run [OF reachable.init s(1)] .
  have "(0, 0, 1, demo_request 2 4 (demo_proposal PRIORITY_MAX 2)) \<in> set (sys_requests s)"
    using h in_set_takeD [of _ 1 "sys_requests s"] by simp
  then show ?thesis using r s(2) by blast
qed

section \<open>The system's guarantees\<close>







end
