(* ===== verification/QP_Replica.thy ===== *)
theory QP_Replica
  imports QP_Types
begin

text \<open>
  The replica pipeline of \<open>src/replica.rs\<close>: the queue of pending value ids, the log with its commit
  frontier, checkpointing and restart. The lemmas show that committed decisions come out once each
  and in slot order, that no accepted value id disappears except where a full log drops a batch,
  that every reachable replica restarts from its own snapshot, and which slot a proposal gets.
\<close>

section \<open>State\<close>

record ReplicaConfig =
  rlc_batch_size :: usize
  rlc_pipeline_len :: usize
  rlc_max_pending_values :: usize
  rlc_max_log_slots :: usize
  rlc_max_tracked_value_ids :: usize

definition replica_config_default :: ReplicaConfig where
  "replica_config_default = \<lparr>rlc_batch_size = 64, rlc_pipeline_len = 1, rlc_max_pending_values = 65536,
     rlc_max_log_slots = 4096, rlc_max_tracked_value_ids = 1048576\<rparr>"

record 'v LogSlot =
  ls_proposed :: "'v list"
  ls_decision :: "'v Decision option"
  ls_committed :: bool

definition log_slot_default :: "'v LogSlot" where
  "log_slot_default = \<lparr>ls_proposed = [], ls_decision = None, ls_committed = False\<rparr>"

record 'v ReplicaSnapshot =
  rls_log :: "(SlotIndex, 'v LogSlot) btree"
  rls_pending :: "'v list"
  rls_last_proposed :: SlotIndex
  rls_next_commit :: SlotIndex
  rls_checkpointed_through :: SlotIndex
  rls_seen :: "'v set"

record 'v ReplicaCore =
  rl_config :: ReplicaConfig
  rl_log :: "(SlotIndex, 'v LogSlot) btree"
  rl_pending :: "'v list"
  rl_last_proposed :: SlotIndex
  rl_next_commit :: SlotIndex
  rl_checkpointed_through :: SlotIndex
  rl_seen :: "'v set"

definition replica_new :: "ReplicaConfig \<Rightarrow> 'v ReplicaCore" where
  "replica_new config =
     \<lparr>rl_config = config,
      rl_log = bt_insert GENESIS \<lparr>ls_proposed = [], ls_decision = None, ls_committed = True\<rparr> [],
      rl_pending = [], rl_last_proposed = GENESIS, rl_next_commit = 1, rl_checkpointed_through = GENESIS,
      rl_seen = {}\<rparr>"

definition replica_snapshot :: "'v ReplicaCore \<Rightarrow> 'v ReplicaSnapshot" where
  "replica_snapshot rl =
     \<lparr>rls_log = rl_log rl, rls_pending = rl_pending rl, rls_last_proposed = rl_last_proposed rl,
      rls_next_commit = rl_next_commit rl, rls_checkpointed_through = rl_checkpointed_through rl,
      rls_seen = rl_seen rl\<rparr>"

section \<open>Restart\<close>

definition retained_slots :: "(SlotIndex, 'v LogSlot) btree \<Rightarrow> usize" where
  "retained_slots log = length (filter (\<lambda>s. s \<noteq> GENESIS) (bt_keys log))"

definition log_slot_values :: "'v LogSlot \<Rightarrow> 'v list" where
  "log_slot_values e = ls_proposed e @ (case ls_decision e of Some d \<Rightarrow> dec_value_ids d | None \<Rightarrow> [])"

text \<open>The loop over the committed slots above the checkpoint.\<close>

function check_committed_prefix :: "(SlotIndex, 'v LogSlot) btree \<Rightarrow> SlotIndex \<Rightarrow> SlotIndex \<Rightarrow> unit result" where
  "check_committed_prefix log slot next_commit =
     (if slot < next_commit then
        (case bt_get log slot of
           Some e \<Rightarrow>
             if ls_committed e \<and> ls_decision e \<noteq> None then
               (case slot_checked_next slot of
                  None \<Rightarrow> Inl SlotOverflow
                | Some s \<Rightarrow> check_committed_prefix log s next_commit)
             else Inl (InvalidProposal ''replica snapshot skips a committed slot after its checkpoint'')
         | None \<Rightarrow> Inl (InvalidProposal ''replica snapshot skips a committed slot after its checkpoint''))
      else Inr ())"
  by pat_completeness auto

lemma slot_checked_next_Some: "slot_checked_next s = Some s' \<longleftrightarrow> unat s' = Suc (unat s)"
  by (simp add: slot_checked_next_def checked_add_Some)

lemma slot_checked_next_None: "slot_checked_next s = None \<longleftrightarrow> s = u64_max"
  by (simp add: slot_checked_next_def checked_add_one_None)

lemma slot_climbs: "slot_checked_next s = Some s' \<Longrightarrow> 2 ^ 64 - unat s' < 2 ^ 64 - unat s"
proof -
  have "unat s < 2 ^ LENGTH(64)" by (rule unsigned_less)
  moreover assume "slot_checked_next s = Some s'"
  ultimately show ?thesis by (simp add: slot_checked_next_Some)
qed

termination check_committed_prefix
  by (relation "measure (\<lambda>(_, s, _). 2 ^ 64 - unat s)") (auto simp del: power_Suc dest: slot_climbs)

definition replica_restore :: "ReplicaConfig \<Rightarrow> 'v ReplicaSnapshot \<Rightarrow> 'v ReplicaCore result" where
  "replica_restore config s =
     (if length (rls_pending s) > rlc_max_pending_values config
      then Inl (ResourceLimit ''pending value IDs'' (rlc_max_pending_values config))
      else if retained_slots (rls_log s) > rlc_max_log_slots config
      then Inl (ResourceLimit ''retained log slots'' (rlc_max_log_slots config))
      else if card (rls_seen s) > rlc_max_tracked_value_ids config
      then Inl (ResourceLimit ''tracked value IDs'' (rlc_max_tracked_value_ids config))
      else if list_ex (\<lambda>v. v \<notin> rls_seen s) (rls_pending s @ concat (map log_slot_values (bt_values (rls_log s))))
      then Inl (InvalidProposal ''replica snapshot contains an untracked value ID'')
      else if \<not> (case bt_get (rls_log s) GENESIS of Some e \<Rightarrow> ls_committed e | None \<Rightarrow> False)
              \<or> rls_next_commit s \<le> rls_checkpointed_through s
      then Inl (InvalidProposal ''replica snapshot is missing its committed genesis slot'')
      else rbind (ok_or (slot_checked_next (rls_checkpointed_through s)) SlotOverflow) (\<lambda>slot.
        rbind (check_committed_prefix (rls_log s) slot (rls_next_commit s)) (\<lambda>_.
        if list_ex (\<lambda>(i, e). i \<noteq> GENESIS \<and> i \<ge> rls_next_commit s \<and> ls_committed e) (rls_log s)
        then Inl (InvalidProposal ''replica snapshot marks a future slot committed'')
        else Inr \<lparr>rl_config = config, rl_log = rls_log s, rl_pending = rls_pending s,
                  rl_last_proposed = rls_last_proposed s, rl_next_commit = rls_next_commit s,
                  rl_checkpointed_through = rls_checkpointed_through s, rl_seen = rls_seen s\<rparr>)))"

section \<open>Queue and proposals\<close>

fun fresh_values :: "'v set \<Rightarrow> 'v set \<Rightarrow> 'v list \<Rightarrow> 'v list" where
  "fresh_values seen unique [] = []"
| "fresh_values seen unique (v # vs) =
     (if v \<notin> seen \<and> v \<notin> unique then v # fresh_values seen (insert v unique) vs
      else fresh_values seen unique vs)"

definition enqueue :: "'v ReplicaCore \<Rightarrow> 'v list \<Rightarrow> unit result \<times> 'v ReplicaCore" where
  "enqueue rl value_ids =
     (let fresh = fresh_values (rl_seen rl) {} value_ids; config = rl_config rl in
      if length (rl_pending rl) + length fresh > rlc_max_pending_values config
      then (Inl (ResourceLimit ''pending value IDs'' (rlc_max_pending_values config)), rl)
      else if card (rl_seen rl) + length fresh > rlc_max_tracked_value_ids config
      then (Inl (ResourceLimit ''tracked value IDs'' (rlc_max_tracked_value_ids config)), rl)
      else (Inr (), rl\<lparr>rl_seen := rl_seen rl \<union> set fresh, rl_pending := rl_pending rl @ fresh\<rparr>))"

definition ensure_log_capacity :: "'v ReplicaCore \<Rightarrow> SlotIndex \<Rightarrow> unit result" where
  "ensure_log_capacity rl slot =
     (if \<not> bt_contains (rl_log rl) slot \<and> retained_slots (rl_log rl) \<ge> rlc_max_log_slots (rl_config rl)
      then Inl (ResourceLimit ''retained log slots'' (rlc_max_log_slots (rl_config rl)))
      else Inr ())"

definition note_proposed :: "'v ReplicaCore \<Rightarrow> SlotIndex \<Rightarrow> 'v list \<Rightarrow> unit result \<times> 'v ReplicaCore" where
  "note_proposed rl slot value_ids =
     (if value_ids = [] then (Inl EmptyProposal, rl)
      else if card (set value_ids) \<noteq> length value_ids
      then (Inl (InvalidProposal ''proposal contains duplicate value IDs''), rl)
      else let new_ids = set value_ids - rl_seen rl in
      if card (rl_seen rl) + card new_ids > rlc_max_tracked_value_ids (rl_config rl)
      then (Inl (ResourceLimit ''tracked value IDs'' (rlc_max_tracked_value_ids (rl_config rl))), rl)
      else sbind (ensure_log_capacity rl slot, rl) (\<lambda>_ rl.
        let entry = (case bt_get (rl_log rl) slot of Some e \<Rightarrow> e | None \<Rightarrow> log_slot_default) in
        (Inr (), rl\<lparr>rl_seen := rl_seen rl \<union> new_ids, rl_last_proposed := max (rl_last_proposed rl) slot,
                   rl_log := bt_insert slot (entry\<lparr>ls_proposed := value_ids\<rparr>) (rl_log rl)\<rparr>)))"

function next_open_slot :: "(SlotIndex, 'v LogSlot) btree \<Rightarrow> SlotIndex \<Rightarrow> SlotIndex result" where
  "next_open_slot log slot =
     (if (case bt_get log slot of Some e \<Rightarrow> ls_decision e \<noteq> None \<or> ls_proposed e \<noteq> [] | None \<Rightarrow> False)
      then (case slot_checked_next slot of None \<Rightarrow> Inl SlotOverflow | Some s \<Rightarrow> next_open_slot log s)
      else Inr slot)"
  by pat_completeness auto

termination next_open_slot
  by (relation "measure (\<lambda>(_, s). 2 ^ 64 - unat s)") (auto simp del: power_Suc dest: slot_climbs)

definition inflight_count :: "'v ReplicaCore \<Rightarrow> usize" where
  "inflight_count rl =
     length (filter (\<lambda>(s, e). s \<ge> rl_next_commit rl \<and> \<not> ls_committed e \<and> ls_proposed e \<noteq> []) (rl_log rl))"

definition next_proposal :: "'v ReplicaCore \<Rightarrow> (SlotIndex \<times> 'v list) option result \<times> 'v ReplicaCore" where
  "next_proposal rl =
     (if inflight_count rl \<ge> rlc_pipeline_len (rl_config rl) \<or> rl_pending rl = [] then (Inr None, rl)
      else sbind (next_open_slot (rl_log rl) (rl_next_commit rl), rl) (\<lambda>slot rl.
        let n = max (min (rlc_batch_size (rl_config rl)) (length (rl_pending rl))) 1;
            values = take n (rl_pending rl)
        in sbind (note_proposed (rl\<lparr>rl_pending := drop n (rl_pending rl)\<rparr>) slot values) (\<lambda>_ rl.
           (Inr (Some (slot, values)), rl))))"

section \<open>Decisions\<close>

definition committed_through :: "'v ReplicaCore \<Rightarrow> SlotIndex" where
  "committed_through rl = saturating_sub (rl_next_commit rl) 1"

text \<open>On overflow the slot is already marked, as in the source.\<close>

function commit_ready :: "'v ReplicaCore \<Rightarrow> 'v Decision list \<Rightarrow> 'v Decision list result \<times> 'v ReplicaCore" where
  "commit_ready rl committed =
     (let slot = rl_next_commit rl in
      case bt_get (rl_log rl) slot of
        None \<Rightarrow> (Inr committed, rl)
      | Some e \<Rightarrow>
          if ls_committed e then
            (case slot_checked_next slot of
               None \<Rightarrow> (Inl SlotOverflow, rl)
             | Some s \<Rightarrow> commit_ready (rl\<lparr>rl_next_commit := s\<rparr>) committed)
          else
            (case ls_decision e of
               None \<Rightarrow> (Inr committed, rl)
             | Some d \<Rightarrow>
                 let rl' = rl\<lparr>rl_log := bt_insert slot (e\<lparr>ls_committed := True, ls_proposed := []\<rparr>) (rl_log rl)\<rparr> in
                 (case slot_checked_next slot of
                    None \<Rightarrow> (Inl SlotOverflow, rl')
                  | Some s \<Rightarrow> commit_ready (rl'\<lparr>rl_next_commit := s\<rparr>) (committed @ [d]))))"
  by pat_completeness auto

termination commit_ready
  by (relation "measure (\<lambda>(rl, _). 2 ^ 64 - unat (rl_next_commit rl))") (auto simp del: power_Suc dest: slot_climbs)

text \<open>A losing batch goes back to the front of the queue, without the values the decision contains.\<close>

definition apply_decision :: "'v ReplicaCore \<Rightarrow> 'v Decision \<Rightarrow> 'v Decision list result \<times> 'v ReplicaCore" where
  "apply_decision rl d =
     (if dec_value_ids d = [] then (Inl EmptyDecision, rl)
      else if card (set (dec_value_ids d)) \<noteq> length (dec_value_ids d)
      then (Inl (InvalidProposal ''decision contains duplicate value IDs''), rl)
      else let new_ids = set (dec_value_ids d) - rl_seen rl in
      if card (rl_seen rl) + card new_ids > rlc_max_tracked_value_ids (rl_config rl)
      then (Inl (ResourceLimit ''tracked value IDs'' (rlc_max_tracked_value_ids (rl_config rl))), rl)
      else sbind (ensure_log_capacity rl (dec_slot d), rl) (\<lambda>_ rl.
        let log = bt_or_insert (dec_slot d) log_slot_default (rl_log rl);
            entry = (case bt_get log (dec_slot d) of Some e \<Rightarrow> e | None \<Rightarrow> log_slot_default);
            rl = rl\<lparr>rl_log := log\<rparr>
        in case ls_decision entry of
             Some existing \<Rightarrow>
               if dec_value_ids existing \<noteq> dec_value_ids d then (Inl (ConflictingDecision (dec_slot d)), rl)
               else (Inr [], rl)
           | None \<Rightarrow>
               let requeue = (if ls_proposed entry \<noteq> [] \<and> ls_proposed entry \<noteq> dec_value_ids d
                              then filter (\<lambda>v. v \<notin> set (dec_value_ids d)) (ls_proposed entry) else [])
               in if ls_proposed entry \<noteq> [] \<and> ls_proposed entry \<noteq> dec_value_ids d
                     \<and> length (rl_pending rl) + length requeue > rlc_max_pending_values (rl_config rl)
                  then (Inl (ResourceLimit ''pending value IDs'' (rlc_max_pending_values (rl_config rl))), rl)
                  else commit_ready (rl\<lparr>rl_pending := requeue @ rl_pending rl,
                                        rl_log := bt_insert (dec_slot d) (entry\<lparr>ls_decision := Some d\<rparr>) log,
                                        rl_seen := rl_seen rl \<union> new_ids\<rparr>) []))"

definition replica_prune_through :: "'v ReplicaCore \<Rightarrow> SlotIndex \<Rightarrow> 'v ReplicaCore" where
  "replica_prune_through rl slot =
     (let through = max (min slot (committed_through rl)) (rl_checkpointed_through rl) in
      rl\<lparr>rl_log := bt_retain (\<lambda>i e. i = GENESIS \<or> i > through \<or> \<not> ls_committed e) (rl_log rl),
         rl_checkpointed_through := through\<rparr>)"

declare check_committed_prefix.simps [simp del] next_open_slot.simps [simp del] commit_ready.simps [simp del]

section \<open>The invariant\<close>

definition log_ok :: "'v set \<Rightarrow> SlotIndex \<Rightarrow> SlotIndex \<Rightarrow> (SlotIndex, 'v LogSlot) btree \<Rightarrow> bool" where
  "log_ok seen ckpt nc log =
     (bt_wf log \<and> (\<exists>e. bt_get log GENESIS = Some e \<and> ls_committed e) \<and> ckpt < nc
      \<and> (\<forall>s. ckpt < s \<and> s < nc \<longrightarrow> (\<exists>e. bt_get log s = Some e \<and> ls_committed e \<and> ls_decision e \<noteq> None))
      \<and> (\<forall>s e. bt_get log s = Some e \<longrightarrow> (nc \<le> s \<longrightarrow> \<not> ls_committed e)
           \<and> (ls_committed e \<and> s \<noteq> GENESIS \<longrightarrow> ls_decision e \<noteq> None)
           \<and> (\<forall>d. ls_decision e = Some d \<longrightarrow> dec_slot d = s \<and> s \<noteq> u64_max)
           \<and> set (log_slot_values e) \<subseteq> seen))"

definition replica_inv :: "'v ReplicaCore \<Rightarrow> bool" where
  "replica_inv rl =
     (log_ok (rl_seen rl) (rl_checkpointed_through rl) (rl_next_commit rl) (rl_log rl)
      \<and> set (rl_pending rl) \<subseteq> rl_seen rl \<and> finite (rl_seen rl)
      \<and> card (rl_seen rl) \<le> rlc_max_tracked_value_ids (rl_config rl)
      \<and> length (rl_pending rl) \<le> rlc_max_pending_values (rl_config rl)
      \<and> retained_slots (rl_log rl) \<le> rlc_max_log_slots (rl_config rl))"

lemma log_okD:
  assumes "log_ok seen ckpt nc log"
  shows "bt_wf log" and "ckpt < nc"
    and "ckpt < s \<Longrightarrow> s < nc \<Longrightarrow> \<exists>e. bt_get log s = Some e \<and> ls_committed e \<and> ls_decision e \<noteq> None"
    and "bt_get log s = Some e \<Longrightarrow> nc \<le> s \<Longrightarrow> \<not> ls_committed e"
    and "bt_get log s = Some e \<Longrightarrow> ls_committed e \<Longrightarrow> s \<noteq> GENESIS \<Longrightarrow> ls_decision e \<noteq> None"
    and "bt_get log s = Some e \<Longrightarrow> ls_decision e = Some d \<Longrightarrow> dec_slot d = s \<and> s \<noteq> u64_max"
    and "bt_get log s = Some e \<Longrightarrow> set (log_slot_values e) \<subseteq> seen"
  using assms by (auto simp: log_ok_def)

lemma log_ok_mono: "log_ok seen ckpt nc log \<Longrightarrow> seen \<subseteq> seen' \<Longrightarrow> log_ok seen' ckpt nc log"
  by (auto simp: log_ok_def) blast

text \<open>Replacing or adding one uncommitted entry, or extending a committed one.\<close>

lemma log_ok_insert:
  assumes "log_ok seen ckpt nc log" and "set (log_slot_values e) \<subseteq> seen"
    and "\<And>d. ls_decision e = Some d \<Longrightarrow> dec_slot d = s \<and> s \<noteq> u64_max"
    and "\<And>old. bt_get log s = Some old \<Longrightarrow> ls_committed e = ls_committed old \<and> (ls_decision old \<noteq> None \<longrightarrow> ls_decision e \<noteq> None)"
    and "bt_get log s = None \<Longrightarrow> \<not> ls_committed e"
  shows "log_ok seen ckpt nc (bt_insert s e log)"
proof (cases "bt_get log s")
  case None
  then show ?thesis using assms by (auto simp: log_ok_def)
next
  case (Some old)
  then show ?thesis using assms(1-3) assms(4) [OF Some] by (auto simp: log_ok_def)
qed

lemma retained_insert_present: "bt_wf log \<Longrightarrow> bt_get log s \<noteq> None \<Longrightarrow> retained_slots (bt_insert s e log) = retained_slots log"
  unfolding retained_slots_def by (simp add: bt_insert_present_keys)

lemma retained_insert_le: "retained_slots (bt_insert s e log) \<le> Suc (retained_slots log)"
  by (induction log) (auto simp: retained_slots_def)

lemma retained_insert_capacity:
  assumes "ensure_log_capacity rl s = Inr ()" and "replica_inv rl"
  shows "retained_slots (bt_insert s e (rl_log rl)) \<le> rlc_max_log_slots (rl_config rl)"
proof (cases "bt_get (rl_log rl) s")
  case None
  then show ?thesis using assms(1) retained_insert_le [of s e "rl_log rl"]
    unfolding ensure_log_capacity_def bt_contains_get by (simp split: if_splits)
next
  case Some
  then show ?thesis using assms(2) log_okD(1) [of "rl_seen rl"] by (auto simp: replica_inv_def retained_insert_present)
qed

lemma replica_inv_new: "replica_inv (replica_new config)"
  by (auto simp: replica_inv_def replica_new_def log_ok_def GENESIS_def retained_slots_def log_slot_values_def
      bt_wf_def word_less_nat_alt word_le_nat_alt)

section \<open>Commitment\<close>

definition slot_range :: "SlotIndex \<Rightarrow> SlotIndex \<Rightarrow> SlotIndex list" where
  "slot_range a b = map of_nat [unat a..<unat b]"

lemma slot_range_Cons:
  assumes "slot_checked_next a = Some a'" and "a' \<le> b"
  shows "slot_range a b = a # slot_range a' b"
proof -
  have "unat a < unat b" using assms by (simp add: slot_checked_next_Some word_le_nat_alt)
  then show ?thesis using assms(1) by (simp add: slot_range_def slot_checked_next_Some upt_rec)
qed

lemma slot_range_append: "a \<le> b \<Longrightarrow> b \<le> c \<Longrightarrow> slot_range a c = slot_range a b @ slot_range b c"
  using upt_add_eq_append [of "unat a" "unat b" "unat c - unat b"]
  by (simp add: slot_range_def word_le_nat_alt flip: map_append)

lemma slot_range_self [simp]: "slot_range a a = []"
  by (simp add: slot_range_def)

lemma slot_range_mem: "s \<in> set (slot_range a b) \<longleftrightarrow> unat a \<le> unat s \<and> unat s < unat b"
proof -
  have "unat b < 2 ^ LENGTH(64)" by (rule unsigned_less)
  then have "unat (of_nat i :: u64) = i" if "i < unat b" for i using that by (simp add: unat_of_nat)
  then show ?thesis by (auto simp: slot_range_def image_iff intro!: bexI [of _ "unat s"])
qed

lemma slot_next_le: "slot_checked_next a = Some a' \<Longrightarrow> (s < a' \<longleftrightarrow> s \<le> a) \<and> (a' \<le> s \<longleftrightarrow> a < s)"
  by (auto simp: slot_checked_next_Some word_less_nat_alt word_le_nat_alt)

lemma commit_one:
  assumes inv: "replica_inv rl" and e: "bt_get (rl_log rl) (rl_next_commit rl) = Some e" and d: "ls_decision e = Some d"
    and n: "slot_checked_next (rl_next_commit rl) = Some s"
  shows "replica_inv (rl\<lparr>rl_log := bt_insert (rl_next_commit rl) (e\<lparr>ls_committed := True, ls_proposed := []\<rparr>) (rl_log rl), rl_next_commit := s\<rparr>)"
proof -
  let ?nc = "rl_next_commit rl" and ?c = "rl_checkpointed_through rl"
  have ok: "log_ok (rl_seen rl) ?c ?nc (rl_log rl)" using inv by (simp add: replica_inv_def)
  have le: "x < s \<longleftrightarrow> x \<le> ?nc" "s \<le> x \<longleftrightarrow> ?nc < x" for x using slot_next_le [OF n] by auto
  have v: "set (dec_value_ids d) \<subseteq> rl_seen rl" using log_okD(7) [OF ok e] d by (simp add: log_slot_values_def)
  have "log_ok (rl_seen rl) ?c s (bt_insert ?nc (e\<lparr>ls_committed := True, ls_proposed := []\<rparr>) (rl_log rl))"
    using ok e d v unfolding log_ok_def
    by (auto simp: le log_slot_values_def dest: order.strict_implies_order)
  then show ?thesis using inv e by (simp add: replica_inv_def retained_insert_present log_okD(1) [OF ok])
qed

text \<open>What a commit run leaves alone.\<close>

definition same_but_committed :: "'v ReplicaCore \<Rightarrow> 'v ReplicaCore \<Rightarrow> bool" where
  "same_but_committed rl rl' =
     (rl_config rl' = rl_config rl \<and> rl_pending rl' = rl_pending rl \<and> rl_seen rl' = rl_seen rl
      \<and> rl_checkpointed_through rl' = rl_checkpointed_through rl
      \<and> (\<forall>s. map_option ls_decision (bt_get (rl_log rl') s) = map_option ls_decision (bt_get (rl_log rl) s))
      \<and> (\<forall>s e. bt_get (rl_log rl) s = Some e \<and> ls_decision e = None \<longrightarrow> bt_get (rl_log rl') s = Some e))"

lemma same_but_committed_refl: "same_but_committed rl rl"
  by (simp add: same_but_committed_def)

lemma same_but_committed_trans:
  "same_but_committed a b \<Longrightarrow> same_but_committed b c \<Longrightarrow> same_but_committed a c"
  by (simp add: same_but_committed_def)

definition frontier_open :: "'v ReplicaCore \<Rightarrow> bool" where
  "frontier_open rl = (\<forall>e. bt_get (rl_log rl) (rl_next_commit rl) = Some e \<longrightarrow> ls_decision e = None)"

lemma commit_ready_ok:
  assumes "replica_inv rl"
  shows "\<exists>ds rl'. commit_ready rl acc = (Inr (acc @ ds), rl') \<and> replica_inv rl' \<and> frontier_open rl'
    \<and> same_but_committed rl rl' \<and> rl_next_commit rl \<le> rl_next_commit rl'
    \<and> map dec_slot ds = slot_range (rl_next_commit rl) (rl_next_commit rl')
    \<and> (\<forall>d \<in> set ds. \<exists>e. bt_get (rl_log rl) (dec_slot d) = Some e \<and> ls_decision e = Some d)"
  using assms
proof (induction rl acc rule: commit_ready.induct)
  case (1 rl acc)
  let ?nc = "rl_next_commit rl"
  have ok: "log_ok (rl_seen rl) (rl_checkpointed_through rl) ?nc (rl_log rl)" using 1(3) by (simp add: replica_inv_def)
  show ?case
  proof (cases "bt_get (rl_log rl) ?nc")
    case None
    then show ?thesis using 1(3) by (auto simp: commit_ready.simps [of rl] frontier_open_def same_but_committed_refl)
  next
    case (Some e)
    have nc: "\<not> ls_committed e" using log_okD(4) [OF ok Some] by simp
    show ?thesis
    proof (cases "ls_decision e")
      case None
      then show ?thesis using 1(3) Some nc
        by (auto simp: commit_ready.simps [of rl] frontier_open_def same_but_committed_refl)
    next
      case d: (Some d)
      have "?nc \<noteq> u64_max" using log_okD(6) [OF ok Some d] by simp
      then obtain s where s: "slot_checked_next ?nc = Some s" using slot_checked_next_None by blast
      let ?e = "e\<lparr>ls_committed := True, ls_proposed := []\<rparr>"
      let ?rl = "rl\<lparr>rl_log := bt_insert ?nc ?e (rl_log rl), rl_next_commit := s\<rparr>"
      have st: "commit_ready rl acc = commit_ready ?rl (acc @ [d])"
        using Some nc d s by (subst commit_ready.simps) (simp add: Let_def)
      obtain ds rl' where r: "commit_ready ?rl (acc @ [d]) = (Inr (acc @ [d] @ ds), rl')" "replica_inv rl'"
          "frontier_open rl'" "same_but_committed ?rl rl'" "s \<le> rl_next_commit rl'"
          "map dec_slot ds = slot_range s (rl_next_commit rl')"
          "\<forall>d' \<in> set ds. \<exists>e'. bt_get (rl_log ?rl) (dec_slot d') = Some e' \<and> ls_decision e' = Some d'"
        using 1(2) [OF refl Some nc d refl s] commit_one [OF 1(3) Some d s] by auto
      have sm: "same_but_committed rl ?rl" using Some d by (auto simp: same_but_committed_def)
      have le: "?nc \<le> rl_next_commit rl'" using r(5) slot_next_le [OF s] by (meson order.strict_implies_order)
      have sl: "map dec_slot (d # ds) = slot_range ?nc (rl_next_commit rl')"
        using r(6) slot_range_Cons [OF s r(5)] log_okD(6) [OF ok Some d] by simp
      have src: "\<exists>e'. bt_get (rl_log rl) (dec_slot x) = Some e' \<and> ls_decision e' = Some x" if "x \<in> set (d # ds)" for x
        using that r(7) Some d log_okD(6) [OF ok Some d] by (fastforce split: if_splits)
      have all: "commit_ready rl acc = (Inr (acc @ (d # ds)), rl')" using st r(1) by simp
      show ?thesis using all r(2,3) same_but_committed_trans [OF sm r(4)] le sl src by blast
    qed
  qed
qed


section \<open>Every operation keeps the invariant\<close>

lemma fresh_values_props:
  "set (fresh_values seen unique vs) = set vs - seen - unique \<and> distinct (fresh_values seen unique vs)"
  by (induction seen unique vs rule: fresh_values.induct) auto

lemma enqueue_inv: "replica_inv rl \<Longrightarrow> enqueue rl vs = (r, rl') \<Longrightarrow> replica_inv rl'"
proof -
  assume inv: "replica_inv rl" and e: "enqueue rl vs = (r, rl')"
  let ?f = "fresh_values (rl_seen rl) {} vs"
  have c: "card (rl_seen rl \<union> set ?f) \<le> card (rl_seen rl) + length ?f"
    using card_Un_le [of "rl_seen rl" "set ?f"] card_length [of ?f] by linarith
  show ?thesis using e inv c log_ok_mono [of "rl_seen rl" _ _ "rl_log rl" "rl_seen rl \<union> set ?f"]
    by (auto simp: enqueue_def Let_def replica_inv_def split: if_splits)
qed

lemma note_proposed_cases:
  assumes "note_proposed rl slot vs = (r, rl')"
  obtains (refused) e where "r = Inl e" "rl' = rl"
  | (noted) "r = Inr ()" "vs \<noteq> []" "distinct vs" "ensure_log_capacity rl slot = Inr ()"
      "card (rl_seen rl) + card (set vs - rl_seen rl) \<le> rlc_max_tracked_value_ids (rl_config rl)"
      "rl' = rl\<lparr>rl_seen := rl_seen rl \<union> set vs, rl_last_proposed := max (rl_last_proposed rl) slot,
        rl_log := bt_insert slot ((case bt_get (rl_log rl) slot of Some e \<Rightarrow> e | None \<Rightarrow> log_slot_default)\<lparr>ls_proposed := vs\<rparr>) (rl_log rl)\<rparr>"
proof (cases "vs \<noteq> [] \<and> distinct vs \<and> card (rl_seen rl) + card (set vs - rl_seen rl) \<le> rlc_max_tracked_value_ids (rl_config rl)
    \<and> ensure_log_capacity rl slot = Inr ()")
  case True
  then have "note_proposed rl slot vs = (Inr (), rl\<lparr>rl_seen := rl_seen rl \<union> set vs, rl_last_proposed := max (rl_last_proposed rl) slot,
        rl_log := bt_insert slot ((case bt_get (rl_log rl) slot of Some e \<Rightarrow> e | None \<Rightarrow> log_slot_default)\<lparr>ls_proposed := vs\<rparr>) (rl_log rl)\<rparr>)"
    by (simp add: note_proposed_def Let_def distinct_card)
  then show thesis using that(2) True assms by simp
next
  case False
  have "\<exists>e. note_proposed rl slot vs = (Inl e, rl)"
  proof (cases "ensure_log_capacity rl slot")
    case Inl
    then show ?thesis by (simp add: note_proposed_def Let_def)
  next
    case Inr
    then show ?thesis using False by (auto simp: note_proposed_def Let_def not_le dest: card_distinct)
  qed
  then show thesis using that(1) assms by auto
qed

lemma note_proposed_inv:
  assumes "replica_inv rl" and "note_proposed rl slot vs = (r, rl')"
  shows "replica_inv rl'"
  using assms(2)
proof (cases rule: note_proposed_cases)
  case noted
  let ?seen = "rl_seen rl \<union> set vs"
  let ?e = "(case bt_get (rl_log rl) slot of Some e \<Rightarrow> e | None \<Rightarrow> log_slot_default)\<lparr>ls_proposed := vs\<rparr>"
  have ok: "log_ok (rl_seen rl) (rl_checkpointed_through rl) (rl_next_commit rl) (rl_log rl)"
    using assms(1) by (simp add: replica_inv_def)
  have "card ?seen \<le> rlc_max_tracked_value_ids (rl_config rl)"
    using noted(5) card_Un_le [of "rl_seen rl" "set vs - rl_seen rl"] by simp
  moreover have "log_ok ?seen (rl_checkpointed_through rl) (rl_next_commit rl) (bt_insert slot ?e (rl_log rl))"
  proof (rule log_ok_insert)
    show "log_ok ?seen (rl_checkpointed_through rl) (rl_next_commit rl) (rl_log rl)" by (rule log_ok_mono [OF ok]) simp
    show "set (log_slot_values ?e) \<subseteq> ?seen"
      using log_okD(7) [OF ok, of slot] by (fastforce simp: log_slot_values_def log_slot_default_def split: option.splits)
    show "dec_slot d = slot \<and> slot \<noteq> u64_max" if "ls_decision ?e = Some d" for d
      using that log_okD(6) [OF ok, of slot] by (auto simp: log_slot_default_def split: option.splits)
  qed (auto simp: log_slot_default_def)
  ultimately show ?thesis
    using assms(1) noted(6) retained_insert_capacity [OF noted(4) assms(1), of ?e] by (auto simp: replica_inv_def)
qed (simp add: assms)

lemma note_proposed_config: "note_proposed rl slot vs = (r, rl') \<Longrightarrow> rl_config rl' = rl_config rl \<and> rl_next_commit rl' = rl_next_commit rl"
  by (erule note_proposed_cases) auto

lemma next_proposal_cases:
  assumes "next_proposal rl = (r, rl')"
  obtains (idle) "r = Inr None" "rl' = rl"
  | (no_slot) e where "r = Inl e" "rl' = rl" "next_open_slot (rl_log rl) (rl_next_commit rl) = Inl e"
  | (tried) slot n x where "inflight_count rl < rlc_pipeline_len (rl_config rl)" "rl_pending rl \<noteq> []"
      "n = max (min (rlc_batch_size (rl_config rl)) (length (rl_pending rl))) 1"
      "next_open_slot (rl_log rl) (rl_next_commit rl) = Inr slot"
      "note_proposed (rl\<lparr>rl_pending := drop n (rl_pending rl)\<rparr>) slot (take n (rl_pending rl)) = (x, rl')"
      "r = (case x of Inl e \<Rightarrow> Inl e | Inr _ \<Rightarrow> Inr (Some (slot, take n (rl_pending rl))))"
proof (cases "inflight_count rl \<ge> rlc_pipeline_len (rl_config rl) \<or> rl_pending rl = []")
  case True
  then show thesis using that(1) assms by (auto simp: next_proposal_def)
next
  case False
  let ?n = "max (min (rlc_batch_size (rl_config rl)) (length (rl_pending rl))) 1"
  show thesis
  proof (cases "next_open_slot (rl_log rl) (rl_next_commit rl)")
    case (Inl e)
    then show thesis using that(2) [OF _ _ Inl] False assms by (simp add: next_proposal_def)
  next
    case (Inr slot)
    obtain x rl2 where n: "note_proposed (rl\<lparr>rl_pending := drop ?n (rl_pending rl)\<rparr>) slot (take ?n (rl_pending rl)) = (x, rl2)"
      by fastforce
    have "(r, rl') = (case x of Inl e \<Rightarrow> Inl e | Inr _ \<Rightarrow> Inr (Some (slot, take ?n (rl_pending rl))), rl2)"
      using False Inr n assms by (cases x) (simp_all add: next_proposal_def Let_def)
    then show thesis using that(3) [OF _ _ refl Inr] False n by (simp add: not_le)
  qed
qed

lemma replica_inv_drop: "replica_inv rl \<Longrightarrow> replica_inv (rl\<lparr>rl_pending := drop n (rl_pending rl)\<rparr>)"
  by (auto simp: replica_inv_def dest: in_set_dropD)

lemma next_proposal_inv: "replica_inv rl \<Longrightarrow> next_proposal rl = (r, rl') \<Longrightarrow> replica_inv rl'"
  by (erule next_proposal_cases) (auto intro: note_proposed_inv replica_inv_drop)

text \<open>The state with which a new decision enters the commit run.\<close>

definition decided_state :: "'v ReplicaCore \<Rightarrow> 'v Decision \<Rightarrow> 'v ReplicaCore" where
  "decided_state rl d =
     (let e = (case bt_get (rl_log rl) (dec_slot d) of Some e \<Rightarrow> e | None \<Rightarrow> log_slot_default) in
      rl\<lparr>rl_pending := (if ls_proposed e \<noteq> [] \<and> ls_proposed e \<noteq> dec_value_ids d
                        then filter (\<lambda>v. v \<notin> set (dec_value_ids d)) (ls_proposed e) else []) @ rl_pending rl,
         rl_log := bt_insert (dec_slot d) (e\<lparr>ls_decision := Some d\<rparr>) (rl_log rl),
         rl_seen := rl_seen rl \<union> set (dec_value_ids d)\<rparr>)"

lemma bt_insert_or_insert: "bt_wf m \<Longrightarrow> bt_insert k v (bt_or_insert k w m) = bt_insert k v m"
  by (rule bt_eqI) auto

lemma bt_or_insert_present: "bt_get m k = Some v \<Longrightarrow> bt_or_insert k w m = m"
  unfolding bt_or_insert_def bt_contains_get by simp

lemma apply_decision_cases:
  assumes "apply_decision rl d = (r, rl')" and "bt_wf (rl_log rl)"
  obtains (refused) e where "r = Inl e" "rl' = rl" "e \<noteq> SlotOverflow"
  | (known) e old where "r = Inr []" "rl' = rl" "bt_get (rl_log rl) (dec_slot d) = Some e" "ls_decision e = Some old"
      "dec_value_ids old = dec_value_ids d"
  | (new) "commit_ready (decided_state rl d) [] = (r, rl')" "dec_value_ids d \<noteq> []" "distinct (dec_value_ids d)"
      "card (rl_seen rl) + card (set (dec_value_ids d) - rl_seen rl) \<le> rlc_max_tracked_value_ids (rl_config rl)"
      "ensure_log_capacity rl (dec_slot d) = Inr ()"
      "\<forall>e. bt_get (rl_log rl) (dec_slot d) = Some e \<longrightarrow> ls_decision e = None"
      "length (rl_pending (decided_state rl d)) \<le> max (length (rl_pending rl)) (rlc_max_pending_values (rl_config rl))"
proof (cases "bt_get (rl_log rl) (dec_slot d)")
  case None
  then show thesis
    using assms that
    by (auto simp: apply_decision_def decided_state_def Let_def sbind_def card_distinct ensure_log_capacity_def
        bt_insert_or_insert log_slot_default_def split: if_splits)
next
  case (Some e)
  then show thesis
    using assms that
    by (auto simp: apply_decision_def decided_state_def Let_def sbind_def card_distinct ensure_log_capacity_def
        bt_or_insert_present split: if_splits option.splits)
qed

lemma decided_state_inv:
  assumes inv: "replica_inv rl" and "dec_slot d \<noteq> u64_max"
    and "card (rl_seen rl) + card (set (dec_value_ids d) - rl_seen rl) \<le> rlc_max_tracked_value_ids (rl_config rl)"
    and cap: "ensure_log_capacity rl (dec_slot d) = Inr ()"
    and "length (rl_pending (decided_state rl d)) \<le> max (length (rl_pending rl)) (rlc_max_pending_values (rl_config rl))"
  shows "replica_inv (decided_state rl d)"
proof -
  let ?e = "case bt_get (rl_log rl) (dec_slot d) of Some e \<Rightarrow> e | None \<Rightarrow> log_slot_default"
  let ?seen = "rl_seen rl \<union> set (dec_value_ids d)"
  have ok: "log_ok (rl_seen rl) (rl_checkpointed_through rl) (rl_next_commit rl) (rl_log rl)"
    using inv by (simp add: replica_inv_def)
  have v: "set (ls_proposed ?e) \<subseteq> rl_seen rl"
    using log_okD(7) [OF ok, of "dec_slot d"] by (auto simp: log_slot_values_def log_slot_default_def split: option.splits)
  have c: "card ?seen \<le> rlc_max_tracked_value_ids (rl_config rl)"
    using assms(3) card_Un_le [of "rl_seen rl" "set (dec_value_ids d) - rl_seen rl"] by simp
  have l: "log_ok ?seen (rl_checkpointed_through rl) (rl_next_commit rl) (bt_insert (dec_slot d) (?e\<lparr>ls_decision := Some d\<rparr>) (rl_log rl))"
  proof (rule log_ok_insert)
    show "log_ok ?seen (rl_checkpointed_through rl) (rl_next_commit rl) (rl_log rl)" by (rule log_ok_mono [OF ok]) simp
  qed (use v assms(2) in \<open>auto simp: log_slot_values_def log_slot_default_def\<close>)
  have p: "set (rl_pending (decided_state rl d)) \<subseteq> ?seen"
    using v inv by (auto simp: decided_state_def Let_def replica_inv_def)
  have "length (rl_pending (decided_state rl d)) \<le> rlc_max_pending_values (rl_config rl)"
    using assms(5) inv by (simp add: replica_inv_def)
  with c l p show ?thesis
    using inv retained_insert_capacity [OF cap inv, of "?e\<lparr>ls_decision := Some d\<rparr>"]
    by (simp add: replica_inv_def) (simp add: decided_state_def Let_def)
qed

lemma apply_decision_inv:
  assumes inv: "replica_inv rl" and a: "apply_decision rl d = (r, rl')" and "dec_slot d \<noteq> u64_max"
  shows "replica_inv rl' \<and> r \<noteq> Inl SlotOverflow"
proof -
  have "bt_wf (rl_log rl)" using inv by (auto simp: replica_inv_def dest: log_okD(1))
  from a this show ?thesis
  proof (cases rule: apply_decision_cases)
    case new
    then show ?thesis using commit_ready_ok [OF decided_state_inv [OF inv assms(3) new(4,5,7)], of "[]"] by auto
  qed (use inv in auto)
qed

lemma committed_through_less:
  "replica_inv rl \<Longrightarrow> (s \<le> committed_through rl \<longleftrightarrow> s < rl_next_commit rl)"
proof -
  assume "replica_inv rl"
  then have "rl_checkpointed_through rl < rl_next_commit rl" by (simp add: replica_inv_def log_ok_def)
  then have "0 < unat (rl_next_commit rl)" unfolding word_less_nat_alt by linarith
  then show ?thesis unfolding committed_through_def word_le_nat_alt word_less_nat_alt unat_saturating_sub by simp arith
qed

lemma retained_retain: "retained_slots (bt_retain P log) \<le> retained_slots log"
  by (induction log) (auto simp: retained_slots_def bt_retain_def)

lemma replica_prune_inv:
  assumes inv: "replica_inv rl"
  shows "replica_inv (replica_prune_through rl slot)"
proof -
  let ?t = "max (min slot (committed_through rl)) (rl_checkpointed_through rl)"
  have ok: "log_ok (rl_seen rl) (rl_checkpointed_through rl) (rl_next_commit rl) (rl_log rl)"
    using inv by (simp add: replica_inv_def)
  have t: "?t < rl_next_commit rl"
    using committed_through_less [OF inv] log_okD(2) [OF ok] by (auto simp: max_def min_def)
  have "rl_checkpointed_through rl \<le> ?t" by simp
  then have "log_ok (rl_seen rl) ?t (rl_next_commit rl) (bt_retain (\<lambda>i e. i = GENESIS \<or> i > ?t \<or> \<not> ls_committed e) (rl_log rl))"
    using ok t unfolding log_ok_def
    by (auto simp: bt_get_retain split: option.splits if_splits dest: le_less_trans)
  then show ?thesis
    using inv retained_retain [of _ "rl_log rl"]
    by (auto simp: replica_inv_def replica_prune_through_def Let_def intro: order_trans)
qed

section \<open>Restart and histories\<close>

lemma check_committed_prefix_ok:
  "(\<And>s. slot \<le> s \<Longrightarrow> s < nc \<Longrightarrow> \<exists>e. bt_get log s = Some e \<and> ls_committed e \<and> ls_decision e \<noteq> None) \<Longrightarrow>
   check_committed_prefix log slot nc = Inr ()"
proof (induction log slot nc rule: check_committed_prefix.induct)
  case (1 log slot nc)
  show ?case
  proof (cases "slot < nc")
    case True
    then obtain e where e: "bt_get log slot = Some e" "ls_committed e \<and> ls_decision e \<noteq> None"
      using 1(2) [of slot] by auto
    have "slot \<noteq> u64_max" using True le_u64_max [of nc] by (metis leD)
    then obtain s where s: "slot_checked_next slot = Some s" using slot_checked_next_None by blast
    have "check_committed_prefix log s nc = Inr ()"
    proof (rule 1(1) [OF True e s])
      show "\<exists>e. bt_get log x = Some e \<and> ls_committed e \<and> ls_decision e \<noteq> None" if "s \<le> x" "x < nc" for x
        using that slot_next_le [OF s, of x] 1(2) [of x] by auto
    qed
    then show ?thesis using True e s by (subst check_committed_prefix.simps) simp
  next
    case False
    then show ?thesis by (simp add: check_committed_prefix.simps [of log slot nc])
  qed
qed

lemma replica_restore_snapshot:
  assumes "replica_inv rl"
  shows "replica_restore (rl_config rl) (replica_snapshot rl) = Inr rl"
proof -
  let ?c = "rl_checkpointed_through rl" and ?nc = "rl_next_commit rl" and ?log = "rl_log rl"
  have ok: "log_ok (rl_seen rl) ?c ?nc ?log" using assms by (simp add: replica_inv_def)
  have "?c \<noteq> u64_max" using log_okD(2) [OF ok] by (metis le_u64_max leD)
  then obtain s where s: "slot_checked_next ?c = Some s" using slot_checked_next_None by blast
  have "check_committed_prefix ?log s ?nc = Inr ()"
    using log_okD(3) [OF ok] slot_next_le [OF s] by (intro check_committed_prefix_ok) blast
  moreover have "\<not> list_ex (\<lambda>v. v \<notin> rl_seen rl) (rl_pending rl @ concat (map log_slot_values (bt_values ?log)))"
  proof -
    have "set (log_slot_values e) \<subseteq> rl_seen rl" if "e \<in> set (bt_values ?log)" for e
      using that log_okD(7) [OF ok] by (auto simp: bt_get_mem [OF log_okD(1) [OF ok]]) blast
    then show ?thesis using assms by (fastforce simp: list_ex_iff replica_inv_def)
  qed
  moreover have "\<not> list_ex (\<lambda>(i, e). i \<noteq> GENESIS \<and> i \<ge> ?nc \<and> ls_committed e) ?log"
    using log_okD(1,4) [OF ok] by (fastforce simp: list_ex_iff bt_get_mem [symmetric])
  moreover obtain g where "bt_get ?log GENESIS = Some g" "ls_committed g" using ok by (auto simp: log_ok_def)
  ultimately show ?thesis
    using assms s log_okD(2) [OF ok] by (simp add: replica_restore_def replica_snapshot_def replica_inv_def)
qed

text \<open>
  The history of a replica: what it handed out as committed, which decisions it accepted, and which
  values a failing \<open>next_proposal\<close> dropped. A gap proposal goes to a slot with neither proposal nor
  decision, as its callers check. The last slot number is never decided.
\<close>

definition slot_is_open :: "(SlotIndex, 'v LogSlot) btree \<Rightarrow> SlotIndex \<Rightarrow> bool" where
  "slot_is_open log slot =
     (case bt_get log slot of None \<Rightarrow> True | Some e \<Rightarrow> ls_decision e = None \<and> ls_proposed e = [])"

inductive replica_trace ::
  "ReplicaConfig \<Rightarrow> 'v ReplicaCore \<Rightarrow> 'v Decision list \<Rightarrow> 'v Decision list \<Rightarrow> 'v list \<Rightarrow> bool" for config where
  start: "replica_trace config (replica_new config) [] [] []"
| submit: "replica_trace config rl out accepted dropped \<Longrightarrow> enqueue rl vs = (r, rl') \<Longrightarrow>
    replica_trace config rl' out accepted dropped"
| propose: "replica_trace config rl out accepted dropped \<Longrightarrow> next_proposal rl = (r, rl') \<Longrightarrow>
    replica_trace config rl' out accepted
      (dropped @ (if is_ok r then [] else take (length (rl_pending rl) - length (rl_pending rl')) (rl_pending rl)))"
| gap: "replica_trace config rl out accepted dropped \<Longrightarrow> slot_is_open (rl_log rl) slot \<Longrightarrow> note_proposed rl slot vs = (r, rl') \<Longrightarrow>
    replica_trace config rl' out accepted dropped"
| decide: "replica_trace config rl out accepted dropped \<Longrightarrow> dec_slot d \<noteq> u64_max \<Longrightarrow> apply_decision rl d = (r, rl') \<Longrightarrow>
    replica_trace config rl' (out @ (case r of Inr ds \<Rightarrow> ds | Inl _ \<Rightarrow> [])) (accepted @ (if is_ok r then [d] else [])) dropped"
| prune: "replica_trace config rl out accepted dropped \<Longrightarrow>
    replica_trace config (replica_prune_through rl slot) out accepted dropped"
| restart: "replica_trace config rl out accepted dropped \<Longrightarrow> replica_restore config (replica_snapshot rl) = Inr rl' \<Longrightarrow>
    replica_trace config rl' out accepted dropped"

lemma commit_ready_same: "replica_inv rl \<Longrightarrow> commit_ready rl acc = (r, rl') \<Longrightarrow> same_but_committed rl rl'"
  using commit_ready_ok [of rl acc] by auto

lemma replica_config_kept:
  "enqueue rl vs = (r, rl') \<Longrightarrow> rl_config rl' = rl_config rl \<and> rl_next_commit rl' = rl_next_commit rl \<and> rl_log rl' = rl_log rl"
  by (auto simp: enqueue_def Let_def split: if_splits)

lemma next_proposal_config:
  "next_proposal rl = (r, rl') \<Longrightarrow> rl_config rl' = rl_config rl \<and> rl_next_commit rl' = rl_next_commit rl"
  by (erule next_proposal_cases) (auto dest: note_proposed_config)

lemma note_proposed_decisions:
  "note_proposed rl slot vs = (r, rl') \<Longrightarrow> bt_get (rl_log rl') s = Some e \<Longrightarrow> ls_decision e = Some d \<Longrightarrow>
   \<exists>e'. bt_get (rl_log rl) s = Some e' \<and> ls_decision e' = Some d"
  by (erule note_proposed_cases) (auto simp: log_slot_default_def split: if_splits option.splits)

lemma next_proposal_decisions:
  "next_proposal rl = (r, rl') \<Longrightarrow> bt_get (rl_log rl') s = Some e \<Longrightarrow> ls_decision e = Some d \<Longrightarrow>
   \<exists>e'. bt_get (rl_log rl) s = Some e' \<and> ls_decision e' = Some d"
  by (erule next_proposal_cases) (auto dest: note_proposed_decisions)

text \<open>The decisions in the log are among the accepted ones, and the commit run hands out the next slots.\<close>

definition log_decisions :: "'v ReplicaCore \<Rightarrow> 'v Decision set" where
  "log_decisions rl = {d. \<exists>s e. bt_get (rl_log rl) s = Some e \<and> ls_decision e = Some d}"

lemma log_decisions_same: "same_but_committed rl rl' \<Longrightarrow> log_decisions rl' = log_decisions rl"
  unfolding same_but_committed_def log_decisions_def
  by (auto; metis (no_types, lifting) map_option_eq_Some)

lemma log_decisions_decided: "log_decisions (decided_state rl d) \<subseteq> insert d (log_decisions rl)"
  by (auto simp: log_decisions_def decided_state_def Let_def split: if_splits)

lemma apply_decision_commits:
  assumes inv: "replica_inv rl" and a: "apply_decision rl d = (r, rl')" and "dec_slot d \<noteq> u64_max"
    and "log_decisions rl \<subseteq> set accepted"
  defines "ds \<equiv> (case r of Inr ds \<Rightarrow> ds | Inl _ \<Rightarrow> [])" and "acc \<equiv> accepted @ (if is_ok r then [d] else [])"
  shows "rl_config rl' = rl_config rl \<and> rl_next_commit rl \<le> rl_next_commit rl'
    \<and> map dec_slot ds = slot_range (rl_next_commit rl) (rl_next_commit rl')
    \<and> set ds \<subseteq> set acc \<and> log_decisions rl' \<subseteq> set acc"
proof -
  have "bt_wf (rl_log rl)" using inv by (auto simp: replica_inv_def dest: log_okD(1))
  from a this show ?thesis
  proof (cases rule: apply_decision_cases)
    case new
    have "rl_next_commit (decided_state rl d) = rl_next_commit rl" "rl_config (decided_state rl d) = rl_config rl"
      by (simp_all add: decided_state_def Let_def)
    moreover obtain xs where "r = Inr xs" "same_but_committed (decided_state rl d) rl'"
        "rl_next_commit (decided_state rl d) \<le> rl_next_commit rl'"
        "map dec_slot xs = slot_range (rl_next_commit (decided_state rl d)) (rl_next_commit rl')"
        "set xs \<subseteq> log_decisions (decided_state rl d)"
      using commit_ready_ok [OF decided_state_inv [OF inv assms(3) new(4,5,7)], of "[]"] new(1)
      by (fastforce simp: log_decisions_def)
    ultimately show ?thesis
      using log_decisions_decided [of rl d] assms(4) log_decisions_same [of "decided_state rl d" rl']
      by (auto simp: ds_def acc_def same_but_committed_def)
  qed (use assms(4) in \<open>auto simp: ds_def acc_def\<close>)
qed

lemma replica_trace_inv:
  "replica_trace config rl out accepted dropped \<Longrightarrow>
   replica_inv rl \<and> rl_config rl = config \<and> 1 \<le> rl_next_commit rl
   \<and> map dec_slot out = slot_range 1 (rl_next_commit rl) \<and> set out \<subseteq> set accepted \<and> log_decisions rl \<subseteq> set accepted"
proof (induction rule: replica_trace.induct)
  case start
  then show ?case by (auto simp: replica_inv_new) (auto simp: replica_new_def log_decisions_def split: if_splits)
next
  case (submit rl out accepted dropped vs r rl')
  then show ?case using enqueue_inv [of rl vs r rl'] replica_config_kept [of rl vs r rl'] by (auto simp: log_decisions_def)
next
  case (propose rl out accepted dropped r rl')
  then have "log_decisions rl' \<subseteq> log_decisions rl"
    using next_proposal_decisions [OF propose(2)] by (fastforce simp: log_decisions_def)
  then show ?case using propose next_proposal_inv [of rl r rl'] next_proposal_config [of rl r rl'] by auto
next
  case (gap rl out accepted dropped slot vs r rl')
  then have "log_decisions rl' \<subseteq> log_decisions rl"
    using note_proposed_decisions [OF gap(3)] by (fastforce simp: log_decisions_def)
  then show ?case using gap note_proposed_inv [of rl slot vs r rl'] note_proposed_config [of rl slot vs r rl'] by auto
next
  case (decide rl out accepted dropped d r rl')
  then show ?case
    using apply_decision_inv [of rl d r rl'] apply_decision_commits [of rl d r rl' accepted]
      slot_range_append [of 1 "rl_next_commit rl" "rl_next_commit rl'"] by auto
next
  case (prune rl out accepted dropped slot)
  then have "bt_wf (rl_log rl)" by (auto simp: replica_inv_def dest: log_okD(1))
  then have "log_decisions (replica_prune_through rl slot) \<subseteq> log_decisions rl"
    by (auto simp: log_decisions_def replica_prune_through_def Let_def bt_get_retain split: option.splits if_splits)
  then show ?case using prune replica_prune_inv [of rl slot] by (auto simp: replica_prune_through_def Let_def)
next
  case (restart rl out accepted dropped rl')
  then show ?case using replica_restore_snapshot [of rl] by auto
qed

section \<open>No value is lost\<close>

lemma next_open_slot_spec:
  "next_open_slot log slot = Inr t \<Longrightarrow>
   slot \<le> t \<and> slot_is_open log t \<and> (\<forall>x. slot \<le> x \<and> x < t \<longrightarrow> \<not> slot_is_open log x)"
proof (induction log slot rule: next_open_slot.induct)
  case (1 log slot)
  show ?case
  proof (cases "slot_is_open log slot")
    case True
    then have "next_open_slot log slot = Inr slot"
      by (subst next_open_slot.simps) (auto simp: slot_is_open_def split: option.splits)
    then show ?thesis using 1(2) True by auto
  next
    case False
    then have c: "case bt_get log slot of None \<Rightarrow> False | Some e \<Rightarrow> ls_decision e \<noteq> None \<or> ls_proposed e \<noteq> []"
      by (auto simp: slot_is_open_def split: option.splits)
    then obtain s where s: "slot_checked_next slot = Some s" "next_open_slot log s = Inr t"
      using 1(2) by (subst (asm) next_open_slot.simps) (auto split: option.splits)
    have i: "s \<le> t \<and> slot_is_open log t \<and> (\<forall>x. s \<le> x \<and> x < t \<longrightarrow> \<not> slot_is_open log x)"
      by (rule 1(1) [OF c s])
    have le: "s \<le> x \<longleftrightarrow> slot < x" for x using slot_next_le [OF s(1)] by blast
    show ?thesis using i False unfolding le by (metis order.strict_implies_order order_le_imp_less_or_eq)
  qed
qed

definition proposed_values :: "(SlotIndex, 'v LogSlot) btree \<Rightarrow> 'v set" where
  "proposed_values log = {v. \<exists>s e. bt_get log s = Some e \<and> ls_decision e = None \<and> v \<in> set (ls_proposed e)}"

definition accounted :: "'v ReplicaCore \<Rightarrow> 'v Decision list \<Rightarrow> 'v list \<Rightarrow> 'v set" where
  "accounted rl accepted dropped =
     set (rl_pending rl) \<union> proposed_values (rl_log rl) \<union> (\<Union>d \<in> set accepted. set (dec_value_ids d)) \<union> set dropped"

lemma proposed_valuesI:
  "bt_get log s = Some e \<Longrightarrow> ls_decision e = None \<Longrightarrow> v \<in> set (ls_proposed e) \<Longrightarrow> v \<in> proposed_values log"
  by (auto simp: proposed_values_def)

lemma proposed_values_insert:
  assumes "v \<in> proposed_values log"
  shows "v \<in> proposed_values (bt_insert s e log) \<or> (\<exists>old. bt_get log s = Some old \<and> v \<in> set (ls_proposed old))"
proof -
  from assms obtain s' e' where e: "bt_get log s' = Some e'" "ls_decision e' = None" "v \<in> set (ls_proposed e')"
    by (auto simp: proposed_values_def)
  show ?thesis
  proof (cases "s' = s")
    case False
    then have "bt_get (bt_insert s e log) s' = Some e'" using e(1) by simp
    then show ?thesis using e(2,3) by (blast intro: proposed_valuesI)
  qed (use e in auto)
qed

lemma note_proposed_accounted:
  assumes "note_proposed rl slot vs = (r, rl')" and "slot_is_open (rl_log rl) slot"
    and "rl_seen rl \<subseteq> accounted rl accepted dropped \<union> lost" and "r = Inr () \<Longrightarrow> lost \<subseteq> set vs"
  shows "rl_seen rl' \<subseteq> accounted rl' accepted dropped \<union> (if is_ok r then {} else lost)"
  using assms(1)
proof (cases rule: note_proposed_cases)
  case noted
  let ?e = "(case bt_get (rl_log rl) slot of Some e \<Rightarrow> e | None \<Rightarrow> log_slot_default)\<lparr>ls_proposed := vs\<rparr>"
  have "bt_get (rl_log rl') slot = Some ?e" "ls_decision ?e = None" "ls_proposed ?e = vs"
    using noted(6) assms(2) by (auto simp: slot_is_open_def log_slot_default_def split: option.splits)
  then have v: "set vs \<subseteq> proposed_values (rl_log rl')" by (metis proposed_valuesI subsetI)
  moreover have "proposed_values (rl_log rl) \<subseteq> proposed_values (rl_log rl')"
    using proposed_values_insert [of _ "rl_log rl" slot ?e] noted(6) assms(2)
    by (auto simp: slot_is_open_def split: option.splits)
  moreover have "rl_pending rl' = rl_pending rl" "rl_seen rl' = rl_seen rl \<union> set vs" using noted(6) by simp_all
  ultimately have "accounted rl accepted dropped \<union> set vs \<subseteq> accounted rl' accepted dropped" unfolding accounted_def by auto
  moreover have "lost \<subseteq> set vs" by (rule assms(4) [OF noted(1)])
  ultimately have "rl_seen rl \<union> set vs \<subseteq> accounted rl' accepted dropped" using assms(3) by blast
  then show ?thesis using noted(1) \<open>rl_seen rl' = rl_seen rl \<union> set vs\<close> by simp
qed (use assms in simp)

lemma next_proposal_accounted:
  assumes "next_proposal rl = (r, rl')" and "rl_seen rl \<subseteq> accounted rl accepted dropped"
  shows "rl_seen rl' \<subseteq> accounted rl' accepted
    (dropped @ (if is_ok r then [] else take (length (rl_pending rl) - length (rl_pending rl')) (rl_pending rl)))"
  using assms(1)
proof (cases rule: next_proposal_cases)
  case (tried slot n x)
  let ?rl = "rl\<lparr>rl_pending := drop n (rl_pending rl)\<rparr>" and ?vs = "take n (rl_pending rl)"
  have p: "rl_pending rl' = drop n (rl_pending rl)" using tried(5) by (cases rule: note_proposed_cases) auto
  have "set (rl_pending rl) = set ?vs \<union> set (drop n (rl_pending rl))" by (metis append_take_drop_id set_append)
  then have "rl_seen ?rl \<subseteq> accounted ?rl accepted dropped \<union> set ?vs"
    using assms(2) by (auto simp: accounted_def)
  then have "rl_seen rl' \<subseteq> accounted rl' accepted dropped \<union> (if is_ok x then {} else set ?vs)"
    using next_open_slot_spec [OF tried(4)] by (intro note_proposed_accounted [OF tried(5)]) simp_all
  moreover have "take (length (rl_pending rl) - length (rl_pending rl')) (rl_pending rl) = ?vs"
    by (cases "n \<le> length (rl_pending rl)") (auto simp: p)
  moreover have "is_ok r = is_ok x" using tried(6) by (simp split: sum.splits)
  ultimately show ?thesis by (auto simp: accounted_def)
qed (use assms in auto)

lemma apply_decision_accounted:
  assumes inv: "replica_inv rl" and a: "apply_decision rl d = (r, rl')" and "dec_slot d \<noteq> u64_max"
    and "rl_seen rl \<subseteq> accounted rl accepted dropped"
  shows "rl_seen rl' \<subseteq> accounted rl' (accepted @ (if is_ok r then [d] else [])) dropped"
proof -
  have "bt_wf (rl_log rl)" using inv by (auto simp: replica_inv_def dest: log_okD(1))
  from a this show ?thesis
  proof (cases rule: apply_decision_cases)
    case new
    let ?rl = "decided_state rl d"
    have m: "same_but_committed ?rl rl'" and ok: "is_ok r"
      using commit_ready_ok [OF decided_state_inv [OF inv assms(3) new(4,5,7)], of "[]"] new(1) by auto
    have p: "proposed_values (rl_log rl) \<subseteq> proposed_values (rl_log ?rl) \<union> set (rl_pending ?rl) \<union> set (dec_value_ids d)"
    proof
      fix v
      assume "v \<in> proposed_values (rl_log rl)"
      then consider "v \<in> proposed_values (rl_log ?rl)"
        | old where "bt_get (rl_log rl) (dec_slot d) = Some old" "v \<in> set (ls_proposed old)"
        by (auto simp: decided_state_def Let_def dest: proposed_values_insert)
      then show "v \<in> proposed_values (rl_log ?rl) \<union> set (rl_pending ?rl) \<union> set (dec_value_ids d)"
        by cases (auto simp: decided_state_def Let_def)
    qed
    have "set (rl_pending rl) \<subseteq> set (rl_pending ?rl)" by (auto simp: decided_state_def Let_def)
    with p have "accounted rl accepted dropped \<subseteq> accounted ?rl (accepted @ [d]) dropped" unfolding accounted_def by auto
    moreover have "proposed_values (rl_log ?rl) \<subseteq> proposed_values (rl_log rl')"
      using m unfolding same_but_committed_def proposed_values_def by blast
    then have "accounted ?rl (accepted @ [d]) dropped \<subseteq> accounted rl' (accepted @ [d]) dropped"
      using m unfolding accounted_def same_but_committed_def by auto
    moreover have "rl_seen rl' = rl_seen rl \<union> set (dec_value_ids d)"
      using m by (simp add: same_but_committed_def decided_state_def Let_def)
    moreover have "set (dec_value_ids d) \<subseteq> accounted rl' (accepted @ [d]) dropped" by (auto simp: accounted_def)
    ultimately show ?thesis using assms(4) ok by simp
  qed (use assms in \<open>auto simp: accounted_def\<close>)
qed

lemma prune_accounted:
  assumes "replica_inv rl"
  shows "accounted rl accepted dropped \<subseteq> accounted (replica_prune_through rl slot) accepted dropped"
proof -
  have ok: "log_ok (rl_seen rl) (rl_checkpointed_through rl) (rl_next_commit rl) (rl_log rl)"
    using assms by (simp add: replica_inv_def)
  have "bt_get (rl_log (replica_prune_through rl slot)) s = Some e"
    if "bt_get (rl_log rl) s = Some e" "ls_decision e = None" for s e
    using that log_okD(5) [OF ok that(1)] log_okD(1) [OF ok]
    by (auto simp: replica_prune_through_def Let_def bt_get_retain)
  then have "proposed_values (rl_log rl) \<subseteq> proposed_values (rl_log (replica_prune_through rl slot))"
    unfolding proposed_values_def by blast
  then show ?thesis by (auto simp: accounted_def replica_prune_through_def Let_def)
qed

lemma replica_trace_accounted:
  "replica_trace config rl out accepted dropped \<Longrightarrow> rl_seen rl \<subseteq> accounted rl accepted dropped"
proof (induction rule: replica_trace.induct)
  case start
  then show ?case by (simp add: replica_new_def)
next
  case (submit rl out accepted dropped vs r rl')
  then show ?case by (auto simp: enqueue_def Let_def accounted_def split: if_splits)
next
  case (propose rl out accepted dropped r rl')
  then show ?case using next_proposal_accounted by blast
next
  case (gap rl out accepted dropped slot vs r rl')
  then show ?case using note_proposed_accounted [of rl slot vs r rl' accepted dropped "{}"] by auto
next
  case (decide rl out accepted dropped d r rl')
  then show ?case using apply_decision_accounted replica_trace_inv by blast
next
  case (prune rl out accepted dropped slot)
  then show ?case using prune_accounted [of rl accepted dropped slot] replica_trace_inv [OF prune(1)]
    by (auto simp: replica_prune_through_def Let_def)
next
  case (restart rl out accepted dropped rl')
  then show ?case using replica_restore_snapshot [of rl] replica_trace_inv [OF restart(1)] by auto
qed

section \<open>Properties\<close>

lemma inflight_insert:
  assumes "bt_wf log" and "slot_is_open log s"
  shows "length (filter (\<lambda>(i, e). i \<ge> nc \<and> \<not> ls_committed e \<and> ls_proposed e \<noteq> []) (bt_insert s x log))
    \<le> Suc (length (filter (\<lambda>(i, e). i \<ge> nc \<and> \<not> ls_committed e \<and> ls_proposed e \<noteq> []) log))"
  using assms
proof (induction log)
  case (Cons c log)
  then show ?case by (cases c) (auto simp: bt_wf_def slot_is_open_def split: if_splits)
qed simp

lemma next_proposal_chooses:
  assumes inv: "replica_inv rl" and "next_proposal rl = (Inr (Some (slot, vs)), rl')"
  shows "rl_next_commit rl \<le> slot \<and> slot_is_open (rl_log rl) slot
    \<and> (\<forall>x. rl_next_commit rl \<le> x \<and> x < slot \<longrightarrow> \<not> slot_is_open (rl_log rl) x)
    \<and> vs \<noteq> [] \<and> distinct vs \<and> length vs \<le> max (rlc_batch_size (rl_config rl)) 1 \<and> rl_pending rl = vs @ rl_pending rl'
    \<and> map_option ls_proposed (bt_get (rl_log rl') slot) = Some vs
    \<and> inflight_count rl' \<le> rlc_pipeline_len (rl_config rl)"
  using assms(2)
proof (cases rule: next_proposal_cases)
  case (tried s n x)
  have x: "x = Inr ()" "s = slot" "vs = take n (rl_pending rl)" using tried(6) by (auto split: sum.splits)
  have wf: "bt_wf (rl_log rl)" using inv by (auto simp: replica_inv_def dest: log_okD(1))
  have o: "rl_next_commit rl \<le> slot \<and> slot_is_open (rl_log rl) slot
      \<and> (\<forall>y. rl_next_commit rl \<le> y \<and> y < slot \<longrightarrow> \<not> slot_is_open (rl_log rl) y)"
    using next_open_slot_spec [OF tried(4)] x(2) by simp
  have len: "length vs \<le> max (rlc_batch_size (rl_config rl)) 1" using tried(3) x(3) by auto
  from tried(5) show ?thesis
  proof (cases rule: note_proposed_cases)
    case noted
    have "inflight_count rl' \<le> Suc (inflight_count rl)"
      using inflight_insert [OF wf, of slot] o noted(6) x(2) by (simp add: inflight_count_def)
    then show ?thesis using o len noted x tried(1) by simp
  qed (use x in simp)
qed auto

lemma replica_eval_order:
  "(1 :: SlotIndex) \<le> 2" "(0 :: SlotIndex) < 1" "(0 :: SlotIndex) < 2" "\<not> (2 :: SlotIndex) \<le> 1" "(1 :: SlotIndex) < 2" "\<not> (1 :: SlotIndex) < 1"
  by (simp_all add: word_le_nat_alt word_less_nat_alt)

lemmas replica_eval = replica_new_def enqueue_def next_proposal_def note_proposed_def ensure_log_capacity_def
  apply_decision_def commit_ready.simps next_open_slot.simps inflight_count_def log_slot_default_def retained_slots_def
  slot_checked_next_def checked_add_def GENESIS_def replica_prune_through_def committed_through_def saturating_sub_def
  bt_or_insert_def bt_contains_def bt_retain_def Let_def sbind_def slot_is_open_def replica_eval_order

definition demo_replica_config :: ReplicaConfig where
  "demo_replica_config = \<lparr>rlc_batch_size = 2, rlc_pipeline_len = 2, rlc_max_pending_values = 4, rlc_max_log_slots = 4,
     rlc_max_tracked_value_ids = 9\<rparr>"

definition demo_decided :: "SlotIndex \<Rightarrow> nat list \<Rightarrow> nat Decision" where
  "demo_decided slot vs = \<lparr>dec_slot = slot, dec_value_ids = vs, dec_proposer = 1, dec_decided_step = 4\<rparr>"

text \<open>
  Three values are queued and proposed in two batches; the second slot is lost, its batch goes back
  to the queue, and both slots commit when the first is decided.
\<close>

definition demo_armed :: "nat ReplicaCore" where
  "demo_armed = snd (next_proposal (snd (next_proposal (snd (enqueue (replica_new demo_replica_config) [10, 11, 12])))))"

definition demo_replica :: "nat ReplicaCore" where
  "demo_replica = snd (apply_decision (snd (apply_decision demo_armed (demo_decided 2 [11, 20]))) (demo_decided 1 [10, 11]))"

lemmas demo_replica_eval = replica_eval demo_armed_def demo_replica_def demo_replica_config_def demo_decided_def

lemma demo_trace:
  "replica_trace demo_replica_config demo_replica [demo_decided 1 [10, 11], demo_decided 2 [11, 20]]
     [demo_decided 2 [11, 20], demo_decided 1 [10, 11]] []"
proof -
  let ?r0 = "replica_new demo_replica_config :: nat ReplicaCore"
  let ?r1 = "snd (enqueue ?r0 [10, 11, 12])"
  let ?r2 = "snd (next_proposal ?r1)"
  let ?r4 = "snd (apply_decision demo_armed (demo_decided 2 [11, 20]))"
  have 1: "replica_trace demo_replica_config ?r1 [] [] []"
    using replica_trace.submit [OF replica_trace.start, of demo_replica_config "[10, 11, 12]"] by (metis prod.collapse)
  have ok1: "is_ok (fst (next_proposal ?r1))" and ok2: "is_ok (fst (next_proposal ?r2))"
    by (simp_all add: demo_replica_eval)
  have 2: "replica_trace demo_replica_config ?r2 [] [] []"
    using replica_trace.propose [OF 1 surjective_pairing] ok1 by simp
  have 3: "replica_trace demo_replica_config demo_armed [] [] []"
    using replica_trace.propose [OF 2 surjective_pairing] ok2 by (simp add: demo_armed_def)
  have ok3: "fst (apply_decision demo_armed (demo_decided 2 [11, 20])) = Inr []"
    and ok4: "fst (apply_decision ?r4 (demo_decided 1 [10, 11])) = Inr [demo_decided 1 [10, 11], demo_decided 2 [11, 20]]"
    by (simp_all add: demo_replica_eval)
  have last: "dec_slot (demo_decided 1 vs) \<noteq> u64_max" "dec_slot (demo_decided 2 vs) \<noteq> u64_max" for vs
    by (simp_all add: demo_decided_def u64_max_numeral)
  have 4: "replica_trace demo_replica_config ?r4 [] [demo_decided 2 [11, 20]] []"
    using replica_trace.decide [OF 3 last(2) [of "[11, 20]"] surjective_pairing] ok3 by simp
  show ?thesis
    using replica_trace.decide [OF 4 last(1) [of "[10, 11]"] surjective_pairing] ok4 by (simp add: demo_replica_def)
qed

text \<open>
  C22: Committed decisions come out once each and in order. Over any history of submissions,
  proposals, decisions arriving in any order, pruning and restarts, the decisions a replica has handed
  out are those of the slots 1, 2, 3 up to its commit frontier, each an accepted decision.
\<close>

theorem replica_commits_in_order:
  assumes "replica_trace config rl out accepted dropped"
  shows "map dec_slot out = slot_range 1 (rl_next_commit rl) \<and> set out \<subseteq> set accepted
    \<and> (\<forall>s. s \<le> committed_through rl \<longleftrightarrow> s = GENESIS \<or> s \<in> dec_slot ` set out)"
proof -
  have i: "replica_inv rl" "1 \<le> rl_next_commit rl" "map dec_slot out = slot_range 1 (rl_next_commit rl)" "set out \<subseteq> set accepted"
    using replica_trace_inv [OF assms] by auto
  have "s \<in> dec_slot ` set out \<longleftrightarrow> 1 \<le> unat s \<and> s < rl_next_commit rl" for s
    using i(3) slot_range_mem [of s 1 "rl_next_commit rl"] by (metis list.set_map unat_1 word_less_nat_alt)
  moreover have "s = GENESIS \<longleftrightarrow> unat s = 0" for s by (simp add: GENESIS_def unat_eq_zero)
  ultimately show ?thesis
    using i committed_through_less [OF i(1)]
    by (auto simp: word_le_nat_alt word_less_nat_alt Suc_le_eq)
qed

theorem replica_commits_in_order_witness:
  "map dec_slot [demo_decided 1 [10, 11], demo_decided 2 [11, 20]] = slot_range 1 (rl_next_commit demo_replica)
   \<and> rl_next_commit demo_replica = 3"
  using replica_commits_in_order [OF demo_trace] by (simp add: demo_replica_eval)

text \<open>
  C23: No value id is lost. Every value id a replica ever accepted is waiting in its queue, or
  proposed in a slot that is still undecided, or part of an accepted decision, or was in a batch
  that a failing \<open>next_proposal\<close> threw away.
\<close>

theorem replica_loses_nothing:
  assumes "replica_trace config rl out accepted dropped" and "v \<in> rl_seen rl"
  shows "v \<in> set (rl_pending rl)
    \<or> (\<exists>s e. bt_get (rl_log rl) s = Some e \<and> ls_decision e = None \<and> v \<in> set (ls_proposed e))
    \<or> (\<exists>d \<in> set accepted. v \<in> set (dec_value_ids d)) \<or> v \<in> set dropped"
  using replica_trace_accounted [OF assms(1)] assms(2) by (auto simp: accounted_def proposed_values_def)

theorem replica_loses_nothing_witness:
  "12 \<in> rl_seen demo_replica \<and> 12 \<in> set (rl_pending demo_replica)"
  using replica_loses_nothing [OF demo_trace, of 12] by (simp add: demo_replica_eval split: if_splits)

text \<open>
  C24: A replica can always be restarted: whatever its history, restoring from its own snapshot under
  its configuration passes every check and yields the identical state.
\<close>

theorem replica_restart:
  assumes "replica_trace config rl out accepted dropped"
  shows "replica_inv rl \<and> replica_restore config (replica_snapshot rl) = Inr rl"
  using replica_trace_inv [OF assms] replica_restore_snapshot [of rl] by auto

theorem replica_restart_witness:
  "replica_restore demo_replica_config (replica_snapshot demo_replica) = Inr demo_replica"
  using replica_restart [OF demo_trace] by blast

text \<open>
  C25: Where a proposal goes. A successful \<open>next_proposal\<close> takes a batch of at most \<open>batch_size\<close>
  values from the front of the queue and puts it into the lowest slot at or above the commit
  frontier that has neither a decision nor a proposal, and never exceeds the pipeline length.
\<close>

theorem next_proposal_slot:
  assumes "replica_trace config rl out accepted dropped" and "next_proposal rl = (Inr (Some (slot, vs)), rl')"
  shows "rl_next_commit rl \<le> slot \<and> slot_is_open (rl_log rl) slot
    \<and> (\<forall>x. rl_next_commit rl \<le> x \<and> x < slot \<longrightarrow> \<not> slot_is_open (rl_log rl) x)
    \<and> vs \<noteq> [] \<and> distinct vs \<and> length vs \<le> max (rlc_batch_size config) 1 \<and> rl_pending rl = vs @ rl_pending rl'
    \<and> map_option ls_proposed (bt_get (rl_log rl') slot) = Some vs
    \<and> inflight_count rl' \<le> rlc_pipeline_len config"
  using next_proposal_chooses [OF _ assms(2)] replica_trace_inv [OF assms(1)] by auto

theorem next_proposal_slot_witness:
  "next_proposal demo_replica = (Inr (Some (3, [12])), snd (next_proposal demo_replica)) \<and> slot_is_open (rl_log demo_replica) 3"
proof -
  have "next_proposal demo_replica = (Inr (Some (3, [12])), snd (next_proposal demo_replica))"
    by (simp add: demo_replica_eval)
  with next_proposal_slot [OF demo_trace this] show ?thesis by simp
qed

text \<open>
  A full log drops a batch: with room for one slot, the second batch leaves the queue, its proposal
  is refused, and its value stays marked as seen, so that submitting it again has no effect.
\<close>

lemma full_log_drops_batch:
  fixes config defines "config \<equiv> demo_replica_config\<lparr>rlc_max_log_slots := 1, rlc_batch_size := 1\<rparr>"
  defines "rl \<equiv> snd (next_proposal (snd (enqueue (replica_new config) [10, 11 :: nat])))"
  shows "fst (next_proposal rl) = Inl (ResourceLimit ''retained log slots'' 1)
    \<and> rl_pending rl = [11] \<and> rl_pending (snd (next_proposal rl)) = []
    \<and> enqueue (snd (next_proposal rl)) [11] = (Inr (), snd (next_proposal rl))"
  by (simp add: rl_def config_def demo_replica_eval)

end
