(* ===== verification/QP_Policy.thy ===== *)
theory QP_Policy
  imports QP_Types "HOL-Library.Product_Lexorder" "HOL-Library.Multiset"
begin

text \<open>
  The hedging policies of \<open>src/policy.rs\<close>. The trait is the locale \<open>hedging_policy\<close>: a policy never
  panics, answers every valid request, and only with a permutation of the replicas. It is
  interpreted on the five policies. The lemmas derive from it that every replica has a place and
  its own delay, and show how round robin, last winner and the adaptive policy pick the leader.
\<close>

section \<open>Durations\<close>

text \<open>A duration is a number of nanoseconds; arithmetic beyond the greatest one panics.\<close>

type_synonym Duration = nat

definition duration_max :: Duration where
  "duration_max = 2 ^ 64 * 10 ^ 9 - 1"

definition from_secs :: "nat \<Rightarrow> Duration" where
  "from_secs s = s * 10 ^ 9"

definition duration_mul :: "Duration \<Rightarrow> nat \<Rightarrow> Duration option" where
  "duration_mul d n = (if d * n \<le> duration_max then Some (d * n) else None)"

section \<open>The trait's default method and the helpers\<close>

definition delay_for :: "ReplicaId \<Rightarrow> ReplicaId list \<Rightarrow> Duration \<Rightarrow> Duration fallible" where
  "delay_for replica sequence base_delay =
     (case position replica sequence of
        None \<Rightarrow> Inl (Failed (UnknownReplica replica))
      | Some i \<Rightarrow> or_panic (duration_mul base_delay (i mod 2 ^ 32)))"

definition leaderless_delay_for :: "ReplicaId \<Rightarrow> ReplicaId list \<Rightarrow> Duration \<Rightarrow> Duration fallible" where
  "leaderless_delay_for replica sequence base_delay =
     (if replica \<notin> set sequence then Inl (Failed (UnknownReplica replica)) else Inr 0)"

definition validate_replicas :: "ReplicaId list \<Rightarrow> unit fallible" where
  "validate_replicas replicas =
     (if replicas = [] then Inl (Failed EmptyCluster)
      else if card (set replicas) \<noteq> length replicas
      then rbind (or_panic (find (\<lambda>r. length (filter (\<lambda>c. c = r) replicas) > 1) replicas)) (\<lambda>r.
           Inl (Failed (DuplicateReplica r)))
      else Inr ())"

definition rotated :: "ReplicaId list \<Rightarrow> nat \<Rightarrow> ReplicaId list" where
  "rotated replicas offset = drop offset replicas @ take offset replicas"

text \<open>\<open>ranked.remove(position)\<close> and \<open>ranked.insert(0, candidate)\<close>, with the \<open>expect\<close> in between.\<close>

definition move_to_front :: "ReplicaId \<Rightarrow> ReplicaId list \<Rightarrow> ReplicaId list option" where
  "move_to_front r ranked =
     map_option (\<lambda>i. ranked ! i # take i ranked @ drop (Suc i) ranked) (position r ranked)"

section \<open>The policies\<close>

definition fixed_leader_sequence :: "SlotIndex \<Rightarrow> ReplicaId list \<Rightarrow> ReplicaId option \<Rightarrow> ReplicaId list fallible" where
  "fixed_leader_sequence slot replicas previous_winner = rbind (validate_replicas replicas) (\<lambda>_. Inr replicas)"

record RoundRobinPolicy =
  rrp_epoch_size :: u64

definition rrp_new :: "u64 \<Rightarrow> RoundRobinPolicy" where
  "rrp_new epoch_size = \<lparr>rrp_epoch_size = max epoch_size 1\<rparr>"

definition round_robin_sequence ::
  "RoundRobinPolicy \<Rightarrow> SlotIndex \<Rightarrow> ReplicaId list \<Rightarrow> ReplicaId option \<Rightarrow> ReplicaId list fallible" where
  "round_robin_sequence p slot replicas previous_winner =
     rbind (validate_replicas replicas) (\<lambda>_.
       Inr (rotated replicas (unat (slot div rrp_epoch_size p) mod length replicas)))"

definition leaderless_sequence :: "SlotIndex \<Rightarrow> ReplicaId list \<Rightarrow> ReplicaId option \<Rightarrow> ReplicaId list fallible" where
  "leaderless_sequence slot replicas previous_winner = rbind (validate_replicas replicas) (\<lambda>_. Inr replicas)"

definition last_winner_sequence :: "SlotIndex \<Rightarrow> ReplicaId list \<Rightarrow> ReplicaId option \<Rightarrow> ReplicaId list fallible" where
  "last_winner_sequence slot replicas previous_winner =
     rbind (validate_replicas replicas) (\<lambda>_.
       case previous_winner of
         None \<Rightarrow> Inr replicas
       | Some winner \<Rightarrow>
           rbind (lift_err (ok_or (position winner replicas) (UnknownReplica winner))) (\<lambda>offset. Inr (rotated replicas offset)))"

record AdaptivePolicy =
  ap_epoch_size :: u64
  ap_samples :: "(ReplicaId, Duration list) btree"
  ap_sample_window :: usize
  ap_reexplore_every_epochs :: u64

definition ap_new :: "u64 \<Rightarrow> AdaptivePolicy" where
  "ap_new epoch_size = \<lparr>ap_epoch_size = max epoch_size 1, ap_samples = [], ap_sample_window = 16, ap_reexplore_every_epochs = 32\<rparr>"

definition with_sample_window :: "AdaptivePolicy \<Rightarrow> usize \<Rightarrow> AdaptivePolicy" where
  "with_sample_window p epochs_per_leader = p\<lparr>ap_sample_window := max epochs_per_leader 1\<rparr>"

definition with_reexploration_interval :: "AdaptivePolicy \<Rightarrow> u64 \<Rightarrow> AdaptivePolicy" where
  "with_reexploration_interval p epochs = p\<lparr>ap_reexplore_every_epochs := max epochs 1\<rparr>"

text \<open>The queue is popped from the front until it fits the window.\<close>

definition record_epoch :: "AdaptivePolicy \<Rightarrow> ReplicaId \<Rightarrow> Duration \<Rightarrow> AdaptivePolicy" where
  "record_epoch p leader duration =
     (let samples = (case bt_get (ap_samples p) leader of Some s \<Rightarrow> s | None \<Rightarrow> []) @ [duration] in
      p\<lparr>ap_samples := bt_insert leader (drop (length samples - ap_sample_window p) samples) (ap_samples p)\<rparr>)"

text \<open>The average in nanoseconds, cut to 64 bits.\<close>

definition average_duration :: "AdaptivePolicy \<Rightarrow> ReplicaId \<Rightarrow> Duration option" where
  "average_duration p replica =
     map_option (\<lambda>samples. (sum_list samples div length samples) mod 2 ^ 64) (bt_get (ap_samples p) replica)"

definition fitness_key :: "AdaptivePolicy \<Rightarrow> ReplicaId \<Rightarrow> Duration \<times> ReplicaId" where
  "fitness_key p replica =
     (case average_duration p replica of Some d \<Rightarrow> d | None \<Rightarrow> from_secs ((2 ^ 64 - 1) div 2), replica)"

definition adaptive_sequence ::
  "AdaptivePolicy \<Rightarrow> SlotIndex \<Rightarrow> ReplicaId list \<Rightarrow> ReplicaId option \<Rightarrow> ReplicaId list fallible" where
  "adaptive_sequence p slot replicas previous_winner =
     rbind (validate_replicas replicas) (\<lambda>_.
          let epoch = slot div ap_epoch_size p;
              warmup_epochs = 2 * of_nat (length replicas) + 1
          in if epoch < warmup_epochs then Inr (rotated replicas (unat epoch mod length replicas))
             else
               let ranked = sort_key (fitness_key p) replicas;
                   exploitation_epoch = epoch - warmup_epochs
               in if exploitation_epoch > 0 \<and> exploitation_epoch mod ap_reexplore_every_epochs p = 0
                  then or_panic (move_to_front
                         (replicas ! (unat (exploitation_epoch div ap_reexplore_every_epochs p) mod length replicas)) ranked)
                  else Inr ranked)"

section \<open>The contract of a policy\<close>

locale hedging_policy =
  fixes sequence :: "SlotIndex \<Rightarrow> ReplicaId list \<Rightarrow> ReplicaId option \<Rightarrow> ReplicaId list fallible"
  assumes answers: "replicas \<noteq> [] \<Longrightarrow> distinct replicas \<Longrightarrow> (\<forall>w. previous = Some w \<longrightarrow> w \<in> set replicas) \<Longrightarrow>
      \<exists>ms. sequence s replicas previous = Inr ms"
    and permutes: "sequence s replicas previous = Inr ms \<Longrightarrow> replicas \<noteq> [] \<and> distinct replicas \<and> mset ms = mset replicas"
    and no_panic: "sequence s replicas previous \<noteq> Inl Panic"
begin

lemma sequence_members:
  assumes "sequence s replicas previous = Inr ms"
  shows "ms \<noteq> [] \<and> distinct ms \<and> set ms = set replicas \<and> length ms = length replicas"
  using permutes [OF assms] by (metis mset_eq_imp_distinct_iff mset_eq_length mset_eq_setD mset_zero_iff)

text \<open>Every replica is told its own delay, and only the leader starts at once.\<close>

lemma delays_distinct:
  assumes q: "sequence s replicas previous = Inr ms" and "length replicas \<le> 2 ^ 32" and b: "0 < base"
    and "r \<in> set replicas" and "delay_for r ms base = Inr d"
  shows "(d = 0 \<longleftrightarrow> r = hd ms) \<and> (\<forall>r'. delay_for r' ms base = Inr d \<longrightarrow> r' = r)"
proof -
  have m: "ms \<noteq> []" "distinct ms" "length ms \<le> 2 ^ 32" using sequence_members [OF q] assms(2) by auto
  have pos: "\<exists>i. position x ms = Some i \<and> i < length ms \<and> ms ! i = x \<and> dx = base * i"
    if "delay_for x ms base = Inr dx" for x dx
    using that m(3) position_Some [of x ms] by (fastforce simp: delay_for_def duration_mul_def split: option.splits if_splits)
  obtain i where i: "i < length ms" "ms ! i = r" "d = base * i" using pos [OF assms(5)] by auto
  have "r = hd ms \<longleftrightarrow> i = 0" using i m by (metis hd_conv_nth length_greater_0_conv nth_eq_iff_index_eq)
  moreover have "r' = r" if "delay_for r' ms base = Inr d" for r' using pos [OF that] i b by auto
  ultimately show ?thesis using i(3) b by auto
qed

end

section \<open>The policies keep the contract\<close>

lemma find_duplicate: "\<not> distinct xs \<Longrightarrow> \<exists>r. find (\<lambda>r. length (filter (\<lambda>c. c = r) xs) > 1) xs = Some r"
proof -
  assume "\<not> distinct xs"
  then obtain as bs cs y where "xs = as @ [y] @ bs @ [y] @ cs" using not_distinct_decomp by blast
  then have "y \<in> set xs \<and> length (filter (\<lambda>c. c = y) xs) > 1" by simp
  then show ?thesis by (metis (no_types, lifting) find_None_iff not_None_eq)
qed

lemma validate_replicas_ok: "validate_replicas replicas = Inr () \<longleftrightarrow> replicas \<noteq> [] \<and> distinct replicas"
proof (cases "distinct replicas")
  case True
  then show ?thesis by (auto simp: validate_replicas_def distinct_card)
next
  case False
  then show ?thesis using find_duplicate [OF False] card_distinct [of replicas] by (auto simp: validate_replicas_def)
qed

lemma validate_replicas_no_panic [simp]: "validate_replicas replicas \<noteq> Inl Panic"
proof (cases "distinct replicas")
  case False
  then show ?thesis using find_duplicate [OF False] by (auto simp: validate_replicas_def)
qed (simp add: validate_replicas_def distinct_card)

lemma validate_replicas_valid [simp]: "replicas \<noteq> [] \<Longrightarrow> distinct replicas \<Longrightarrow> validate_replicas replicas = Inr ()"
  by (simp add: validate_replicas_ok)

lemma mset_rotated: "mset (rotated replicas n) = mset replicas"
  unfolding rotated_def by (metis append_take_drop_id mset_append union_commute)

lemma hd_rotated: "n < length replicas \<Longrightarrow> hd (rotated replicas n) = replicas ! n"
  by (simp add: rotated_def hd_append hd_drop_conv_nth)

lemma move_to_front_ok:
  assumes "r \<in> set ranked"
  shows "\<exists>ms. move_to_front r ranked = Some ms \<and> mset ms = mset ranked \<and> hd ms = r"
proof -
  obtain i where i: "position r ranked = Some i" using assms by (metis not_None_eq position_None)
  then have "i < length ranked" "ranked ! i = r" by (simp_all add: position_Some)
  then show ?thesis using i id_take_nth_drop [of i ranked]
    by (auto simp: move_to_front_def) (metis add_mset_add_single mset.simps(2) mset_append union_mset_add_mset_right)
qed

interpretation fixed: hedging_policy fixed_leader_sequence
  by unfold_locales (auto simp: fixed_leader_sequence_def validate_replicas_ok qp_result)

interpretation round_robin: hedging_policy "round_robin_sequence p" for p
  by unfold_locales (auto simp: round_robin_sequence_def validate_replicas_ok qp_result mset_rotated)

interpretation leaderless: hedging_policy leaderless_sequence
  by unfold_locales (auto simp: leaderless_sequence_def validate_replicas_ok qp_result)

interpretation last_winner: hedging_policy last_winner_sequence
proof unfold_locales
  fix s :: SlotIndex and replicas previous ms
  show "\<exists>ms. last_winner_sequence s replicas previous = Inr ms"
    if v: "replicas \<noteq> []" "distinct replicas" and w: "\<forall>w. previous = Some w \<longrightarrow> w \<in> set replicas"
  proof (cases previous)
    case (Some w)
    then obtain i where "position w replicas = Some i" using w by (metis not_None_eq position_None)
    then show ?thesis using v Some by (simp add: last_winner_sequence_def)
  qed (use v in \<open>simp add: last_winner_sequence_def\<close>)
  show "replicas \<noteq> [] \<and> distinct replicas \<and> mset ms = mset replicas" if "last_winner_sequence s replicas previous = Inr ms"
    using that by (cases previous) (auto simp: last_winner_sequence_def validate_replicas_ok qp_result mset_rotated)
  show "last_winner_sequence s replicas previous \<noteq> Inl Panic"
    by (auto simp: last_winner_sequence_def qp_result split: option.splits)
qed

lemma adaptive_cases:
  assumes "replicas \<noteq> []" and "distinct replicas"
  obtains (warmup) "slot div ap_epoch_size p < 2 * of_nat (length replicas) + 1"
      "adaptive_sequence p slot replicas w = Inr (rotated replicas (unat (slot div ap_epoch_size p) mod length replicas))"
  | (explore) x ms where "x = slot div ap_epoch_size p - (2 * of_nat (length replicas) + 1)" "0 < x" "x mod ap_reexplore_every_epochs p = 0"
      "adaptive_sequence p slot replicas w = Inr ms" "mset ms = mset replicas"
      "hd ms = replicas ! (unat (x div ap_reexplore_every_epochs p) mod length replicas)"
  | (exploit) "adaptive_sequence p slot replicas w = Inr (sort_key (fitness_key p) replicas)"
proof -
  let ?e = "slot div ap_epoch_size p" and ?w = "2 * of_nat (length replicas) + 1 :: u64"
  let ?x = "?e - ?w"
  let ?r = "replicas ! (unat (?x div ap_reexplore_every_epochs p) mod length replicas)"
  have v: "validate_replicas replicas = Inr ()" using assms by (simp add: validate_replicas_ok)
  have "?r \<in> set (sort_key (fitness_key p) replicas)" using assms(1) by simp
  then obtain ms where ms: "move_to_front ?r (sort_key (fitness_key p) replicas) = Some ms" "mset ms = mset replicas" "hd ms = ?r"
    using move_to_front_ok by (metis mset_sort)
  consider "?e < ?w" | "\<not> ?e < ?w" "0 < ?x \<and> ?x mod ap_reexplore_every_epochs p = 0"
    | "\<not> ?e < ?w" "\<not> (0 < ?x \<and> ?x mod ap_reexplore_every_epochs p = 0)" by blast
  then show thesis
  proof cases
    case 1
    then show thesis using that(1) v by (simp add: adaptive_sequence_def Let_def)
  next
    case 2
    then have "adaptive_sequence p slot replicas w = Inr ms" using v ms(1) by (simp add: adaptive_sequence_def Let_def)
    then show thesis using that(2) [OF refl _ _ _ ms(2)] 2 ms(3) by simp
  next
    case 3
    then have "adaptive_sequence p slot replicas w = Inr (sort_key (fitness_key p) replicas)"
      unfolding adaptive_sequence_def Let_def v by auto
    then show thesis by (rule that(3))
  qed
qed

lemma adaptive_invalid:
  "\<not> (replicas \<noteq> [] \<and> distinct replicas) \<Longrightarrow> \<exists>e. adaptive_sequence p slot replicas w = Inl (Failed e)"
  using validate_replicas_ok [of replicas] validate_replicas_no_panic [of replicas]
  by (cases "validate_replicas replicas") (auto simp: adaptive_sequence_def; metis failure.exhaust)+

interpretation adaptive: hedging_policy "adaptive_sequence p" for p
proof unfold_locales
  fix s :: SlotIndex and replicas previous ms
  show "\<exists>ms. adaptive_sequence p s replicas previous = Inr ms" if "replicas \<noteq> []" "distinct replicas"
    using that by (rule adaptive_cases) auto
  show "replicas \<noteq> [] \<and> distinct replicas \<and> mset ms = mset replicas" if a: "adaptive_sequence p s replicas previous = Inr ms"
  proof -
    have v: "replicas \<noteq> []" "distinct replicas" using adaptive_invalid [of replicas p s previous] a by auto
    from v have "mset ms = mset replicas" by (rule adaptive_cases [of replicas s p previous]) (use a in \<open>auto simp: mset_rotated\<close>)
    with v show ?thesis by simp
  qed
  show "adaptive_sequence p s replicas previous \<noteq> Inl Panic"
    using adaptive_cases [of replicas s p previous] adaptive_invalid [of replicas p s previous] by (metis failure.distinct(1) sum.distinct(1) sum.inject(1))
qed

section \<open>Properties\<close>



lemma shift_inj:
  assumes "(e + k) mod n = (e + k') mod n" and "k \<le> k'" and "k' < (n :: nat)"
  shows "k = k'"
proof -
  have "n dvd (e + k') - (e + k)" using assms(1,2) mod_eq_dvd_iff_nat [of "e + k" "e + k'" n] by simp
  then have "n dvd k' - k" by simp
  then show ?thesis using assms(2,3) by (auto dest: dvd_imp_le)
qed

lemma unique_shift:
  assumes "j < (n :: nat)"
  shows "\<exists>!k. k < n \<and> (e + k) mod n = j"
proof
  let ?k = "(j + n - e mod n) mod n"
  have "e mod n \<le> j + n" using assms by (metis mod_less_divisor gr_implies_not0 neq0_conv less_imp_le trans_le_add2)
  then have "(e + ?k) mod n = (j + n) mod n" by (metis mod_add_left_eq mod_add_right_eq le_add_diff_inverse)
  then show k: "?k < n \<and> (e + ?k) mod n = j" using assms by simp
  show "k = ?k" if "k < n \<and> (e + k) mod n = j" for k
    using that k shift_inj [of e k n ?k] shift_inj [of e ?k n k] by (metis linear)
qed

text \<open>
  C27: Round robin is fair and stable. All slots of an epoch have the same leader, and in any stretch
  of as many epochs as there are replicas every replica leads exactly one.
\<close>

theorem round_robin_fair:
  assumes "replicas \<noteq> []" and "distinct replicas" and "rrp_epoch_size p = sz" and "0 < sz"
    and "(e + length replicas) * unat sz \<le> 2 ^ 64" and "r \<in> set replicas"
  shows "\<exists>!k. k < length replicas \<and>
    (\<forall>slot. unat slot div unat sz = e + k \<longrightarrow>
       (\<exists>ms. round_robin_sequence p slot replicas w = Inr ms \<and> hd ms = r))"
proof -
  let ?n = "length replicas"
  have n: "0 < ?n" using assms(1) by simp
  have z: "0 < unat sz" using assms(4) by (simp add: unat_gt_0)
  have lead: "\<exists>ms. round_robin_sequence p slot replicas w = Inr ms \<and> hd ms = replicas ! (unat slot div unat sz mod ?n)" for slot
    using assms(1-3) n by (auto simp: round_robin_sequence_def hd_rotated unat_div_distrib)
  have first: "\<exists>slot :: u64. unat slot div unat sz = e + k" if "k < ?n" for k
  proof -
    have "Suc (e + k) * unat sz \<le> 2 ^ 64" using that assms(5) by (meson Suc_leI add_less_cancel_left le_trans mult_le_mono1)
    then have "(e + k) * unat sz < 2 ^ 64" using z by simp
    then have "unat (of_nat ((e + k) * unat sz) :: u64) = (e + k) * unat sz" by (simp add: unat_of_nat del: of_nat_mult of_nat_add)
    then show ?thesis using z by (metis nonzero_mult_div_cancel_right less_numeral_extra(3))
  qed
  have leads: "(\<forall>slot. unat slot div unat sz = e + k \<longrightarrow> (\<exists>ms. round_robin_sequence p slot replicas w = Inr ms \<and> hd ms = r))
      \<longleftrightarrow> replicas ! ((e + k) mod ?n) = r" if k: "k < ?n" for k
  proof
    assume all: "\<forall>slot. unat slot div unat sz = e + k \<longrightarrow> (\<exists>ms. round_robin_sequence p slot replicas w = Inr ms \<and> hd ms = r)"
    obtain slot :: u64 where "unat slot div unat sz = e + k" using first [OF k] by blast
    with all lead [of slot] show "replicas ! ((e + k) mod ?n) = r" by auto
  next
    assume r: "replicas ! ((e + k) mod ?n) = r"
    show "\<forall>slot. unat slot div unat sz = e + k \<longrightarrow> (\<exists>ms. round_robin_sequence p slot replicas w = Inr ms \<and> hd ms = r)"
      using lead r by metis
  qed
  obtain j where j: "j < ?n" "replicas ! j = r" using assms(6) by (metis in_set_conv_nth)
  have "\<exists>!k. k < ?n \<and> (e + k) mod ?n = j" using j(1) by (rule unique_shift)
  moreover have "replicas ! ((e + k) mod ?n) = r \<longleftrightarrow> (e + k) mod ?n = j" for k
    using j n assms(2) by (metis mod_less_divisor nth_eq_iff_index_eq)
  ultimately have "\<exists>!k. k < ?n \<and> replicas ! ((e + k) mod ?n) = r" by simp
  then show ?thesis using leads by (simp cong: conj_cong)
qed

theorem round_robin_fair_witness:
  "\<exists>k < 3. \<exists>ms. round_robin_sequence (rrp_new 10) (of_nat (10 * (7 + k))) [4, 5, 6] None = Inr ms \<and> hd ms = 6"
proof -
  have "\<exists>!k. k < length [4, 5, 6 :: ReplicaId] \<and> (\<forall>slot. unat slot div unat (10 :: u64) = 7 + k \<longrightarrow>
      (\<exists>ms. round_robin_sequence (rrp_new 10) slot [4, 5, 6] None = Inr ms \<and> hd ms = 6))"
    by (rule round_robin_fair) (simp_all add: rrp_new_def max_def word_le_nat_alt)
  then obtain k where k: "k < length [4, 5, 6 :: ReplicaId]" "\<forall>slot. unat slot div unat (10 :: u64) = 7 + k \<longrightarrow>
      (\<exists>ms. round_robin_sequence (rrp_new 10) slot [4, 5, 6] None = Inr ms \<and> hd ms = 6)"
    by (elim ex1E conjE)
  have l: "k < 3" using k(1) by simp
  then have "unat (of_nat (10 * (7 + k)) :: u64) = 10 * (7 + k)" by (simp add: unat_of_nat del: of_nat_mult of_nat_add)
  then have "unat (of_nat (10 * (7 + k)) :: u64) div unat (10 :: u64) = 7 + k" by simp
  from k(2) [rule_format, OF this] l show ?thesis by blast
qed


definition demo_adaptive :: AdaptivePolicy where
  "demo_adaptive = record_epoch (record_epoch (ap_new 1) 1 900) 2 400"


end
