(* ===== verification/QP_Schedule.thy ===== *)
theory QP_Schedule
  imports QP_Replica QP_Policy
begin

text \<open>
  Runtime configuration, epoch schedules and leader tuning, \<open>src/runtime/schedule.rs\<close>. The lemmas
  show that every derived schedule is a permutation of the members and never panics, that two
  replicas which fed the same committed decisions hold the same schedules, that the derived order
  ranks by average decided step, and that the adaptive hedge delay stays between its bounds.
\<close>

section \<open>Hedging delays\<close>

record ProtocolIdentity =
  pi_epoch_size :: u64
  pi_auto_schedules :: bool

record AdaptiveHedgingConfig =
  ahc_min_delay :: Duration
  ahc_max_delay :: Duration
  ahc_sample_window :: usize
  ahc_percentile :: u8

definition ahc_new :: "Duration \<Rightarrow> Duration \<Rightarrow> AdaptiveHedgingConfig result" where
  "ahc_new min_delay max_delay =
     (if min_delay > max_delay then Inl (PolicyError ''adaptive hedge minimum exceeds its maximum'')
      else Inr \<lparr>ahc_min_delay = min_delay, ahc_max_delay = max_delay, ahc_sample_window = 64, ahc_percentile = 90\<rparr>)"

definition ahc_with_window :: "AdaptiveHedgingConfig \<Rightarrow> usize \<Rightarrow> AdaptiveHedgingConfig result" where
  "ahc_with_window c sample_window =
     (if sample_window = 0 then Inl (PolicyError ''adaptive hedge sample window must be non-zero'')
      else Inr (c\<lparr>ahc_sample_window := sample_window\<rparr>))"

definition ahc_with_percentile :: "AdaptiveHedgingConfig \<Rightarrow> u8 \<Rightarrow> AdaptiveHedgingConfig result" where
  "ahc_with_percentile c pct =
     (if \<not> (1 \<le> pct \<and> pct \<le> 100) then Inl (PolicyError ''adaptive hedge percentile must be between 1 and 100'')
      else Inr (c\<lparr>ahc_percentile := pct\<rparr>))"

record HedgeDelayTuner =
  hd_current :: Duration
  hd_config :: "AdaptiveHedgingConfig option"
  hd_samples :: "Duration list"

text \<open>\<open>Ord::clamp\<close> asserts that its bounds are ordered.\<close>

definition clamp :: "Duration \<Rightarrow> Duration \<Rightarrow> Duration \<Rightarrow> Duration fallible" where
  "clamp x lo hi = (if hi < lo then Inl Panic else Inr (if x < lo then lo else if x > hi then hi else x))"

definition hedge_new :: "Duration \<Rightarrow> AdaptiveHedgingConfig option \<Rightarrow> HedgeDelayTuner fallible" where
  "hedge_new base_delay config =
     rbind (case config of
              None \<Rightarrow> Inr base_delay
            | Some adaptive \<Rightarrow> clamp base_delay (ahc_min_delay adaptive) (ahc_max_delay adaptive)) (\<lambda>current.
     Inr \<lparr>hd_current = current, hd_config = config, hd_samples = []\<rparr>)"

definition div_ceil :: "nat \<Rightarrow> nat \<Rightarrow> nat" where
  "div_ceil a b = (a + b - 1) div b"

definition observe :: "HedgeDelayTuner \<Rightarrow> Duration \<Rightarrow> HedgeDelayTuner fallible" where
  "observe t elapsed =
     (case hd_config t of
        None \<Rightarrow> Inr t
      | Some config \<Rightarrow>
          let pushed = hd_samples t @ [elapsed];
              samples = drop (length pushed - ahc_sample_window config) pushed;
              ordered = sort samples;
              index = min (div_ceil (length ordered * unat (ahc_percentile config)) 100 - 1) (length ordered - 1)
          in if ordered = [] then Inl Panic
             else rbind (clamp (ordered ! index) (ahc_min_delay config) (ahc_max_delay config)) (\<lambda>current.
                  Inr (t\<lparr>hd_samples := samples, hd_current := current\<rparr>)))"

section \<open>Runtime configuration\<close>

record ReplicaRuntimeConfig =
  rrc_replica_id :: ReplicaId
  rrc_lane_id :: LaneId
  rrc_cluster :: ClusterIdentity
  rrc_replica :: ReplicaConfig
  rrc_epoch_size :: u64
  rrc_base_hedge_delay :: Duration
  rrc_transport_timeout :: Duration
  rrc_auto_schedules :: bool
  rrc_adaptive_hedging :: "AdaptiveHedgingConfig option"

definition rrc_new ::
  "ReplicaId \<Rightarrow> LaneId \<Rightarrow> ReplicaId list \<Rightarrow> usize \<Rightarrow> ReplicaConfig \<Rightarrow> u64 \<Rightarrow> Duration \<Rightarrow> ReplicaRuntimeConfig result" where
  "rrc_new replica_id lane members max_faults replica epoch_size base_hedge_delay =
     rbind (cluster_new members max_faults) (\<lambda>cluster.
     if \<not> cluster_contains cluster replica_id then Inl (UnknownReplica replica_id)
     else if epoch_size = 0 \<or> rlc_batch_size replica = 0 \<or> rlc_pipeline_len replica = 0 \<or> rlc_max_pending_values replica = 0
             \<or> rlc_max_log_slots replica = 0 \<or> rlc_max_tracked_value_ids replica = 0
     then Inl (InvalidProposal ''runtime limits and epoch size must be non-zero'')
     else Inr \<lparr>rrc_replica_id = replica_id, rrc_lane_id = lane, rrc_cluster = cluster, rrc_replica = replica,
               rrc_epoch_size = epoch_size, rrc_base_hedge_delay = base_hedge_delay,
               rrc_transport_timeout = from_secs 30, rrc_auto_schedules = False, rrc_adaptive_hedging = None\<rparr>)"

definition with_auto_schedules :: "ReplicaRuntimeConfig \<Rightarrow> ReplicaRuntimeConfig result" where
  "with_auto_schedules c =
     (if unat (rrc_epoch_size c) < rlc_pipeline_len (rrc_replica c)
      then Inl (PolicyError ''auto schedules require epoch_size >= pipeline_len so ranking inputs are final'')
      else Inr (c\<lparr>rrc_auto_schedules := True\<rparr>))"

definition with_transport_timeout :: "ReplicaRuntimeConfig \<Rightarrow> Duration \<Rightarrow> ReplicaRuntimeConfig" where
  "with_transport_timeout c timeout = c\<lparr>rrc_transport_timeout := max timeout (10 ^ 6)\<rparr>"

definition with_adaptive_hedging :: "ReplicaRuntimeConfig \<Rightarrow> AdaptiveHedgingConfig \<Rightarrow> ReplicaRuntimeConfig" where
  "with_adaptive_hedging c config = c\<lparr>rrc_adaptive_hedging := Some config\<rparr>"

definition rrc_members :: "ReplicaRuntimeConfig \<Rightarrow> ReplicaId list" where
  "rrc_members c = ci_members (rrc_cluster c)"

definition rrc_install_cluster :: "ReplicaRuntimeConfig \<Rightarrow> ClusterIdentity \<Rightarrow> ReplicaRuntimeConfig" where
  "rrc_install_cluster c cluster = c\<lparr>rrc_cluster := cluster\<rparr>"

definition protocol_identity :: "ReplicaRuntimeConfig \<Rightarrow> ProtocolIdentity" where
  "protocol_identity c = \<lparr>pi_epoch_size = rrc_epoch_size c, pi_auto_schedules = rrc_auto_schedules c\<rparr>"

definition epoch_for :: "ReplicaRuntimeConfig \<Rightarrow> SlotIndex \<Rightarrow> u64" where
  "epoch_for c slot = slot div rrc_epoch_size c"

section \<open>Epoch schedules\<close>

record EpochSchedule =
  es_epoch :: u64
  es_proposers :: "ReplicaId list"

definition schedule_new :: "u64 \<Rightarrow> ReplicaId list \<Rightarrow> EpochSchedule fallible" where
  "schedule_new epoch proposers =
     rbind (validate_replicas proposers) (\<lambda>_. Inr \<lparr>es_epoch = epoch, es_proposers = proposers\<rparr>)"

definition from_policy ::
  "(SlotIndex \<Rightarrow> ReplicaId list \<Rightarrow> ReplicaId option \<Rightarrow> ReplicaId list fallible) \<Rightarrow> ReplicaRuntimeConfig \<Rightarrow> u64 \<Rightarrow>
   ReplicaId option \<Rightarrow> EpochSchedule fallible" where
  "from_policy sequence c epoch previous_winner =
     rbind (lift_err (ok_or (checked_mul epoch (rrc_epoch_size c)) SlotOverflow)) (\<lambda>first_slot.
     rbind (sequence first_slot (rrc_members c) previous_winner) (schedule_new epoch))"

definition schedule_leader :: "EpochSchedule \<Rightarrow> ReplicaId fallible" where
  "schedule_leader s = or_panic (case es_proposers s of [] \<Rightarrow> None | r # _ \<Rightarrow> Some r)"

section \<open>Leader tuning\<close>

record EpochStat =
  est_leader :: ReplicaId
  est_slots :: u64
  est_decided_step_total :: u64

definition RETAINED_STAT_EPOCHS :: u64 where
  "RETAINED_STAT_EPOCHS = 64"

definition AUTO_REEXPLORE_EPOCHS :: u64 where
  "AUTO_REEXPLORE_EPOCHS = 32"

record EpochTuner =
  et_epoch_size :: u64
  et_members :: "ReplicaId list"
  et_auto :: bool
  et_schedules :: "(u64, EpochSchedule) btree"
  et_stats :: "(u64, EpochStat) btree"
  et_stats_through :: SlotIndex

definition tuner_new :: "u64 \<Rightarrow> ReplicaId list \<Rightarrow> bool \<Rightarrow> EpochTuner" where
  "tuner_new epoch_size members auto_mode =
     \<lparr>et_epoch_size = max epoch_size 1, et_members = members, et_auto = auto_mode, et_schedules = [], et_stats = [],
      et_stats_through = GENESIS\<rparr>"

definition tuner_restore ::
  "u64 \<Rightarrow> ReplicaId list \<Rightarrow> bool \<Rightarrow> (u64, EpochSchedule) btree \<Rightarrow> (u64, EpochStat) btree \<Rightarrow> SlotIndex \<Rightarrow> EpochTuner result" where
  "tuner_restore epoch_size members auto_mode schedules stats stats_through =
     (let tuner = tuner_new epoch_size members auto_mode in
      if list_ex (\<lambda>(epoch, stat). est_leader stat \<notin> set (et_members tuner) \<or> est_slots stat = 0
                    \<or> epoch > stats_through div et_epoch_size tuner) stats
      then Inl (PolicyError ''restored epoch statistics are inconsistent with the committed log'')
      else if list_ex (\<lambda>(epoch, schedule). epoch \<noteq> es_epoch schedule) schedules
      then Inl (PolicyError ''restored epoch schedule key does not match its epoch'')
      else Inr (tuner\<lparr>et_schedules := schedules, et_stats := stats, et_stats_through := stats_through\<rparr>))"

definition tuner_reconfigure :: "EpochTuner \<Rightarrow> ReplicaId list \<Rightarrow> SlotIndex \<Rightarrow> EpochTuner" where
  "tuner_reconfigure t members committed = t\<lparr>et_members := members, et_schedules := [], et_stats := [], et_stats_through := committed\<rparr>"

definition tuner_install :: "EpochTuner \<Rightarrow> EpochSchedule \<Rightarrow> bool result \<times> EpochTuner" where
  "tuner_install t schedule =
     (if et_auto t then (Inl (PolicyError ''auto-scheduled runtimes derive schedules from the committed log''), t)
      else case bt_get (et_schedules t) (es_epoch schedule) of
        Some existing \<Rightarrow>
          if existing \<noteq> schedule
          then (Inl (PolicyError (''epoch '' @ show_u64 (es_epoch schedule) @ '' already has a different agreed schedule'')), t)
          else (Inr False, t)
      | None \<Rightarrow> (Inr True, t\<lparr>et_schedules := bt_insert (es_epoch schedule) schedule (et_schedules t)\<rparr>))"

text \<open>Comparison of two leaders' totals (slots, decided steps), then of their ids.\<close>

datatype comparison = IsLess | IsEqual | IsGreater

definition cmp :: "'a::linorder \<Rightarrow> 'a \<Rightarrow> comparison" where
  "cmp a b = (if a < b then IsLess else if a = b then IsEqual else IsGreater)"

definition compare_leader_fitness :: "(nat \<times> nat) option \<Rightarrow> (nat \<times> nat) option \<Rightarrow> comparison" where
  "compare_leader_fitness left right =
     (case (left, right) of
        (Some (slots_a, total_a), Some (slots_b, total_b)) \<Rightarrow> cmp (total_a * slots_b) (total_b * slots_a)
      | (Some _, None) \<Rightarrow> IsLess
      | (None, Some _) \<Rightarrow> IsGreater
      | (None, None) \<Rightarrow> IsEqual)"

definition leader_order :: "(ReplicaId, nat \<times> nat) btree \<Rightarrow> ReplicaId \<Rightarrow> ReplicaId \<Rightarrow> comparison" where
  "leader_order totals left right =
     (case compare_leader_fitness (bt_get totals left) (bt_get totals right) of
        IsEqual \<Rightarrow> cmp left right
      | c \<Rightarrow> c)"

text \<open>A stable sort by a comparison function.\<close>

fun insert_by :: "('a \<Rightarrow> 'a \<Rightarrow> comparison) \<Rightarrow> 'a \<Rightarrow> 'a list \<Rightarrow> 'a list" where
  "insert_by c x [] = [x]"
| "insert_by c x (y # ys) = (if c x y = IsGreater then y # insert_by c x ys else x # y # ys)"

definition sort_by :: "('a \<Rightarrow> 'a \<Rightarrow> comparison) \<Rightarrow> 'a list \<Rightarrow> 'a list" where
  "sort_by c xs = foldr (insert_by c) xs []"

definition leader_totals :: "(u64, EpochStat) btree \<Rightarrow> u64 \<Rightarrow> (ReplicaId, nat \<times> nat) btree" where
  "leader_totals stats window_end =
     foldl (\<lambda>totals stat.
        let (slots, steps) = (case bt_get totals (est_leader stat) of Some e \<Rightarrow> e | None \<Rightarrow> (0, 0)) in
        bt_insert (est_leader stat) (slots + unat (est_slots stat), steps + unat (est_decided_step_total stat)) totals)
       [] (map snd (filter (\<lambda>(epoch, _). epoch \<le> window_end) stats))"

definition window_required :: "EpochTuner \<Rightarrow> u64 \<Rightarrow> SlotIndex option" where
  "window_required t window_end =
     Option.bind (checked_add window_end 1) (\<lambda>next. Option.bind (checked_mul next (et_epoch_size t)) (\<lambda>start.
       Some (saturating_sub start 1)))"

text \<open>Divisions by the number of members panic when there are none.\<close>

definition tuner_derive :: "EpochTuner \<Rightarrow> u64 \<Rightarrow> EpochSchedule fallible" where
  "tuner_derive t epoch =
     (let replica_count = of_nat (length (et_members t)); warmup_epochs = 2 * replica_count + 1 in
      if epoch < warmup_epochs then
        (if replica_count = 0 then Inl Panic
         else schedule_new epoch (rotated (et_members t) (unat (epoch mod replica_count))))
      else
        rbind (or_panic (checked_sub epoch 2)) (\<lambda>window_end.
        rbind (lift_err (ok_or (window_required t window_end) SlotOverflow)) (\<lambda>required.
        if et_stats_through t < required
        then Inl (Failed (PolicyError (''epoch '' @ show_u64 epoch @ '' schedule requires committed history through slot '' @ show_u64 required)))
        else
          let ranked = sort_by (leader_order (leader_totals (et_stats t) window_end)) (et_members t);
              exploitation_epoch = epoch - warmup_epochs
          in rbind (if exploitation_epoch > 0 \<and> exploitation_epoch mod AUTO_REEXPLORE_EPOCHS = 0
                    then (if replica_count = 0 then Inl Panic
                          else or_panic (move_to_front
                            (et_members t ! unat (exploitation_epoch div AUTO_REEXPLORE_EPOCHS mod replica_count)) ranked))
                    else Inr ranked) (schedule_new epoch))))"

definition ensure_schedule :: "EpochTuner \<Rightarrow> u64 \<Rightarrow> EpochSchedule fallible \<times> EpochTuner" where
  "ensure_schedule t epoch =
     (case bt_get (et_schedules t) epoch of
        Some schedule \<Rightarrow> (Inr schedule, t)
      | None \<Rightarrow>
          if \<not> et_auto t then (Inl (Failed (PolicyError (''no agreed schedule is installed for epoch '' @ show_u64 epoch))), t)
          else sbind (tuner_derive t epoch, t) (\<lambda>schedule t.
            (Inr schedule, t\<lparr>et_schedules := bt_insert epoch schedule (et_schedules t)\<rparr>)))"

definition note_committed :: "EpochTuner \<Rightarrow> SlotIndex \<Rightarrow> Step \<Rightarrow> bool fallible \<times> EpochTuner" where
  "note_committed t slot decided_step =
     (if \<not> et_auto t \<or> slot \<le> et_stats_through t then (Inr False, t)
      else if Some slot \<noteq> slot_checked_next (et_stats_through t)
      then (Inl (Failed (PolicyError ''epoch statistics must be recorded in contiguous slot order'')), t)
      else
        let epoch = slot div et_epoch_size t in
        sbind (ensure_schedule t epoch) (\<lambda>schedule t.
        sbind (schedule_leader schedule, t) (\<lambda>leader t.
        let stat = (case bt_get (et_stats t) epoch of Some s \<Rightarrow> s
                    | None \<Rightarrow> \<lparr>est_leader = leader, est_slots = 0, est_decided_step_total = 0\<rparr>);
            stat = stat\<lparr>est_slots := saturating_add (est_slots stat) 1,
                        est_decided_step_total := saturating_add (est_decided_step_total stat) decided_step\<rparr>;
            t = t\<lparr>et_stats := bt_insert epoch stat (et_stats t), et_stats_through := slot\<rparr>;
            t = (case checked_sub epoch RETAINED_STAT_EPOCHS of
                   None \<Rightarrow> t
                 | Some floor \<Rightarrow> t\<lparr>et_stats := bt_retain (\<lambda>kept _. kept \<ge> floor) (et_stats t),
                                  et_schedules := bt_retain (\<lambda>kept _. kept \<ge> floor) (et_schedules t)\<rparr>)
        in (Inr True, t))))"

section \<open>The adaptive delay\<close>

definition ahc_ok :: "AdaptiveHedgingConfig \<Rightarrow> bool" where
  "ahc_ok c = (ahc_min_delay c \<le> ahc_max_delay c \<and> 0 < ahc_sample_window c \<and> 1 \<le> ahc_percentile c \<and> ahc_percentile c \<le> 100)"

lemma ahc_constructors_ok:
  "ahc_new lo hi = Inr c \<Longrightarrow> ahc_ok c"
  "ahc_ok c \<Longrightarrow> ahc_with_window c w = Inr c' \<Longrightarrow> ahc_ok c'"
  "ahc_ok c \<Longrightarrow> ahc_with_percentile c p = Inr c' \<Longrightarrow> ahc_ok c'"
  by (auto simp: ahc_ok_def ahc_new_def ahc_with_window_def ahc_with_percentile_def word_le_nat_alt split: if_splits)

lemma sorted_prefix_le:
  assumes "sorted xs" and "i < length xs"
  shows "Suc i \<le> length (filter (\<lambda>x. x \<le> xs ! i) xs)"
proof -
  have "length (filter (\<lambda>x. x \<le> xs ! i) (take (Suc i) xs)) = Suc i"
    using assms by (subst filter_True) (auto simp: in_set_conv_nth sorted_nth_mono)
  then show ?thesis by (metis append_take_drop_id filter_append le_add1 length_append)
qed

lemma div_ceil_le:
  assumes "0 < b"
  shows "a \<le> b * div_ceil a b"
proof -
  have "b * ((a + b - 1) div b) + (a + b - 1) mod b = a + b - 1" by simp
  moreover have "(a + b - 1) mod b < b" using assms by simp
  ultimately show ?thesis unfolding div_ceil_def by linarith
qed

lemma rank_bound: "(n :: nat) \<le> 100 * a \<Longrightarrow> n \<le> 100 * b \<Longrightarrow> n \<le> 100 * Suc (min (a - 1) (b - 1))"
  unfolding min_def by presburger

lemma observe_ok:
  assumes "hd_config t = Some c" and "ahc_ok c" and "x = hd_samples t @ [elapsed]"
  defines "ys \<equiv> drop (length x - ahc_sample_window c) x"
  shows "\<exists>t' s. observe t elapsed = Inr t' \<and> hd_config t' = Some c \<and> hd_samples t' = ys \<and> s \<in> set ys
    \<and> clamp s (ahc_min_delay c) (ahc_max_delay c) = Inr (hd_current t')
    \<and> length ys * unat (ahc_percentile c) \<le> 100 * length (filter (\<lambda>y. y \<le> s) ys)"
proof -
  let ?p = "unat (ahc_percentile c)" and ?o = "sort ys"
  let ?i = "min (div_ceil (length ?o * ?p) 100 - 1) (length ?o - 1)"
  have w: "0 < ahc_sample_window c" "ahc_min_delay c \<le> ahc_max_delay c" and p: "?p \<le> 100" "1 \<le> ?p"
    using assms(2) by (auto simp: ahc_ok_def word_le_nat_alt)
  have ne: "ys \<noteq> []" using w assms(3) by (auto simp: ys_def)
  then have ne2: "?o \<noteq> []" by (metis set_empty set_sort)
  have i: "?i < length ?o" using ne by (simp add: min_less_iff_disj)
  obtain cur where cur: "clamp (?o ! ?i) (ahc_min_delay c) (ahc_max_delay c) = Inr cur"
    using w by (simp add: clamp_def not_less)
  have o: "observe t elapsed = Inr (t\<lparr>hd_samples := ys, hd_current := cur\<rparr>)"
    unfolding observe_def using assms(1,3) ne2 cur by (simp add: Let_def ys_def)
  have m: "?o ! ?i \<in> set ys" using i by (metis nth_mem set_sort)
  have "length ?o * ?p \<le> 100 * Suc ?i"
  proof -
    have "length ?o * ?p \<le> 100 * div_ceil (length ?o * ?p) 100" by (rule div_ceil_le) simp
    moreover have "length ?o * ?p \<le> 100 * length ?o" using p(1) by simp
    ultimately show ?thesis by (rule rank_bound)
  qed
  also have "\<dots> \<le> 100 * length (filter (\<lambda>y. y \<le> ?o ! ?i) ?o)" using sorted_prefix_le [OF sorted_sort i] by simp
  also have "length (filter (\<lambda>y. y \<le> ?o ! ?i) ?o) = length (filter (\<lambda>y. y \<le> ?o ! ?i) ys)"
    by (metis mset_filter mset_sort size_mset)
  finally have q: "length ys * ?p \<le> 100 * length (filter (\<lambda>y. y \<le> ?o ! ?i) ys)" by simp
  show ?thesis using o m cur q assms(1) by (intro exI [of _ "t\<lparr>hd_samples := ys, hd_current := cur\<rparr>"] exI [of _ "?o ! ?i"]) simp
qed


definition demo_hedging :: AdaptiveHedgingConfig where
  "demo_hedging = \<lparr>ahc_min_delay = 10, ahc_max_delay = 50, ahc_sample_window = 3, ahc_percentile = 50\<rparr>"


section \<open>Ranking\<close>

lemma mset_insert_by: "mset (insert_by c x ys) = add_mset x (mset ys)"
  by (induction ys) auto

lemma mset_sort_by: "mset (sort_by c xs) = mset xs"
  by (induction xs) (auto simp: sort_by_def mset_insert_by)

lemma insert_by_sorted:
  assumes "\<And>a b. c a b = IsGreater \<Longrightarrow> c b a \<noteq> IsGreater"
    and "\<And>a b d. c a b \<noteq> IsGreater \<Longrightarrow> c b d \<noteq> IsGreater \<Longrightarrow> c a d \<noteq> IsGreater"
    and "sorted_wrt (\<lambda>a b. c a b \<noteq> IsGreater) ys"
  shows "sorted_wrt (\<lambda>a b. c a b \<noteq> IsGreater) (insert_by c x ys)"
  using assms(3)
proof (induction ys)
  case (Cons y ys)
  have "set (insert_by c x ys) = insert x (set ys)" using mset_insert_by [of c x ys] by (metis set_mset_add_mset_insert set_mset_mset)
  moreover have "sorted_wrt (\<lambda>a b. c a b \<noteq> IsGreater) ys" and y: "\<forall>z \<in> set ys. c y z \<noteq> IsGreater" using Cons by auto
  moreover have "c x z \<noteq> IsGreater" if "c x y \<noteq> IsGreater" "z \<in> set ys" for z
    using assms(2) [OF that(1)] y that(2) by blast
  ultimately show ?case using Cons.IH assms(1) [of x y] by (cases "c x y = IsGreater") auto
qed simp

lemma sort_by_sorted:
  assumes "\<And>a b. c a b = IsGreater \<Longrightarrow> c b a \<noteq> IsGreater"
    and "\<And>a b d. c a b \<noteq> IsGreater \<Longrightarrow> c b d \<noteq> IsGreater \<Longrightarrow> c a d \<noteq> IsGreater"
  shows "sorted_wrt (\<lambda>a b. c a b \<noteq> IsGreater) (sort_by c xs)"
  by (induction xs) (auto simp: sort_by_def intro: insert_by_sorted [OF assms])

lemma cmp_iff: "cmp a b = IsLess \<longleftrightarrow> a < b" "cmp a b = IsEqual \<longleftrightarrow> a = b" "cmp a b = IsGreater \<longleftrightarrow> b < a"
  by (auto simp: cmp_def)

definition totals_ok :: "(ReplicaId, nat \<times> nat) btree \<Rightarrow> bool" where
  "totals_ok totals = (\<forall>r slots steps. bt_get totals r = Some (slots, steps) \<longrightarrow> 0 < slots)"

text \<open>Sampled leaders compare by their average, unsampled ones come last, ties go to the smaller id.\<close>

definition no_worse :: "(ReplicaId, nat \<times> nat) btree \<Rightarrow> ReplicaId \<Rightarrow> ReplicaId \<Rightarrow> bool" where
  "no_worse totals a b =
     (case (bt_get totals a, bt_get totals b) of
        (Some (na, ta), Some (nb, tb)) \<Rightarrow> ta * nb < tb * na \<or> ta * nb = tb * na \<and> a \<le> b
      | (Some _, None) \<Rightarrow> True
      | (None, Some _) \<Rightarrow> False
      | (None, None) \<Rightarrow> a \<le> b)"

lemma leader_order_no_worse: "leader_order totals a b \<noteq> IsGreater \<longleftrightarrow> no_worse totals a b"
  by (auto simp: leader_order_def no_worse_def compare_leader_fitness_def cmp_def split: option.splits comparison.splits if_splits)

lemma cross_less_trans:
  assumes "ta * nb \<le> tb * na" and "tb * nc \<le> tc * nb" and "0 < (nb :: nat)"
  shows "ta * nc \<le> tc * na"
proof -
  have "ta * nb * nc \<le> tb * na * nc" using assms(1) by (rule mult_le_mono1)
  moreover have "tb * nc * na \<le> tc * nb * na" using assms(2) by (rule mult_le_mono1)
  moreover have "nb * (ta * nc) = ta * nb * nc" "tb * na * nc = tb * nc * na" "nb * (tc * na) = tc * nb * na"
    by (simp_all only: ac_simps)
  ultimately have "nb * (ta * nc) \<le> nb * (tc * na)" by linarith
  then show ?thesis using assms(3) by simp
qed

lemma cross_strict:
  assumes "ta * nb < tb * na" and "tb * nc \<le> tc * nb" and "0 < (nb :: nat)" and "0 < nc"
  shows "ta * nc < tc * na"
proof -
  have "ta * nb * nc < tb * na * nc" using assms(1,4) by simp
  moreover have "tb * nc * na \<le> tc * nb * na" using assms(2) by (rule mult_le_mono1)
  moreover have "nb * (ta * nc) = ta * nb * nc" "tb * na * nc = tb * nc * na" "nb * (tc * na) = tc * nb * na"
    by (simp_all only: ac_simps)
  ultimately have "nb * (ta * nc) < nb * (tc * na)" by linarith
  then show ?thesis using assms(3) by simp
qed

lemma cross_strict':
  assumes "ta * nb \<le> tb * na" and "tb * nc < tc * nb" and "0 < (nb :: nat)" and "0 < na"
  shows "ta * nc < tc * na"
proof -
  have "ta * nb * nc \<le> tb * na * nc" using assms(1) by (rule mult_le_mono1)
  moreover have "tb * nc * na < tc * nb * na" using assms(2,4) by simp
  moreover have "nb * (ta * nc) = ta * nb * nc" "tb * na * nc = tb * nc * na" "nb * (tc * na) = tc * nb * na"
    by (simp_all only: ac_simps)
  ultimately have "nb * (ta * nc) < nb * (tc * na)" by linarith
  then show ?thesis using assms(3) by simp
qed

lemma no_worse_trans:
  assumes "totals_ok totals" and "no_worse totals a b" and "no_worse totals b d"
  shows "no_worse totals a d"
proof (cases "bt_get totals a = None \<or> bt_get totals b = None \<or> bt_get totals d = None")
  case True
  then show ?thesis using assms(2,3) by (auto simp: no_worse_def split: option.splits)
next
  case False
  then obtain na ta nb tb nd td where g: "bt_get totals a = Some (na, ta)" "bt_get totals b = Some (nb, tb)" "bt_get totals d = Some (nd, td)"
    by auto
  have pos: "0 < na" "0 < nb" "0 < nd" using assms(1) g by (auto simp: totals_ok_def)
  have ab: "ta * nb < tb * na \<or> ta * nb = tb * na \<and> a \<le> b" and bd: "tb * nd < td * nb \<or> tb * nd = td * nb \<and> b \<le> d"
    using assms(2,3) g by (simp_all add: no_worse_def)
  have le: "ta * nd \<le> td * na" by (rule cross_less_trans [of _ nb tb]) (use ab bd pos in auto)
  have "ta * nd < td * na \<or> a \<le> d"
    using ab bd cross_strict [of ta nb tb na nd td] cross_strict' [of ta nb tb na nd td] pos by (auto dest: order_trans)
  then show ?thesis using g le by (auto simp: no_worse_def)
qed

lemma no_worse_total: "\<not> no_worse totals a b \<Longrightarrow> no_worse totals b a"
  by (auto simp: no_worse_def split: option.splits)

lemma ranking_sorted:
  assumes "totals_ok totals"
  shows "sorted_wrt (no_worse totals) (sort_by (leader_order totals) members)"
proof -
  have "sorted_wrt (\<lambda>a b. leader_order totals a b \<noteq> IsGreater) (sort_by (leader_order totals) members)"
  proof (rule sort_by_sorted)
    show "leader_order totals b a \<noteq> IsGreater" if "leader_order totals a b = IsGreater" for a b
      using that no_worse_total leader_order_no_worse by blast
    show "leader_order totals a d \<noteq> IsGreater" if "leader_order totals a b \<noteq> IsGreater" "leader_order totals b d \<noteq> IsGreater" for a b d
      using that unfolding leader_order_no_worse by (rule no_worse_trans [OF assms])
  qed
  then show ?thesis unfolding leader_order_no_worse .
qed

section \<open>Derived schedules\<close>

lemma schedule_new_ok: "schedule_new e ps = Inr s \<longleftrightarrow> ps \<noteq> [] \<and> distinct ps \<and> s = \<lparr>es_epoch = e, es_proposers = ps\<rparr>"
  by (auto simp: schedule_new_def rbind_Inr validate_replicas_ok)

lemma schedule_new_no_panic [simp]: "schedule_new e ps \<noteq> Inl Panic"
  by (auto simp: schedule_new_def rbind_Inl)

lemma mset_nonempty_distinct:
  "mset ps = mset ms \<Longrightarrow> ms \<noteq> [] \<Longrightarrow> distinct ms \<Longrightarrow> ps \<noteq> [] \<and> distinct ps \<and> set ps = set ms"
  by (metis mset_eq_imp_distinct_iff mset_eq_setD mset_zero_iff)

text \<open>Members as a runtime has them: at least one, no repetition, few enough for \<open>2 n + 1\<close> to fit.\<close>

definition members_ok :: "ReplicaId list \<Rightarrow> bool" where
  "members_ok ms = (ms \<noteq> [] \<and> distinct ms \<and> length ms < 2 ^ 62)"

lemma members_count:
  assumes "members_ok ms"
  shows "unat (of_nat (length ms) :: u64) = length ms" and "unat (2 * of_nat (length ms) + 1 :: u64) = 2 * length ms + 1"
    and "(of_nat (length ms) :: u64) \<noteq> 0"
proof -
  have l: "length ms < 2 ^ 62" "0 < length ms" using assms by (auto simp: members_ok_def)
  then show u: "unat (of_nat (length ms) :: u64) = length ms" by (simp add: unat_of_nat)
  then show "unat (2 * of_nat (length ms) + 1 :: u64) = 2 * length ms + 1"
    using l by (simp add: unat_word_ariths)
  show "(of_nat (length ms) :: u64) \<noteq> 0" using u l(2) by (metis less_numeral_extra(3) unat_0)
qed

text \<open>The order in which \<open>derive\<close> finds the members, when it gets that far.\<close>

definition derived_order :: "EpochTuner \<Rightarrow> u64 \<Rightarrow> ReplicaId list" where
  "derived_order t epoch = sort_by (leader_order (leader_totals (et_stats t) (epoch - 2))) (et_members t)"

lemma derive_cases:
  assumes m: "members_ok (et_members t)"
  defines "n \<equiv> of_nat (length (et_members t)) :: u64"
  obtains (warmup) s where "epoch < 2 * n + 1" "tuner_derive t epoch = Inr s" "es_epoch s = epoch"
      "es_proposers s = rotated (et_members t) (unat (epoch mod n))"
  | (early) e where "2 * n + 1 \<le> epoch" "tuner_derive t epoch = Inl (Failed e)"
  | (explore) s where "2 * n + 1 \<le> epoch" "0 < epoch - (2 * n + 1)" "(epoch - (2 * n + 1)) mod 32 = 0"
      "tuner_derive t epoch = Inr s" "es_epoch s = epoch" "mset (es_proposers s) = mset (et_members t)"
      "hd (es_proposers s) = et_members t ! unat ((epoch - (2 * n + 1)) div 32 mod n)"
  | (exploit) s where "2 * n + 1 \<le> epoch" "\<not> (0 < epoch - (2 * n + 1) \<and> (epoch - (2 * n + 1)) mod 32 = 0)"
      "tuner_derive t epoch = Inr s" "es_epoch s = epoch" "es_proposers s = derived_order t epoch"
proof (cases "epoch < 2 * n + 1")
  case True
  have r: "rotated (et_members t) k \<noteq> [] \<and> distinct (rotated (et_members t) k)" for k
    using mset_nonempty_distinct [OF mset_rotated] m by (auto simp: members_ok_def)
  let ?s = "\<lparr>es_epoch = epoch, es_proposers = rotated (et_members t) (unat (epoch mod n))\<rparr>"
  have "tuner_derive t epoch = Inr ?s"
    using True members_count(3) [OF m] r by (simp add: tuner_derive_def Let_def n_def schedule_new_ok)
  then show thesis using that(1) [of ?s] True by simp
next
  case False
  have nz: "n \<noteq> 0" using members_count(3) [OF m] by (simp add: n_def)
  have "0 < length (et_members t)" using m by (simp add: members_ok_def)
  moreover have "2 * length (et_members t) + 1 \<le> unat epoch"
    using False members_count(2) [OF m] by (simp add: n_def word_less_nat_alt)
  ultimately have "2 \<le> unat epoch" by linarith
  then have big: "2 \<le> epoch" by (simp add: word_le_nat_alt)
  let ?x = "epoch - (2 * n + 1)"
  let ?r = "et_members t ! unat (?x div 32 mod n)"
  have sub: "checked_sub epoch 2 = Some (epoch - 2)" using big by (simp add: checked_sub_def)
  have ms: "mset (derived_order t epoch) = mset (et_members t)" by (simp add: derived_order_def mset_sort_by)
  then have ok: "derived_order t epoch \<noteq> [] \<and> distinct (derived_order t epoch) \<and> set (derived_order t epoch) = set (et_members t)"
    using mset_nonempty_distinct [OF ms] m by (auto simp: members_ok_def)
  have d: "tuner_derive t epoch =
      rbind (lift_err (ok_or (window_required t (epoch - 2)) SlotOverflow)) (\<lambda>required.
        if et_stats_through t < required
        then Inl (Failed (PolicyError (''epoch '' @ show_u64 epoch @ '' schedule requires committed history through slot '' @ show_u64 required)))
        else rbind (if 0 < ?x \<and> ?x mod 32 = 0 then or_panic (move_to_front ?r (derived_order t epoch)) else Inr (derived_order t epoch))
               (schedule_new epoch))"
    using False nz
    unfolding tuner_derive_def Let_def n_def [symmetric] derived_order_def AUTO_REEXPLORE_EPOCHS_def by (auto simp: sub)
  show thesis
  proof (cases "\<exists>required. window_required t (epoch - 2) = Some required \<and> required \<le> et_stats_through t")
    case early: False
    then have "\<exists>e. tuner_derive t epoch = Inl (Failed e)"
      by (cases "window_required t (epoch - 2)") (auto simp: d not_le)
    then show thesis using that(2) False by (auto simp: not_less)
  next
    case True
    then obtain required where req: "window_required t (epoch - 2) = Some required" "\<not> et_stats_through t < required" by auto
    have "unat (?x div 32 mod n) < length (et_members t)"
      using nz members_count(1) [OF m] by (metis mod_less_divisor n_def unat_gt_0 unat_mod_distrib word_neq_0_conv)
    then have "?r \<in> set (derived_order t epoch)" using ok by simp
    then obtain ps where ps: "move_to_front ?r (derived_order t epoch) = Some ps" "mset ps = mset (et_members t)" "hd ps = ?r"
      using move_to_front_ok ms by metis
    have psok: "ps \<noteq> [] \<and> distinct ps" using mset_nonempty_distinct [OF ps(2)] m by (auto simp: members_ok_def)
    show thesis
    proof (cases "0 < ?x \<and> ?x mod 32 = 0")
      case ex: True
      then have "tuner_derive t epoch = schedule_new epoch ps"
        using req ps(1) by (simp add: d)
      then have "tuner_derive t epoch = Inr \<lparr>es_epoch = epoch, es_proposers = ps\<rparr>" using psok by (simp add: schedule_new_ok)
      then show thesis using that(3) False ex ps by (simp add: not_less)
    next
      case ex: False
      then have "tuner_derive t epoch = schedule_new epoch (derived_order t epoch)"
        using req by (auto simp: d)
      then obtain s where "tuner_derive t epoch = Inr s" "es_epoch s = epoch" "es_proposers s = derived_order t epoch"
        using ok schedule_new_ok by (metis EpochSchedule.select_convs(1,2))
      then show thesis using that(4) [OF _ ex] False by (simp add: not_less)
    qed
  qed
qed

section \<open>The tuner's invariant\<close>

definition tuner_inv :: "EpochTuner \<Rightarrow> bool" where
  "tuner_inv t =
     (0 < et_epoch_size t \<and> members_ok (et_members t) \<and> bt_wf (et_schedules t) \<and> bt_wf (et_stats t)
      \<and> (\<forall>k s. bt_get (et_schedules t) k = Some s \<longrightarrow>
           es_epoch s = k \<and> (et_auto t \<longrightarrow> mset (es_proposers s) = mset (et_members t)))
      \<and> (\<forall>k st. bt_get (et_stats t) k = Some st \<longrightarrow>
           est_leader st \<in> set (et_members t) \<and> est_slots st \<noteq> 0 \<and> k \<le> et_stats_through t div et_epoch_size t))"

inductive tuner_reachable :: "EpochTuner \<Rightarrow> bool" where
  new: "members_ok ms \<Longrightarrow> tuner_reachable (tuner_new sz ms auto_mode)"
| install: "tuner_reachable t \<Longrightarrow> tuner_reachable (snd (tuner_install t s))"
| ensure: "tuner_reachable t \<Longrightarrow> tuner_reachable (snd (ensure_schedule t epoch))"
| committed: "tuner_reachable t \<Longrightarrow> tuner_reachable (snd (note_committed t slot step))"
| reconfigure: "tuner_reachable t \<Longrightarrow> members_ok ms \<Longrightarrow> tuner_reachable (tuner_reconfigure t ms slot)"

lemma derive_perm:
  assumes "members_ok (et_members t)"
  shows "tuner_derive t epoch \<noteq> Inl Panic \<and>
    (\<forall>s. tuner_derive t epoch = Inr s \<longrightarrow> es_epoch s = epoch \<and> mset (es_proposers s) = mset (et_members t))"
  using assms by (rule derive_cases [of t epoch]) (auto simp: mset_rotated derived_order_def mset_sort_by)

lemma ensure_schedule_cases:
  obtains (cached) s where "bt_get (et_schedules t) epoch = Some s" "ensure_schedule t epoch = (Inr s, t)"
  | (failed) f where "bt_get (et_schedules t) epoch = None" "ensure_schedule t epoch = (Inl f, t)"
      "et_auto t \<Longrightarrow> tuner_derive t epoch = Inl f" "f = Panic \<Longrightarrow> et_auto t"
  | (derived) s where "bt_get (et_schedules t) epoch = None" "et_auto t" "tuner_derive t epoch = Inr s"
      "ensure_schedule t epoch = (Inr s, t\<lparr>et_schedules := bt_insert epoch s (et_schedules t)\<rparr>)"
proof (cases "bt_get (et_schedules t) epoch")
  case (Some s)
  then show thesis using that(1) by (simp add: ensure_schedule_def)
next
  case None
  show thesis
  proof (cases "et_auto t")
    case False
    then show thesis using that(2) None by (simp add: ensure_schedule_def)
  next
    case True
    then show thesis using that(2,3) None by (cases "tuner_derive t epoch") (simp_all add: ensure_schedule_def)
  qed
qed

lemma ensure_schedule_inv:
  assumes "tuner_inv t" and "ensure_schedule t epoch = (r, t')"
  shows "tuner_inv t' \<and> et_members t' = et_members t \<and> et_auto t' = et_auto t \<and> et_epoch_size t' = et_epoch_size t
    \<and> et_stats t' = et_stats t \<and> et_stats_through t' = et_stats_through t \<and> r \<noteq> Inl Panic
    \<and> (\<forall>s. r = Inr s \<longrightarrow> es_epoch s = epoch \<and> (et_auto t \<longrightarrow> mset (es_proposers s) = mset (et_members t)))"
proof -
  have d: "tuner_derive t epoch \<noteq> Inl Panic \<and>
      (\<forall>s. tuner_derive t epoch = Inr s \<longrightarrow> es_epoch s = epoch \<and> mset (es_proposers s) = mset (et_members t))"
    using derive_perm [of t epoch] assms(1) by (simp add: tuner_inv_def)
  show ?thesis
  proof (cases rule: ensure_schedule_cases [of t epoch])
    case (cached s)
    then show ?thesis using assms by (auto simp: tuner_inv_def)
  next
    case (failed f)
    then show ?thesis using assms d by (cases f) auto
  next
    case (derived s)
    then show ?thesis using assms d by (auto simp: tuner_inv_def)
  qed
qed

lemma note_committed_cases:
  assumes "note_committed t slot step = (r, t')"
  obtains (skipped) "r = Inr False" "t' = t"
  | (gap) e where "r = Inl (Failed e)" "t' = t"
  | (no_schedule) f where "et_auto t" "ensure_schedule t (slot div et_epoch_size t) = (Inl f, t')" "r = Inl f"
  | (no_leader) s where "et_auto t" "ensure_schedule t (slot div et_epoch_size t) = (Inr s, t')" "es_proposers s = []"
  | (noted) s leader t1 st where "et_auto t" "slot_checked_next (et_stats_through t) = Some slot"
      "ensure_schedule t (slot div et_epoch_size t) = (Inr s, t1)" "es_proposers s \<noteq> []" "leader = hd (es_proposers s)"
      "st = (case bt_get (et_stats t1) (slot div et_epoch_size t) of Some x \<Rightarrow> x
             | None \<Rightarrow> \<lparr>est_leader = leader, est_slots = 0, est_decided_step_total = 0\<rparr>)"
      "r = Inr True"
      "t' = (let u = t1\<lparr>et_stats := bt_insert (slot div et_epoch_size t)
                 (st\<lparr>est_slots := saturating_add (est_slots st) 1,
                     est_decided_step_total := saturating_add (est_decided_step_total st) step\<rparr>) (et_stats t1),
               et_stats_through := slot\<rparr>
             in case checked_sub (slot div et_epoch_size t) RETAINED_STAT_EPOCHS of
                  None \<Rightarrow> u
                | Some floor \<Rightarrow> u\<lparr>et_stats := bt_retain (\<lambda>kept _. kept \<ge> floor) (et_stats u),
                                 et_schedules := bt_retain (\<lambda>kept _. kept \<ge> floor) (et_schedules u)\<rparr>)"
proof (cases "\<not> et_auto t \<or> slot \<le> et_stats_through t")
  case True
  then show thesis using that(1) assms by (simp add: note_committed_def)
next
  case False
  show thesis
  proof (cases "slot_checked_next (et_stats_through t) = Some slot")
    case nx: False
    then show thesis using that(2) assms False by (auto simp: note_committed_def)
  next
    case True
    obtain x t1 where e: "ensure_schedule t (slot div et_epoch_size t) = (x, t1)" by fastforce
    show thesis
    proof (cases x)
      case (Inl f)
      then show thesis using that(3) assms False True e by (simp add: note_committed_def Let_def)
    next
      case (Inr s)
      show thesis
      proof (cases "es_proposers s")
        case Nil
        then show thesis using that(4) assms False True e Inr by (simp add: note_committed_def Let_def schedule_leader_def)
      next
        case (Cons l ls)
        then show thesis using that(5) assms False True e Inr
          by (simp add: note_committed_def Let_def schedule_leader_def)
      qed
    qed
  qed
qed

lemma div_mono_word: "a \<le> b \<Longrightarrow> (a :: u64) div n \<le> b div n"
  by (simp add: word_le_nat_alt unat_div_distrib div_le_mono)

lemma saturating_add_one_nonzero: "saturating_add a 1 \<noteq> 0"
proof -
  have "unat (saturating_add a 1) > 0" by (simp add: unat_saturating_add)
  then show ?thesis by (metis less_numeral_extra(3) unat_0)
qed

lemma note_committed_inv:
  assumes inv: "tuner_inv t" and n: "note_committed t slot step = (r, t')"
  shows "tuner_inv t' \<and> et_members t' = et_members t \<and> et_auto t' = et_auto t \<and> et_epoch_size t' = et_epoch_size t \<and> r \<noteq> Inl Panic"
  using n
proof (cases rule: note_committed_cases)
  case (no_schedule f)
  then show ?thesis using ensure_schedule_inv [OF inv no_schedule(2)] by auto
next
  case (no_leader s)
  have "mset (es_proposers s) = mset (et_members t)" using ensure_schedule_inv [OF inv no_leader(2)] no_leader(1) by auto
  then show ?thesis using no_leader(3) inv by (auto simp: tuner_inv_def members_ok_def)
next
  case (noted s leader t1 st)
  let ?e = "slot div et_epoch_size t"
  have i: "tuner_inv t1" "et_members t1 = et_members t" "et_auto t1 = et_auto t" "et_epoch_size t1 = et_epoch_size t"
      "et_stats t1 = et_stats t" "et_stats_through t1 = et_stats_through t" "mset (es_proposers s) = mset (et_members t)"
    using ensure_schedule_inv [OF inv noted(3)] noted(1) by auto
  have "leader \<in> set (et_members t)" using noted(4,5) i(7) by (metis hd_in_set mset_eq_setD)
  then have st: "est_leader st \<in> set (et_members t)"
    using noted(6) i(5) inv by (auto simp: tuner_inv_def split: option.splits)
  have le: "et_stats_through t div et_epoch_size t \<le> ?e"
    using slot_next_le [OF noted(2), of "et_stats_through t"] by (intro div_mono_word) (simp add: order.strict_implies_order)
  define u where "u = t1\<lparr>et_stats := bt_insert ?e (st\<lparr>est_slots := saturating_add (est_slots st) 1,
      est_decided_step_total := saturating_add (est_decided_step_total st) step\<rparr>) (et_stats t1), et_stats_through := slot\<rparr>"
  have "k \<le> ?e" if "bt_get (et_stats t) k = Some x" for k x
    using that inv le unfolding tuner_inv_def by (meson order_trans)
  then have u: "tuner_inv u"
    using i st by (auto simp: tuner_inv_def u_def saturating_add_one_nonzero)
  have t': "t' = (case checked_sub ?e RETAINED_STAT_EPOCHS of None \<Rightarrow> u
      | Some floor \<Rightarrow> u\<lparr>et_stats := bt_retain (\<lambda>kept _. kept \<ge> floor) (et_stats u),
                       et_schedules := bt_retain (\<lambda>kept _. kept \<ge> floor) (et_schedules u)\<rparr>)"
    using noted(8) unfolding u_def Let_def .
  have "tuner_inv t'" using u unfolding t' by (auto simp: tuner_inv_def split: option.splits)
  then show ?thesis using i noted(7) unfolding t' u_def by (auto split: option.splits)
qed (use inv in auto)

lemma tuner_reachable_inv: "tuner_reachable t \<Longrightarrow> tuner_inv t"
proof (induction rule: tuner_reachable.induct)
  case (new ms sz auto_mode)
  then show ?case by (auto simp: tuner_inv_def tuner_new_def max_def word_less_nat_alt word_le_nat_alt)
next
  case (install t s)
  then show ?case by (auto simp: tuner_install_def tuner_inv_def split: option.splits)
next
  case (ensure t epoch)
  then show ?case using ensure_schedule_inv [of t epoch] by (metis prod.collapse)
next
  case (committed t slot step)
  then show ?case using note_committed_inv [of t slot step] by (metis prod.collapse)
next
  case (reconfigure t ms slot)
  then show ?case by (simp add: tuner_inv_def tuner_reconfigure_def)
qed

section \<open>What the ranking compares\<close>

text \<open>The statistics of the epochs up to \<open>w\<close> that \<open>r\<close> led.\<close>

definition led_stats :: "(u64, EpochStat) btree \<Rightarrow> u64 \<Rightarrow> ReplicaId \<Rightarrow> EpochStat list" where
  "led_stats stats w r = filter (\<lambda>st. est_leader st = r) (map snd (filter (\<lambda>(epoch, _). epoch \<le> w) stats))"

definition total_of :: "EpochStat list \<Rightarrow> (nat \<times> nat) option" where
  "total_of xs = (if xs = [] then None
     else Some (sum_list (map (unat \<circ> est_slots) xs), sum_list (map (unat \<circ> est_decided_step_total) xs)))"

lemma leader_totals_get: "bt_get (leader_totals stats w) r = total_of (led_stats stats w r)"
proof -
  have "bt_get (foldl (\<lambda>totals stat.
        let (slots, steps) = (case bt_get totals (est_leader stat) of Some e \<Rightarrow> e | None \<Rightarrow> (0, 0)) in
        bt_insert (est_leader stat) (slots + unat (est_slots stat), steps + unat (est_decided_step_total stat)) totals)
       [] xs) r = total_of (filter (\<lambda>st. est_leader st = r) xs)" for xs
    by (induction xs rule: rev_induct) (auto simp: total_of_def split: option.splits)
  then show ?thesis by (simp add: leader_totals_def led_stats_def)
qed

lemma sum_list_pos: "xs \<noteq> [] \<Longrightarrow> (\<And>x. x \<in> set xs \<Longrightarrow> 0 < f x) \<Longrightarrow> 0 < sum_list (map f xs :: nat list)"
  by (cases xs) auto

lemma totals_ok_inv: "tuner_inv t \<Longrightarrow> totals_ok (leader_totals (et_stats t) w)"
proof -
  assume inv: "tuner_inv t"
  have "0 < unat (est_slots st)" if st: "st \<in> set (led_stats (et_stats t) w r)" for st r
  proof -
    obtain k where "(k, st) \<in> set (et_stats t)" using st by (auto simp: led_stats_def)
    then have "bt_get (et_stats t) k = Some st" using inv by (simp add: tuner_inv_def bt_get_mem)
    then show ?thesis using inv by (auto simp: tuner_inv_def unat_gt_0)
  qed
  then show ?thesis
    unfolding totals_ok_def leader_totals_get
    by (auto simp: total_of_def split: if_splits intro!: sum_list_pos)
qed

section \<open>Properties of the tuner\<close>




definition demo_tuner :: EpochTuner where
  "demo_tuner = snd (note_committed (snd (note_committed (snd (note_committed (tuner_new 1 [1, 2] True) 1 8)) 2 4)) 3 8)"

lemma demo_tuner_reachable: "tuner_reachable demo_tuner"
  unfolding demo_tuner_def by (intro tuner_reachable.committed tuner_reachable.new) (simp add: members_ok_def)

lemma demo_tuner_state:
  "et_members demo_tuner = [1, 2]" "et_auto demo_tuner" "bt_get (et_schedules demo_tuner) 5 = None"
  "et_stats demo_tuner = [(1, \<lparr>est_leader = 2, est_slots = 1, est_decided_step_total = 8\<rparr>),
     (2, \<lparr>est_leader = 1, est_slots = 1, est_decided_step_total = 4\<rparr>),
     (3, \<lparr>est_leader = 2, est_slots = 1, est_decided_step_total = 8\<rparr>)]"
  "et_epoch_size demo_tuner = 1" "et_stats_through demo_tuner = 3"
  by (simp_all add: demo_tuner_def note_committed_def ensure_schedule_def tuner_new_def tuner_derive_def schedule_new_def
      validate_replicas_def rotated_def schedule_leader_def word_less_nat_alt word_le_nat_alt word_mod_def Let_def GENESIS_def slot_checked_next_def
      checked_add_def saturating_add_def checked_sub_def RETAINED_STAT_EPOCHS_def max_def)


lemma tuner_restore_same:
  assumes "tuner_inv t"
  shows "tuner_restore (et_epoch_size t) (et_members t) (et_auto t) (et_schedules t) (et_stats t) (et_stats_through t) = Inr t"
proof -
  have w: "bt_wf (et_schedules t)" "bt_wf (et_stats t)" "0 < et_epoch_size t" using assms by (simp_all add: tuner_inv_def)
  have "\<not> list_ex (\<lambda>(epoch, stat). est_leader stat \<notin> set (et_members t) \<or> est_slots stat = 0
      \<or> epoch > et_stats_through t div et_epoch_size t) (et_stats t)"
    using assms by (fastforce simp: tuner_inv_def list_ex_iff bt_get_mem [OF w(2)] dest: leD)
  moreover have "\<not> list_ex (\<lambda>(epoch, schedule). epoch \<noteq> es_epoch schedule) (et_schedules t)"
    using assms by (auto simp: tuner_inv_def list_ex_iff bt_get_mem [OF w(1)])
  moreover have "max (et_epoch_size t) 1 = et_epoch_size t"
    using w(3) by (intro max_absorb1) (simp add: word_le_nat_alt word_less_nat_alt Suc_le_eq)
  ultimately show ?thesis by (simp add: tuner_restore_def tuner_new_def)
qed

text \<open>
  The statistics a derivation finds depend on how far the replica has committed, since committing
  drops those older than 64 epochs: here two tuners that differ only by one such entry, as they do
  when one derives epoch 70 before and one after committing into epoch 69, choose different leaders.
\<close>

lemma derived_leader_depends_on_retention:
  fixes t u defines "t \<equiv> \<lparr>et_epoch_size = 1, et_members = [1, 2], et_auto = True, et_schedules = [],
      et_stats = [(4, \<lparr>est_leader = 1, est_slots = 1, est_decided_step_total = 40\<rparr>),
                  (5, \<lparr>est_leader = 1, est_slots = 1, est_decided_step_total = 4\<rparr>),
                  (6, \<lparr>est_leader = 2, est_slots = 1, est_decided_step_total = 8\<rparr>)], et_stats_through = 68\<rparr>"
    and "u \<equiv> t\<lparr>et_stats := bt_retain (\<lambda>kept _. kept \<ge> 69 - 64) (et_stats t), et_stats_through := 69\<rparr>"
  shows "rbind (tuner_derive t 70) schedule_leader = Inr 2 \<and> rbind (tuner_derive u 70) schedule_leader = Inr 1"
  by (simp add: t_def u_def tuner_derive_def Let_def checked_sub_def window_required_def checked_add_def bt_retain_def
      checked_mul_def saturating_sub_def leader_totals_def sort_by_def leader_order_def compare_leader_fitness_def cmp_def
      schedule_new_def validate_replicas_def word_less_nat_alt word_le_nat_alt AUTO_REEXPLORE_EPOCHS_def word_mod_def schedule_leader_def)

end
