(* ===== verification/QP_Runtime.thy ===== *)
theory QP_Runtime
  imports QP_Schedule QP_Proposer
begin

text \<open>
  The replica runtime of \<open>src/runtime.rs\<close>: durable snapshots, arming and hedging of local proposals,
  decision dissemination, execution and client notification, checkpoints, state transfer and
  membership changes. The embedding application, the state store and the recorder endpoints are
  reached through the operations of a \<open>host\<close>.
\<close>

section \<open>Snapshots and stores\<close>

record 'v PendingProposalSnapshot =
  pps_value_ids :: "'v list"

record 'v RuntimeSnapshot =
  rs_cluster :: ClusterIdentity
  rs_protocol :: ProtocolIdentity
  rs_replica :: "'v ReplicaSnapshot"
  rs_decisions :: "(SlotIndex, 'v Decision) btree"
  rs_schedules :: "(u64, EpochSchedule) btree"
  rs_pending :: "(SlotIndex, 'v PendingProposalSnapshot) btree"
  rs_executed :: "SlotIndex set"
  rs_notified :: "SlotIndex set"
  rs_announced_to :: "(SlotIndex, ReplicaId set) btree"
  rs_epoch_stats :: "(u64, EpochStat) btree"
  rs_stats_through :: SlotIndex

record 'v StateTransferSnapshot =
  sts_through :: SlotIndex
  sts_checkpointed_value_ids :: "'v list"
  sts_application_checkpoint :: "u8 list"
  sts_runtime :: "'v RuntimeSnapshot"

record FileRuntimeStore =
  frt_target :: snapshot_target
  frt_fs :: file_system

definition frt_target_at :: "path \<Rightarrow> snapshot_target" where
  "frt_target_at p = \<lparr>st_path = p, st_extension = ''runtime.tmp'', st_label = ''runtime state'',
     st_points = [RuntimeTemporaryOpened, RuntimeTemporaryWritten, RuntimeTemporarySynced,
                  RuntimeRenamed, RuntimeDirectorySynced]\<rparr>"

definition frt_load ::
  "io_faults \<Rightarrow> (u8 list \<Rightarrow> 'v RuntimeSnapshot result) \<Rightarrow> FileRuntimeStore \<Rightarrow> 'v RuntimeSnapshot option result \<times> FileRuntimeStore" where
  "frt_load io decode s = (encoded_load io decode (frt_target s) (frt_fs s), s)"

definition frt_save ::
  "io_faults \<Rightarrow> crash_injector \<Rightarrow> ('v RuntimeSnapshot \<Rightarrow> u8 list result) \<Rightarrow> FileRuntimeStore \<Rightarrow> 'v RuntimeSnapshot \<Rightarrow>
   unit result \<times> FileRuntimeStore" where
  "frt_save io inject encode s x =
     (let (r, fs) = encoded_save io inject encode (frt_target s) (frt_fs s) x in (r, s\<lparr>frt_fs := fs\<rparr>))"

text \<open>The default methods of \<open>StateMachine\<close> and the no-op implementations.\<close>

definition default_export :: "SlotIndex \<Rightarrow> u8 list result" where
  "default_export through = Inl (StorageError ''the state machine does not implement checkpoint export'')"

definition default_import :: "SlotIndex \<Rightarrow> u8 list \<Rightarrow> unit result" where
  "default_import through checkpoint = Inl (StorageError ''the state machine does not implement checkpoint import'')"

definition noop_execute :: "'v Decision \<Rightarrow> unit result" where
  "noop_execute d = Inr ()"

definition noop_export :: "SlotIndex \<Rightarrow> u8 list result" where
  "noop_export through = Inr []"

definition noop_import :: "SlotIndex \<Rightarrow> u8 list \<Rightarrow> unit result" where
  "noop_import through checkpoint =
     (if checkpoint = [] then Inr ()
      else Inl (StorageError ''the no-op state machine accepts only an empty checkpoint''))"

definition noop_committed :: "'v Decision \<Rightarrow> unit result" where
  "noop_committed d = Inr ()"

section \<open>The runtime and its host\<close>

text \<open>Instants are nanoseconds since the clock's origin; the clock counts seconds in 63 bits.\<close>

type_synonym Instant = nat

definition instant_checked_add :: "Instant \<Rightarrow> Duration \<Rightarrow> Instant option" where
  "instant_checked_add now d = (if (now + d) div 10 ^ 9 < 2 ^ 63 then Some (now + d) else None)"

datatype 'v RuntimePoll = Idle | Waiting SlotIndex Instant | Committed "'v Decision list"

record 'v PendingProposal =
  pp_value_ids :: "'v list"
  pp_ready_at :: "Instant option"
  pp_last_observed_step :: "Step option"

definition unarmed :: "'v list \<Rightarrow> 'v PendingProposal" where
  "unarmed vs = \<lparr>pp_value_ids = vs, pp_ready_at = None, pp_last_observed_step = None\<rparr>"

text \<open>
  What the type parameters of \<open>ReplicaRuntime\<close> provide, as operations on a world \<open>'w\<close>: the state store,
  the state machine, the notifier, the auxiliary calls of the recorder handles, the priority source,
  and what the recorders do during one run of the proposer together with how long it took.
\<close>

record ('v, 'g, 'w) host =
  h_load :: "'w \<Rightarrow> 'v RuntimeSnapshot option result \<times> 'w"
  h_save :: "'v RuntimeSnapshot \<Rightarrow> 'w \<Rightarrow> unit result \<times> 'w"
  h_execute :: "'v Decision \<Rightarrow> 'w \<Rightarrow> unit result \<times> 'w"
  h_export :: "SlotIndex \<Rightarrow> 'w \<Rightarrow> u8 list result \<times> 'w"
  h_import :: "SlotIndex \<Rightarrow> u8 list \<Rightarrow> 'w \<Rightarrow> unit result \<times> 'w"
  h_committed :: "'v Decision \<Rightarrow> 'w \<Rightarrow> unit result \<times> 'w"
  h_idle :: "ReplicaId \<Rightarrow> 'w \<Rightarrow> bool"
  h_inform :: "ReplicaId \<Rightarrow> 'v Decision \<Rightarrow> 'w \<Rightarrow> unit result \<times> 'w"
  h_status :: "ReplicaId \<Rightarrow> SlotIndex \<Rightarrow> 'w \<Rightarrow> Step option result \<times> 'w"
  h_install :: "ReplicaId \<Rightarrow> 'v MembershipChange \<Rightarrow> 'w \<Rightarrow> unit result \<times> 'w"
  h_next_below :: "'g \<Rightarrow> Priority \<Rightarrow> Priority result \<times> 'g"
  h_phases :: "SlotIndex \<Rightarrow> 'w \<Rightarrow> ('v reaction list \<times> Duration) \<times> 'w"

record ('v, 'g, 'w) ReplicaRuntime =
  rt_config :: ReplicaRuntimeConfig
  rt_replica :: "'v ReplicaCore"
  rt_proposer :: "'g ProposerCore"
  rt_recorders :: "ReplicaId list"
  rt_decisions :: "(SlotIndex, 'v Decision) btree"
  rt_tuner :: EpochTuner
  rt_pending :: "(SlotIndex, 'v PendingProposal) btree"
  rt_executed :: "SlotIndex set"
  rt_notified :: "SlotIndex set"
  rt_announced_to :: "(SlotIndex, ReplicaId set) btree"
  rt_noop_value :: "'v option"
  rt_hedge_delay :: HedgeDelayTuner
  rt_world :: 'w

definition world_call ::
  "('w \<Rightarrow> 'a result \<times> 'w) \<Rightarrow> ('v, 'g, 'w) ReplicaRuntime \<Rightarrow> 'a fallible \<times> ('v, 'g, 'w) ReplicaRuntime" where
  "world_call f rt = (let (r, w) = f (rt_world rt) in (lift_err r, rt\<lparr>rt_world := w\<rparr>))"

definition replica_call ::
  "('v ReplicaCore \<Rightarrow> 'a result \<times> 'v ReplicaCore) \<Rightarrow> ('v, 'g, 'w) ReplicaRuntime \<Rightarrow> 'a fallible \<times> ('v, 'g, 'w) ReplicaRuntime" where
  "replica_call f rt = (let (r, rl) = f (rt_replica rt) in (lift_err r, rt\<lparr>rt_replica := rl\<rparr>))"

definition tuner_call ::
  "(EpochTuner \<Rightarrow> 'a fallible \<times> EpochTuner) \<Rightarrow> ('v, 'g, 'w) ReplicaRuntime \<Rightarrow> 'a fallible \<times> ('v, 'g, 'w) ReplicaRuntime" where
  "tuner_call f rt = (let (r, t) = f (rt_tuner rt) in (r, rt\<lparr>rt_tuner := t\<rparr>))"

definition runtime_snapshot :: "('v, 'g, 'w) ReplicaRuntime \<Rightarrow> 'v RuntimeSnapshot" where
  "runtime_snapshot rt =
     \<lparr>rs_cluster = rrc_cluster (rt_config rt), rs_protocol = protocol_identity (rt_config rt),
      rs_replica = replica_snapshot (rt_replica rt), rs_decisions = rt_decisions rt,
      rs_schedules = et_schedules (rt_tuner rt),
      rs_pending = bt_map_values (\<lambda>p. \<lparr>pps_value_ids = pp_value_ids p\<rparr>) (rt_pending rt),
      rs_executed = rt_executed rt, rs_notified = rt_notified rt, rs_announced_to = rt_announced_to rt,
      rs_epoch_stats = et_stats (rt_tuner rt), rs_stats_through = et_stats_through (rt_tuner rt)\<rparr>"

definition persist :: "('v, 'g, 'w) host \<Rightarrow> ('v, 'g, 'w) ReplicaRuntime \<Rightarrow> unit fallible \<times> ('v, 'g, 'w) ReplicaRuntime" where
  "persist host rt = world_call (h_save host (runtime_snapshot rt)) rt"

section \<open>Validation\<close>

definition rt_validate_schedule :: "ReplicaRuntimeConfig \<Rightarrow> EpochSchedule \<Rightarrow> unit result" where
  "rt_validate_schedule c schedule =
     (if card (set (es_proposers schedule)) \<noteq> length (es_proposers schedule)
      then Inl (PolicyError ''an epoch schedule contains duplicate proposers'')
      else if set (es_proposers schedule) \<noteq> set (rrc_members c)
      then Inl (PolicyError ''an epoch schedule must contain every configured replica exactly once'')
      else Inr ())"

definition rt_validate_decision :: "ReplicaRuntimeConfig \<Rightarrow> 'v Decision \<Rightarrow> unit result" where
  "rt_validate_decision c d =
     (if dec_value_ids d = [] then Inl EmptyDecision
      else if \<not> cluster_contains (rrc_cluster c) (dec_proposer d) then Inl (InvalidSender (dec_proposer d))
      else if repeats_earlier (dec_value_ids d) then Inl (InvalidProposal ''decision contains duplicate value IDs'')
      else Inr ())"

fun validate_each :: "('a \<Rightarrow> 'b result) \<Rightarrow> 'a list \<Rightarrow> unit result" where
  "validate_each f [] = Inr ()"
| "validate_each f (x # xs) = rbind (f x) (\<lambda>_. validate_each f xs)"

definition validate_restored_state :: "('v, 'g, 'w) ReplicaRuntime \<Rightarrow> unit result" where
  "validate_restored_state rt =
     rbind (validate_each (rt_validate_schedule (rt_config rt)) (bt_values (et_schedules (rt_tuner rt)))) (\<lambda>_.
     rbind (validate_each (rt_validate_decision (rt_config rt)) (bt_values (rt_decisions rt))) (\<lambda>_.
     rbind (validate_each (\<lambda>slot.
         if bt_contains (rt_decisions rt) slot
         then Inl (InvalidProposal ''runtime snapshot has both a decision and a pending proposal for one slot'')
         else if slot \<le> committed_through (rt_replica rt)
         then Inl (InvalidProposal ''runtime snapshot has a pending proposal in the committed prefix'')
         else Inr ()) (bt_keys (rt_pending rt))) (\<lambda>_.
     let decision_slots = set (bt_keys (rt_decisions rt)); members = set (rrc_members (rt_config rt)) in
     if \<not> rt_executed rt \<subseteq> decision_slots \<or> \<not> rt_notified rt \<subseteq> decision_slots \<or> \<not> rt_notified rt \<subseteq> rt_executed rt
     then Inl (InvalidProposal ''runtime snapshot has execution or notification metadata without a decision'')
     else validate_each (\<lambda>(slot, recipients).
         if slot \<notin> decision_slots \<or> \<not> recipients \<subseteq> members
         then Inl (InvalidProposal ''runtime snapshot has invalid decision dissemination metadata'')
         else Inr ()) (rt_announced_to rt))))"

definition rt_validate_recorders :: "ReplicaRuntimeConfig \<Rightarrow> ReplicaId list \<Rightarrow> unit fallible" where
  "rt_validate_recorders c recorders =
     (if card (set recorders) \<noteq> length recorders then
        rbind (or_panic (find (\<lambda>r. length (filter (\<lambda>x. x = r) recorders) > 1) recorders)) (\<lambda>r. Inl (Failed (DuplicateReplica r)))
      else if set recorders \<noteq> set (rrc_members c)
      then Inl (Failed (PolicyError ''runtime recorder handles must match the configured membership exactly''))
      else Inr ())"

definition validate_recorders_for_cluster :: "ClusterIdentity \<Rightarrow> ReplicaId list \<Rightarrow> unit result" where
  "validate_recorders_for_cluster cluster recorders =
     (if card (set recorders) \<noteq> length recorders
      then Inl (InvalidReconfiguration ''replacement recorder handles contain duplicate identities'')
      else if set recorders \<noteq> set (ci_members cluster) then Inl ConfigurationMismatch
      else Inr ())"

section \<open>Start and restart\<close>

definition runtime_new ::
  "('v, 'g, 'w) host \<Rightarrow> ReplicaRuntimeConfig \<Rightarrow> 'g ProposerCore \<Rightarrow> ReplicaId list \<Rightarrow> 'w \<Rightarrow> ('v, 'g, 'w) ReplicaRuntime fallible" where
  "runtime_new host config proposer recorders w =
     rbind (rt_validate_recorders config recorders) (\<lambda>_.
     if pr_replica_id proposer \<noteq> rrc_replica_id config \<or> pr_lane_id proposer \<noteq> rrc_lane_id config
     then Inl (Failed (InvalidProposal ''runtime proposer identity does not match the runtime configuration''))
     else
       let proposer = configure_cluster proposer (rrc_cluster config); (loaded, w) = h_load host w in
       rbind (lift_err loaded) (\<lambda>snapshot.
       rbind (case snapshot of
           Some s \<Rightarrow>
             if rs_cluster s \<noteq> rrc_cluster config \<or> rs_protocol s \<noteq> protocol_identity config
             then Inl (Failed ConfigurationMismatch)
             else
               rbind (lift_err (replica_restore (rrc_replica config) (rs_replica s))) (\<lambda>replica.
               rbind (lift_err (tuner_restore (rrc_epoch_size config) (rrc_members config) (rrc_auto_schedules config)
                        (rs_schedules s) (rs_epoch_stats s) (rs_stats_through s))) (\<lambda>tuner.
               Inr (replica, rs_decisions s, tuner, bt_map_values (\<lambda>p. unarmed (pps_value_ids p)) (rs_pending s),
                    rs_executed s, rs_notified s, rs_announced_to s)))
         | None \<Rightarrow>
             Inr (replica_new (rrc_replica config), [],
                  tuner_new (rrc_epoch_size config) (rrc_members config) (rrc_auto_schedules config), [], {}, {}, []))
         (\<lambda>(replica, decisions, tuner, pending, executed, notified, announced_to).
       rbind (hedge_new (rrc_base_hedge_delay config) (rrc_adaptive_hedging config)) (\<lambda>hedge_delay.
       let rt = \<lparr>rt_config = config, rt_replica = replica, rt_proposer = proposer, rt_recorders = recorders,
                 rt_decisions = decisions, rt_tuner = tuner, rt_pending = pending, rt_executed = executed,
                 rt_notified = notified, rt_announced_to = announced_to, rt_noop_value = None,
                 rt_hedge_delay = hedge_delay, rt_world = w\<rparr>
       in rbind (lift_err (validate_restored_state rt)) (\<lambda>_. Inr rt)))))"

definition with_noop_value :: "('v, 'g, 'w) ReplicaRuntime \<Rightarrow> 'v \<Rightarrow> ('v, 'g, 'w) ReplicaRuntime" where
  "with_noop_value rt v = rt\<lparr>rt_noop_value := Some v\<rparr>"

section \<open>Client input and schedules\<close>

definition rt_submit ::
  "('v, 'g, 'w) host \<Rightarrow> ('v, 'g, 'w) ReplicaRuntime \<Rightarrow> 'v list \<Rightarrow> unit fallible \<times> ('v, 'g, 'w) ReplicaRuntime" where
  "rt_submit host rt value_ids =
     sbind (replica_call (\<lambda>rl. enqueue rl value_ids) rt) (\<lambda>_ rt. persist host rt)"

definition rt_install_epoch_schedule ::
  "('v, 'g, 'w) host \<Rightarrow> ('v, 'g, 'w) ReplicaRuntime \<Rightarrow> EpochSchedule \<Rightarrow> unit fallible \<times> ('v, 'g, 'w) ReplicaRuntime" where
  "rt_install_epoch_schedule host rt schedule =
     sbind (lift_err (rt_validate_schedule (rt_config rt) schedule), rt) (\<lambda>_ rt.
     sbind (tuner_call (\<lambda>t. let (r, t) = tuner_install t schedule in (lift_err r, t)) rt) (\<lambda>changed rt.
     if changed then persist host rt else (Inr (), rt)))"

definition install_policy_epoch ::
  "('v, 'g, 'w) host \<Rightarrow> ('v, 'g, 'w) ReplicaRuntime \<Rightarrow> u64 \<Rightarrow>
   (SlotIndex \<Rightarrow> ReplicaId list \<Rightarrow> ReplicaId option \<Rightarrow> ReplicaId list fallible) \<Rightarrow> ReplicaId option \<Rightarrow>
   EpochSchedule fallible \<times> ('v, 'g, 'w) ReplicaRuntime" where
  "install_policy_epoch host rt epoch sequence previous_winner =
     sbind (from_policy sequence (rt_config rt) epoch previous_winner, rt) (\<lambda>schedule rt.
     sbind (rt_install_epoch_schedule host rt schedule) (\<lambda>_ rt. (Inr schedule, rt)))"

section \<open>Dissemination of decisions\<close>

fun announce_to ::
  "('v, 'g, 'w) host \<Rightarrow> SlotIndex \<Rightarrow> 'v Decision \<Rightarrow> ReplicaId list \<Rightarrow> bool \<Rightarrow> ('v, 'g, 'w) ReplicaRuntime \<Rightarrow>
   bool \<times> ('v, 'g, 'w) ReplicaRuntime" where
  "announce_to host slot d [] changed rt = (changed, rt)"
| "announce_to host slot d (r # recorders) changed rt =
     (if (case bt_get (rt_announced_to rt) slot of Some announced \<Rightarrow> r \<in> announced | None \<Rightarrow> False)
      then announce_to host slot d recorders changed rt
      else let (answer, w) = h_inform host r d (rt_world rt); rt = rt\<lparr>rt_world := w\<rparr> in
        if is_ok answer then
          announce_to host slot d recorders True
            (rt\<lparr>rt_announced_to := bt_insert slot
                 (insert r (case bt_get (rt_announced_to rt) slot of Some announced \<Rightarrow> announced | None \<Rightarrow> {}))
                 (rt_announced_to rt)\<rparr>)
        else announce_to host slot d recorders changed rt)"

fun announce_all ::
  "('v, 'g, 'w) host \<Rightarrow> (SlotIndex \<times> 'v Decision) list \<Rightarrow> bool \<Rightarrow> ('v, 'g, 'w) ReplicaRuntime \<Rightarrow>
   bool \<times> ('v, 'g, 'w) ReplicaRuntime" where
  "announce_all host [] changed rt = (changed, rt)"
| "announce_all host ((slot, d) # announcements) changed rt =
     (let (changed, rt) = announce_to host slot d (rt_recorders rt) changed rt in
      announce_all host announcements changed rt)"

definition flush_decision_notifications ::
  "('v, 'g, 'w) host \<Rightarrow> ('v, 'g, 'w) ReplicaRuntime \<Rightarrow> unit fallible \<times> ('v, 'g, 'w) ReplicaRuntime" where
  "flush_decision_notifications host rt =
     (let (changed, rt) = announce_all host (rt_decisions rt) False rt in
      if changed then persist host rt else (Inr (), rt))"

definition min_list_or :: "nat \<Rightarrow> nat list \<Rightarrow> nat" where
  "min_list_or otherwise xs = (case xs of [] \<Rightarrow> otherwise | x # ys \<Rightarrow> foldl min x ys)"

definition ensure_fully_announced :: "('v, 'g, 'w) ReplicaRuntime \<Rightarrow> SlotIndex \<Rightarrow> unit result" where
  "ensure_fully_announced rt through =
     (let members = set (rrc_members (rt_config rt));
          slots = filter (\<lambda>s. s \<le> through) (bt_keys (rt_decisions rt))
      in if list_ex (\<lambda>s. case bt_get (rt_announced_to rt) s of None \<Rightarrow> True | Some recipients \<Rightarrow> recipients \<noteq> members) slots
         then Inl (QuorumNotReached (card members)
                    (min_list_or 0 (filter_some (\<lambda>s. map_option card (bt_get (rt_announced_to rt) s)) slots)))
         else Inr ())"

section \<open>Execution\<close>

fun note_stats :: "'v Decision list \<Rightarrow> bool \<Rightarrow> ('v, 'g, 'w) ReplicaRuntime \<Rightarrow> bool fallible \<times> ('v, 'g, 'w) ReplicaRuntime" where
  "note_stats [] changed rt = (Inr changed, rt)"
| "note_stats (d # ds) changed rt =
     sbind (tuner_call (\<lambda>t. note_committed t (dec_slot d) (dec_decided_step d)) rt) (\<lambda>c rt.
     note_stats ds (changed \<or> c) rt)"

fun deliver ::
  "('v, 'g, 'w) host \<Rightarrow> 'v Decision list \<Rightarrow> 'v Decision list \<Rightarrow> ('v, 'g, 'w) ReplicaRuntime \<Rightarrow>
   'v Decision list fallible \<times> ('v, 'g, 'w) ReplicaRuntime" where
  "deliver host [] delivered rt = (Inr delivered, rt)"
| "deliver host (d # ds) delivered rt =
     sbind (if dec_slot d \<in> rt_executed rt then (Inr (), rt)
            else sbind (world_call (h_execute host d) rt) (\<lambda>_ rt.
                 persist host (rt\<lparr>rt_executed := insert (dec_slot d) (rt_executed rt)\<rparr>))) (\<lambda>_ rt.
     if dec_slot d \<in> rt_notified rt then deliver host ds delivered rt
     else sbind (world_call (h_committed host d) rt) (\<lambda>_ rt.
          sbind (persist host (rt\<lparr>rt_notified := insert (dec_slot d) (rt_notified rt)\<rparr>)) (\<lambda>_ rt.
          deliver host ds (delivered @ [d]) rt)))"

definition dispatch_committed ::
  "('v, 'g, 'w) host \<Rightarrow> ('v, 'g, 'w) ReplicaRuntime \<Rightarrow> 'v Decision list fallible \<times> ('v, 'g, 'w) ReplicaRuntime" where
  "dispatch_committed host rt =
     (let decisions = map snd (filter (\<lambda>(s, _). s \<le> committed_through (rt_replica rt)) (rt_decisions rt)) in
      sbind (note_stats decisions False rt) (\<lambda>changed rt.
      sbind (if changed then persist host rt else (Inr (), rt)) (\<lambda>_ rt.
      deliver host decisions [] rt)))"

definition store_decision ::
  "('v, 'g, 'w) host \<Rightarrow> ('v, 'g, 'w) ReplicaRuntime \<Rightarrow> 'v Decision \<Rightarrow> unit fallible \<times> ('v, 'g, 'w) ReplicaRuntime" where
  "store_decision host rt d =
     (case bt_get (rt_decisions rt) (dec_slot d) of
        Some existing \<Rightarrow>
          if dec_value_ids existing \<noteq> dec_value_ids d then (Inl (Failed (ConflictingDecision (dec_slot d))), rt)
          else (Inr (), rt)
      | None \<Rightarrow>
          sbind (replica_call (\<lambda>rl. apply_decision rl d) rt) (\<lambda>_ rt.
          persist host (rt\<lparr>rt_pending := bt_remove (dec_slot d) (rt_pending rt),
                           rt_announced_to := bt_or_insert (dec_slot d) {} (rt_announced_to rt),
                           rt_decisions := bt_insert (dec_slot d) d (rt_decisions rt)\<rparr>)))"

definition accept_decision ::
  "('v, 'g, 'w) host \<Rightarrow> ('v, 'g, 'w) ReplicaRuntime \<Rightarrow> 'v Decision \<Rightarrow> 'v Decision list fallible \<times> ('v, 'g, 'w) ReplicaRuntime" where
  "accept_decision host rt d =
     sbind (lift_err (rt_validate_decision (rt_config rt) d), rt) (\<lambda>_ rt.
     if dec_slot d \<le> rl_checkpointed_through (rt_replica rt) then (Inr [], rt)
     else
       sbind (store_decision host rt d) (\<lambda>_ rt.
       sbind (dispatch_committed host rt) (\<lambda>delivered rt.
       sbind (flush_decision_notifications host rt) (\<lambda>_ rt. (Inr delivered, rt)))))"

definition receive_decision where
  "receive_decision host rt d = accept_decision host rt d"

definition rt_recover ::
  "('v, 'g, 'w) host \<Rightarrow> ('v, 'g, 'w) ReplicaRuntime \<Rightarrow> 'v Decision list fallible \<times> ('v, 'g, 'w) ReplicaRuntime" where
  "rt_recover host rt =
     sbind (dispatch_committed host rt) (\<lambda>delivered rt.
     sbind (flush_decision_notifications host rt) (\<lambda>_ rt. (Inr delivered, rt)))"

section \<open>Arming local proposals\<close>

function arm_loop :: "bool \<Rightarrow> ('v, 'g, 'w) ReplicaRuntime \<Rightarrow> bool fallible \<times> ('v, 'g, 'w) ReplicaRuntime" where
  "arm_loop changed rt =
     (case next_proposal (rt_replica rt) of
        (Inl e, rl) \<Rightarrow> (Inl (Failed e), rt\<lparr>rt_replica := rl\<rparr>)
      | (Inr None, rl) \<Rightarrow> (Inr changed, rt\<lparr>rt_replica := rl\<rparr>)
      | (Inr (Some (slot, value_ids)), rl) \<Rightarrow>
          arm_loop True (rt\<lparr>rt_replica := rl, rt_pending := bt_insert slot (unarmed value_ids) (rt_pending rt)\<rparr>))"
  by pat_completeness auto

lemma next_proposal_shrinks:
  "next_proposal rl = (Inr (Some x), rl') \<Longrightarrow> length (rl_pending rl') < length (rl_pending rl)"
  by (erule next_proposal_cases) (auto elim!: note_proposed_cases)

termination arm_loop
  by (relation "measure (\<lambda>(_, rt). length (rl_pending (rt_replica rt)))") (auto dest!: sym [of _ "next_proposal _"] next_proposal_shrinks)

declare arm_loop.simps [simp del]

definition arm_gap_noop :: "('v, 'g, 'w) ReplicaRuntime \<Rightarrow> bool fallible \<times> ('v, 'g, 'w) ReplicaRuntime" where
  "arm_gap_noop rt =
     (case rt_noop_value rt of
        None \<Rightarrow> (Inr False, rt)
      | Some noop \<Rightarrow>
          if rt_pending rt \<noteq> [] then (Inr False, rt)
          else sbind (lift_err (ok_or (slot_checked_next (committed_through (rt_replica rt))) SlotOverflow), rt) (\<lambda>gap rt.
            let later_decision_exists = list_ex (\<lambda>s. s > gap) (bt_keys (rt_decisions rt));
                gap_is_open = (\<not> bt_contains (rt_decisions rt) gap
                  \<and> (case bt_get (rl_log (rt_replica rt)) gap of
                       None \<Rightarrow> True | Some e \<Rightarrow> ls_decision e = None \<and> ls_proposed e = []))
            in if \<not> later_decision_exists \<or> \<not> gap_is_open then (Inr False, rt)
               else sbind (replica_call (\<lambda>rl. note_proposed rl gap [noop]) rt) (\<lambda>_ rt.
                 (Inr True, rt\<lparr>rt_pending := bt_insert gap (unarmed [noop]) (rt_pending rt)\<rparr>))))"

definition ensure_schedule_for ::
  "('v, 'g, 'w) ReplicaRuntime \<Rightarrow> SlotIndex \<Rightarrow> EpochSchedule fallible \<times> ('v, 'g, 'w) ReplicaRuntime" where
  "ensure_schedule_for rt slot = tuner_call (\<lambda>t. ensure_schedule t (epoch_for (rt_config rt) slot)) rt"

definition deadline_for :: "('v, 'g, 'w) ReplicaRuntime \<Rightarrow> EpochSchedule \<Rightarrow> Instant \<Rightarrow> Instant fallible" where
  "deadline_for rt schedule now =
     rbind (or_panic (position (rrc_replica_id (rt_config rt)) (es_proposers schedule))) (\<lambda>i.
     if i \<ge> 2 ^ 32 then Inl (Failed (PolicyError ''hedging schedule is too large for a duration''))
     else rbind (lift_err (ok_or (duration_mul (hd_current (rt_hedge_delay rt)) i) (PolicyError ''hedging delay overflowed''))) (\<lambda>delay.
     lift_err (ok_or (instant_checked_add now delay) (PolicyError ''hedging deadline overflowed''))))"

fun collect_deadlines ::
  "Instant \<Rightarrow> SlotIndex list \<Rightarrow> ('v, 'g, 'w) ReplicaRuntime \<Rightarrow> (SlotIndex \<times> Instant) list fallible \<times> ('v, 'g, 'w) ReplicaRuntime" where
  "collect_deadlines now [] rt = (Inr [], rt)"
| "collect_deadlines now (slot # slots) rt =
     sbind (ensure_schedule_for rt slot) (\<lambda>schedule rt.
     sbind (deadline_for rt schedule now, rt) (\<lambda>deadline rt.
     sbind (collect_deadlines now slots rt) (\<lambda>deadlines rt.
     (Inr ((slot, deadline) # deadlines), rt))))"

definition assign_deadlines ::
  "('v, 'g, 'w) ReplicaRuntime \<Rightarrow> Instant \<Rightarrow> unit fallible \<times> ('v, 'g, 'w) ReplicaRuntime" where
  "assign_deadlines rt now =
     (let unarmed_slots = map fst (filter (\<lambda>(_, p). pp_ready_at p = None) (rt_pending rt)) in
      sbind (collect_deadlines now unarmed_slots rt) (\<lambda>deadlines rt.
      (Inr (), rt\<lparr>rt_pending := fold (\<lambda>(slot, deadline). bt_modify slot (pp_ready_at_update (\<lambda>_. Some deadline))) deadlines (rt_pending rt)\<rparr>)))"

definition arm_available ::
  "('v, 'g, 'w) host \<Rightarrow> ('v, 'g, 'w) ReplicaRuntime \<Rightarrow> Instant \<Rightarrow> usize fallible \<times> ('v, 'g, 'w) ReplicaRuntime" where
  "arm_available host rt now =
     sbind (arm_loop False rt) (\<lambda>armed rt.
     sbind (arm_gap_noop rt) (\<lambda>filled rt.
     sbind (if armed \<or> filled then persist host rt else (Inr (), rt)) (\<lambda>_ rt.
     sbind (assign_deadlines rt now) (\<lambda>_ rt. (Inr (length (rt_pending rt)), rt)))))"

section \<open>Polling\<close>

text \<open>\<open>min_by_key\<close> returns the first of several least elements.\<close>

definition earlier :: "(SlotIndex \<times> Instant) option \<Rightarrow> SlotIndex \<times> Instant \<Rightarrow> (SlotIndex \<times> Instant) option" where
  "earlier best c = (case best of None \<Rightarrow> Some c | Some b \<Rightarrow> if snd c < snd b then Some c else Some b)"

definition armed_slots :: "('v, 'g, 'w) ReplicaRuntime \<Rightarrow> (SlotIndex \<times> Instant) list" where
  "armed_slots rt = filter_some (\<lambda>(slot, p). map_option (\<lambda>t. (slot, t)) (pp_ready_at p)) (rt_pending rt)"

definition next_deadline :: "('v, 'g, 'w) ReplicaRuntime \<Rightarrow> (SlotIndex \<times> Instant) option" where
  "next_deadline rt = foldl earlier None (armed_slots rt)"

fun probe_recorders ::
  "('v, 'g, 'w) host \<Rightarrow> SlotIndex \<Rightarrow> ReplicaId list \<Rightarrow> Step option \<Rightarrow> 'w \<Rightarrow> Step option \<times> 'w" where
  "probe_recorders host slot [] highest w = (highest, w)"
| "probe_recorders host slot (r # recorders) highest w =
     (if \<not> h_idle host r w then probe_recorders host slot recorders highest w
      else let (answer, w) = h_status host r slot w in
        probe_recorders host slot recorders
          (case answer of
             Inr (Some step) \<Rightarrow> Some (case highest of None \<Rightarrow> step | Some current \<Rightarrow> max current step)
           | _ \<Rightarrow> highest) w)"

definition probe_slot_step ::
  "('v, 'g, 'w) host \<Rightarrow> ('v, 'g, 'w) ReplicaRuntime \<Rightarrow> SlotIndex \<Rightarrow> Step option \<times> ('v, 'g, 'w) ReplicaRuntime" where
  "probe_slot_step host rt slot =
     (let (highest, w) = probe_recorders host slot (rt_recorders rt) None (rt_world rt) in (highest, rt\<lparr>rt_world := w\<rparr>))"

definition step_progressed :: "Step option \<Rightarrow> Step option \<Rightarrow> bool" where
  "step_progressed observed noted =
     (case (observed, noted) of
        (Some step, None) \<Rightarrow> step \<ge> ROUND_ONE_PHASE_ZERO
      | (Some step, Some previous) \<Rightarrow> step > previous
      | (None, _) \<Rightarrow> False)"

definition defer_for_progress ::
  "('v, 'g, 'w) host \<Rightarrow> ('v, 'g, 'w) ReplicaRuntime \<Rightarrow> SlotIndex \<Rightarrow> EpochSchedule \<Rightarrow> Instant \<Rightarrow> bool \<times> ('v, 'g, 'w) ReplicaRuntime" where
  "defer_for_progress host rt slot schedule now =
     (let hedge_delay = hd_current (rt_hedge_delay rt) in
      if hedge_delay = 0 then (False, rt)
      else if (case es_proposers schedule of [] \<Rightarrow> False | r # _ \<Rightarrow> r = rrc_replica_id (rt_config rt)) then (False, rt)
      else let (observed, rt) = probe_slot_step host rt slot in
        case bt_get (rt_pending rt) slot of
          None \<Rightarrow> (False, rt)
        | Some pending \<Rightarrow>
            (if step_progressed observed (pp_last_observed_step pending) then
               (case instant_checked_add now hedge_delay of
                  Some deadline \<Rightarrow>
                    (True, rt\<lparr>rt_pending := bt_modify slot
                       (\<lambda>p. p\<lparr>pp_last_observed_step := observed, pp_ready_at := Some deadline\<rparr>) (rt_pending rt)\<rparr>)
                | None \<Rightarrow> (False, rt))
             else (False, rt)))"

text \<open>What the loop of \<open>poll\<close> ends with: nothing to do now, or a slot whose turn it is and its leader.\<close>

datatype 'v turn = Stop "'v RuntimePoll" | Ready SlotIndex EpochSchedule

function poll_turn ::
  "('v, 'g, 'w) host \<Rightarrow> Instant \<Rightarrow> ('v, 'g, 'w) ReplicaRuntime \<Rightarrow> 'v turn fallible \<times> ('v, 'g, 'w) ReplicaRuntime" where
  "poll_turn host now rt =
     (case next_deadline rt of
        None \<Rightarrow> (Inr (Stop Idle), rt)
      | Some (slot, deadline) \<Rightarrow>
          if deadline > now then (Inr (Stop (Waiting slot deadline)), rt)
          else case ensure_schedule_for rt slot of
            (Inl f, rt') \<Rightarrow> (Inl f, rt')
          | (Inr schedule, rt') \<Rightarrow>
              case defer_for_progress host rt' slot schedule now of
                (True, rt'') \<Rightarrow> poll_turn host now rt''
              | (False, rt'') \<Rightarrow> (Inr (Ready slot schedule), rt''))"
  by pat_completeness auto

definition due_count :: "Instant \<Rightarrow> ('v, 'g, 'w) ReplicaRuntime \<Rightarrow> nat" where
  "due_count now rt = length (filter (\<lambda>(_, p). case pp_ready_at p of Some t \<Rightarrow> t \<le> now | None \<Rightarrow> False) (rt_pending rt))"

lemma set_filter_some: "set (filter_some f xs) = {y. \<exists>x \<in> set xs. f x = Some y}"
  by (induction xs) (auto simp: filter_some_def option_list_def split: option.splits)

lemma armed_slots_mem: "(slot, t) \<in> set (armed_slots rt) \<longleftrightarrow> (\<exists>p. (slot, p) \<in> set (rt_pending rt) \<and> pp_ready_at p = Some t)"
  unfolding armed_slots_def set_filter_some by force

lemma earliest:
  "foldl earlier best xs = Some c \<Longrightarrow> (best = Some c \<or> c \<in> set xs) \<and> (\<forall>x \<in> set xs. snd c \<le> snd x) \<and> (\<forall>b. best = Some b \<longrightarrow> snd c \<le> snd b)"
proof (induction xs arbitrary: best)
  case (Cons x xs)
  from Cons.IH [of "earlier best x"] Cons.prems show ?case
    by (cases best; cases x) (auto simp: earlier_def split: if_splits)
qed simp

lemma next_deadline_mem:
  assumes "next_deadline rt = Some (slot, t)"
  shows "\<exists>p. (slot, p) \<in> set (rt_pending rt) \<and> pp_ready_at p = Some t"
  using earliest [OF assms [unfolded next_deadline_def]] by (simp add: armed_slots_mem)

lemma defer_cases:
  assumes "defer_for_progress host rt slot schedule now = (b, rt')"
  obtains (go) w where "\<not> b" "rt' = rt\<lparr>rt_world := w\<rparr>"
  | (wait) w observed p where "b" "bt_get (rt_pending rt) slot = Some p" "step_progressed observed (pp_last_observed_step p)"
      "0 < hd_current (rt_hedge_delay rt)"
      "rt' = rt\<lparr>rt_world := w, rt_pending := bt_modify slot (\<lambda>p. p\<lparr>pp_last_observed_step := observed,
         pp_ready_at := Some (now + hd_current (rt_hedge_delay rt))\<rparr>) (rt_pending rt)\<rparr>"
proof -
  obtain highest w where pr: "probe_recorders host slot (rt_recorders rt) None (rt_world rt) = (highest, w)" by fastforce
  let ?hd = "hd_current (rt_hedge_delay rt)"
  show thesis
  proof (cases "?hd = 0 \<or> (case es_proposers schedule of [] \<Rightarrow> False | r # _ \<Rightarrow> r = rrc_replica_id (rt_config rt))")
    case True
    then show thesis using assms go [of "rt_world rt"] by (auto simp: defer_for_progress_def Let_def split: if_splits)
  next
    case False
    then have d: "(b, rt') = (case bt_get (rt_pending rt) slot of None \<Rightarrow> (False, rt\<lparr>rt_world := w\<rparr>)
        | Some pending \<Rightarrow> if step_progressed highest (pp_last_observed_step pending) then
            (case instant_checked_add now ?hd of
               Some deadline \<Rightarrow> (True, rt\<lparr>rt_world := w, rt_pending := bt_modify slot
                 (\<lambda>p. p\<lparr>pp_last_observed_step := highest, pp_ready_at := Some deadline\<rparr>) (rt_pending rt)\<rparr>)
             | None \<Rightarrow> (False, rt\<lparr>rt_world := w\<rparr>))
          else (False, rt\<lparr>rt_world := w\<rparr>))"
      using assms by (simp add: defer_for_progress_def probe_slot_step_def Let_def pr cong: option.case_cong if_cong)
    show thesis
    proof (cases "bt_get (rt_pending rt) slot")
      case None
      then show thesis using d go [of w] by simp
    next
      case (Some p)
      then show thesis using d False go [of w] wait [OF _ Some, of highest w]
        by (auto simp: instant_checked_add_def split: if_splits)
    qed
  qed
qed

lemma deferred_not_due:
  assumes "defer_for_progress host rt slot schedule now = (True, rt')" and "next_deadline rt = Some (slot, t)" and "t \<le> now"
  shows "due_count now rt' < due_count now rt"
  using assms(1)
proof (cases rule: defer_cases)
  case (wait w observed p)
  obtain q where "(slot, q) \<in> set (rt_pending rt)" "pp_ready_at q = Some t" using next_deadline_mem [OF assms(2)] by blast
  then show ?thesis unfolding due_count_def wait(5) using wait(4) assms(3) by (simp, intro bt_modify_count) auto
qed simp

lemma ensure_schedule_for_frame:
  "ensure_schedule_for rt slot = (r, rt') \<Longrightarrow> \<exists>t. rt' = rt\<lparr>rt_tuner := t\<rparr>"
  by (auto simp: ensure_schedule_for_def tuner_call_def split: prod.splits)

termination poll_turn
proof (relation "measure (\<lambda>(_, now, rt). due_count now rt)"; clarsimp)
  fix host :: "('v, 'g, 'w) host" and now rt slot deadline schedule rt' rt''
  assume n: "next_deadline rt = Some (slot, deadline)" "\<not> now < deadline" and e: "(Inr schedule, rt') = ensure_schedule_for rt slot"
    and d: "(True, rt'') = defer_for_progress host rt' slot schedule now"
  obtain t where t: "rt' = rt\<lparr>rt_tuner := t\<rparr>" using ensure_schedule_for_frame [OF e [symmetric]] by blast
  have "next_deadline rt' = Some (slot, deadline)" using n(1) by (simp add: t next_deadline_def armed_slots_def)
  from deferred_not_due [OF d [symmetric] this] n(2) show "due_count now rt'' < due_count now rt"
    by (simp add: t due_count_def)
qed

declare poll_turn.simps [simp del]

text \<open>
  One run of the proposer for the slot whose turn it is. \<open>Unfinished\<close> stands for a proposer that still
  waits for its recorders.
\<close>

datatype 'v attempt = Stopped "'v RuntimePoll" | Unfinished | Decided "'v Decision"

definition run_proposer ::
  "('v, 'g, 'w) host \<Rightarrow> SlotIndex \<Rightarrow> EpochSchedule \<Rightarrow> ('v, 'g, 'w) ReplicaRuntime \<Rightarrow> 'v attempt fallible \<times> ('v, 'g, 'w) ReplicaRuntime" where
  "run_proposer host slot schedule rt =
     sbind (or_panic (bt_get (rt_pending rt) slot), rt) (\<lambda>pending rt.
     sbind (schedule_leader schedule, rt) (\<lambda>leader rt.
     let ((reactions, elapsed), w) = h_phases host slot (rt_world rt);
         (decided, proposer) = propose (h_next_below host) (rt_proposer rt) slot (pp_value_ids pending) (Some leader)
                                 (rt_recorders rt) [] reactions;
         rt = rt\<lparr>rt_proposer := proposer, rt_world := w\<rparr>
     in case decided of
          None \<Rightarrow> (Inr Unfinished, rt)
        | Some r \<Rightarrow>
            sbind (lift_err r, rt) (\<lambda>d rt.
            sbind (observe (rt_hedge_delay rt) elapsed, rt) (\<lambda>hedge_delay rt.
            (Inr (Decided d), rt\<lparr>rt_hedge_delay := hedge_delay\<rparr>)))))"

definition poll_attempt ::
  "('v, 'g, 'w) host \<Rightarrow> ('v, 'g, 'w) ReplicaRuntime \<Rightarrow> Instant \<Rightarrow> 'v attempt fallible \<times> ('v, 'g, 'w) ReplicaRuntime" where
  "poll_attempt host rt now =
     sbind (flush_decision_notifications host rt) (\<lambda>_ rt.
     sbind (arm_available host rt now) (\<lambda>_ rt.
     sbind (poll_turn host now rt) (\<lambda>turn rt.
     case turn of
       Stop p \<Rightarrow> (Inr (Stopped p), rt)
     | Ready slot schedule \<Rightarrow> run_proposer host slot schedule rt)))"

definition poll ::
  "('v, 'g, 'w) host \<Rightarrow> ('v, 'g, 'w) ReplicaRuntime \<Rightarrow> Instant \<Rightarrow> 'v RuntimePoll option fallible \<times> ('v, 'g, 'w) ReplicaRuntime" where
  "poll host rt now =
     sbind (poll_attempt host rt now) (\<lambda>attempt rt.
     case attempt of
       Stopped p \<Rightarrow> (Inr (Some p), rt)
     | Unfinished \<Rightarrow> (Inr None, rt)
     | Decided d \<Rightarrow> sbind (accept_decision host rt d) (\<lambda>committed rt. (Inr (Some (Committed committed)), rt)))"

text \<open>\<open>run_once\<close> polls, sleeps until a reported deadline and polls again; \<open>later\<close> is the time after the sleep.\<close>

definition run_once ::
  "('v, 'g, 'w) host \<Rightarrow> ('v, 'g, 'w) ReplicaRuntime \<Rightarrow> Instant \<Rightarrow> Instant \<Rightarrow> 'v RuntimePoll option fallible \<times> ('v, 'g, 'w) ReplicaRuntime" where
  "run_once host rt now later =
     sbind (poll host rt now) (\<lambda>outcome rt.
     case outcome of Some (Waiting _ until) \<Rightarrow> poll host rt (max until later) | _ \<Rightarrow> (Inr outcome, rt))"

section \<open>Checkpoints and state transfer\<close>

definition checkpoint_through ::
  "('v, 'g, 'w) host \<Rightarrow> ('v, 'g, 'w) ReplicaRuntime \<Rightarrow> SlotIndex \<Rightarrow> unit fallible \<times> ('v, 'g, 'w) ReplicaRuntime" where
  "checkpoint_through host rt slot =
     sbind (flush_decision_notifications host rt) (\<lambda>_ rt.
     if slot > committed_through (rt_replica rt)
     then (Inl (Failed (InvalidProposal ''cannot checkpoint beyond the contiguous committed prefix'')), rt)
     else if list_ex (\<lambda>s. s \<le> slot) (bt_keys (rt_pending rt))
     then (Inl (Failed (InvalidProposal ''cannot checkpoint a slot with a pending local proposal'')), rt)
     else sbind (lift_err (ensure_fully_announced rt slot), rt) (\<lambda>_ rt.
       persist host (rt\<lparr>rt_replica := replica_prune_through (rt_replica rt) slot,
                        rt_decisions := bt_retain (\<lambda>i _. i > slot) (rt_decisions rt),
                        rt_executed := {i \<in> rt_executed rt. i > slot},
                        rt_notified := {i \<in> rt_notified rt. i > slot},
                        rt_announced_to := bt_retain (\<lambda>i _. i > slot) (rt_announced_to rt)\<rparr>)))"

definition create_state_transfer ::
  "('v::linorder, 'g, 'w) host \<Rightarrow> ('v, 'g, 'w) ReplicaRuntime \<Rightarrow> SlotIndex \<Rightarrow>
   'v StateTransferSnapshot fallible \<times> ('v, 'g, 'w) ReplicaRuntime" where
  "create_state_transfer host rt slot =
     sbind (flush_decision_notifications host rt) (\<lambda>_ rt.
     sbind (lift_err (ensure_fully_announced rt slot), rt) (\<lambda>_ rt.
     let checkpointed_value_ids =
       sorted_list_of_set (set (concat (map (dec_value_ids \<circ> snd) (filter (\<lambda>(s, _). s \<le> slot) (rt_decisions rt))))) in
     sbind (world_call (h_export host slot) rt) (\<lambda>application_checkpoint rt.
     sbind (checkpoint_through host rt slot) (\<lambda>_ rt.
     (Inr \<lparr>sts_through = slot, sts_checkpointed_value_ids = checkpointed_value_ids,
           sts_application_checkpoint = application_checkpoint, sts_runtime = runtime_snapshot rt\<rparr>, rt)))))"

record 'v RestoredRuntimeState =
  rr_replica :: "'v ReplicaCore"
  rr_decisions :: "(SlotIndex, 'v Decision) btree"
  rr_tuner :: EpochTuner
  rr_pending :: "(SlotIndex, 'v PendingProposal) btree"
  rr_executed :: "SlotIndex set"
  rr_notified :: "SlotIndex set"
  rr_announced_to :: "(SlotIndex, ReplicaId set) btree"

definition validate_runtime_components ::
  "ReplicaRuntimeConfig \<Rightarrow> 'v RestoredRuntimeState \<Rightarrow> unit result" where
  "validate_runtime_components c s =
     (let members = set (rrc_members c); decision_slots = set (bt_keys (rr_decisions s)) in
      rbind (validate_each (\<lambda>schedule.
          if card (set (es_proposers schedule)) \<noteq> length (es_proposers schedule) \<or> set (es_proposers schedule) \<noteq> members
          then Inl (PolicyError ''an epoch schedule must contain every configured replica exactly once'')
          else Inr ()) (bt_values (et_schedules (rr_tuner s)))) (\<lambda>_.
      rbind (validate_each (\<lambda>(slot, d).
          if dec_value_ids d = [] \<or> \<not> cluster_contains (rrc_cluster c) (dec_proposer d)
          then Inl (InvalidProposal ''runtime snapshot contains an invalid decision'')
          else if repeats_earlier (dec_value_ids d)
          then Inl (InvalidProposal ''decision contains duplicate value IDs'')
          else if slot \<noteq> dec_slot d
            \<or> (case Option.bind (bt_get (rl_log (rr_replica s)) slot) ls_decision of
                 None \<Rightarrow> True | Some stored \<Rightarrow> dec_value_ids stored \<noteq> dec_value_ids d)
          then Inl (InvalidProposal ''runtime decision does not match the replica log'')
          else Inr ()) (rr_decisions s)) (\<lambda>_.
      rbind (validate_each (\<lambda>slot.
          if bt_contains (rr_decisions s) slot \<or> slot \<le> committed_through (rr_replica s)
            \<or> (case bt_get (rl_log (rr_replica s)) slot of
                 None \<Rightarrow> True | Some e \<Rightarrow> ls_decision e \<noteq> None \<or> ls_proposed e = [])
          then Inl (InvalidProposal ''runtime snapshot has an invalid pending proposal'')
          else Inr ()) (bt_keys (rr_pending s))) (\<lambda>_.
      if \<not> rr_executed s \<subseteq> decision_slots \<or> \<not> rr_notified s \<subseteq> decision_slots \<or> \<not> rr_notified s \<subseteq> rr_executed s
      then Inl (InvalidProposal ''runtime snapshot has execution or notification metadata without a decision'')
      else validate_each (\<lambda>(slot, recipients).
          if slot \<notin> decision_slots \<or> \<not> recipients \<subseteq> members
          then Inl (InvalidProposal ''runtime snapshot has invalid decision dissemination metadata'')
          else Inr ()) (rr_announced_to s)))))"

definition restore_runtime_snapshot ::
  "ReplicaRuntimeConfig \<Rightarrow> 'v RuntimeSnapshot \<Rightarrow> 'v RestoredRuntimeState result" where
  "restore_runtime_snapshot c s =
     (if rs_cluster s \<noteq> rrc_cluster c \<or> rs_protocol s \<noteq> protocol_identity c then Inl ConfigurationMismatch
      else rbind (replica_restore (rrc_replica c) (rs_replica s)) (\<lambda>replica.
        rbind (tuner_restore (rrc_epoch_size c) (rrc_members c) (rrc_auto_schedules c)
                 (rs_schedules s) (rs_epoch_stats s) (rs_stats_through s)) (\<lambda>tuner.
        let restored = \<lparr>rr_replica = replica, rr_decisions = rs_decisions s, rr_tuner = tuner,
                        rr_pending = bt_map_values (\<lambda>p. unarmed (pps_value_ids p)) (rs_pending s),
                        rr_executed = rs_executed s, rr_notified = rs_notified s, rr_announced_to = rs_announced_to s\<rparr>
        in rbind (validate_runtime_components c restored) (\<lambda>_. Inr restored))))"

definition install_state_transfer ::
  "('v, 'g, 'w) host \<Rightarrow> ('v, 'g, 'w) ReplicaRuntime \<Rightarrow> 'v StateTransferSnapshot \<Rightarrow> unit fallible \<times> ('v, 'g, 'w) ReplicaRuntime" where
  "install_state_transfer host rt transfer =
     (if sts_through transfer \<noteq> rls_checkpointed_through (rs_replica (sts_runtime transfer))
      then (Inl (Failed (InvalidProposal ''state-transfer checkpoint does not match the runtime pruning floor'')), rt)
      else sbind (lift_err (restore_runtime_snapshot (rt_config rt) (sts_runtime transfer)), rt) (\<lambda>restored rt.
        sbind (world_call (h_import host (sts_through transfer) (sts_application_checkpoint transfer)) rt) (\<lambda>_ rt.
        sbind (world_call (h_save host (sts_runtime transfer)) rt) (\<lambda>_ rt.
        (Inr (), rt\<lparr>rt_replica := rr_replica restored, rt_decisions := rr_decisions restored, rt_tuner := rr_tuner restored,
                   rt_pending := rr_pending restored, rt_executed := rr_executed restored,
                   rt_notified := rr_notified restored, rt_announced_to := rr_announced_to restored\<rparr>)))))"

section \<open>Membership changes\<close>

fun install_at :: "('v, 'g, 'w) host \<Rightarrow> 'v MembershipChange \<Rightarrow> ReplicaId list \<Rightarrow> ('v, 'g, 'w) ReplicaRuntime \<Rightarrow>
   unit fallible \<times> ('v, 'g, 'w) ReplicaRuntime" where
  "install_at host change [] rt = (Inr (), rt)"
| "install_at host change (r # recorders) rt =
     sbind (world_call (h_install host r change) rt) (\<lambda>_ rt. install_at host change recorders rt)"

definition rt_drained :: "('v, 'g, 'w) ReplicaRuntime \<Rightarrow> 'v Decision \<Rightarrow> bool" where
  "rt_drained rt anchor =
     (committed_through (rt_replica rt) = dec_slot anchor \<and> bt_get (rt_decisions rt) (dec_slot anchor) = Some anchor
      \<and> rt_pending rt = [] \<and> \<not> list_ex (\<lambda>s. s > dec_slot anchor) (bt_keys (rl_log (rt_replica rt))))"

definition activate_membership ::
  "('v, 'g, 'w) host \<Rightarrow> ('v, 'g, 'w) ReplicaRuntime \<Rightarrow> 'v MembershipChange \<Rightarrow> ReplicaId list \<Rightarrow>
   unit fallible \<times> ('v, 'g, 'w) ReplicaRuntime" where
  "activate_membership host rt change next_recorders =
     (let active = set (ci_members (ch_next change));
          (saved, after) = persist host
            (rt\<lparr>rt_announced_to := bt_map_values (\<lambda>recipients. recipients \<inter> active) (rt_announced_to rt),
                rt_config := rrc_install_cluster (rt_config rt) (ch_next change),
                rt_proposer := configure_cluster (rt_proposer rt) (ch_next change),
                rt_recorders := next_recorders,
                rt_tuner := tuner_reconfigure (rt_tuner rt) (ci_members (ch_next change)) (dec_slot (ch_anchor change))\<rparr>)
      in case saved of
           Inr _ \<Rightarrow> (Inr (), after)
         | Inl f \<Rightarrow>
             (Inl f, after\<lparr>rt_config := rt_config rt,
                           rt_proposer := configure_cluster (rt_proposer after) (rrc_cluster (rt_config rt)),
                           rt_recorders := rt_recorders rt, rt_tuner := rt_tuner rt,
                           rt_announced_to := rt_announced_to rt\<rparr>))"

definition rt_install_membership ::
  "('v, 'g, 'w) host \<Rightarrow> ('v, 'g, 'w) ReplicaRuntime \<Rightarrow> 'v MembershipChange \<Rightarrow> ReplicaId list \<Rightarrow>
   unit fallible \<times> ('v, 'g, 'w) ReplicaRuntime" where
  "rt_install_membership host rt change next_recorders =
     sbind (lift_err (validate_binding change), rt) (\<lambda>_ rt.
     if ch_next change = rrc_cluster (rt_config rt) then
       sbind (lift_err (validate_recorders_for_cluster (ch_next change) next_recorders), rt) (\<lambda>_ rt.
       (Inr (), rt\<lparr>rt_recorders := next_recorders\<rparr>))
     else if \<not> is_successor_of (ch_next change) (rrc_cluster (rt_config rt))
     then (Inl (Failed (InvalidReconfiguration ''membership transition does not follow the runtime configuration epoch'')), rt)
     else if \<not> rt_drained rt (ch_anchor change)
     then (Inl (Failed (InvalidReconfiguration ''membership changes require an exact committed anchor and a drained pipeline'')), rt)
     else
       sbind (flush_decision_notifications host rt) (\<lambda>_ rt.
       sbind (lift_err (ensure_fully_announced rt (dec_slot (ch_anchor change))), rt) (\<lambda>_ rt.
       sbind (lift_err (validate_recorders_for_cluster (ch_next change) next_recorders), rt) (\<lambda>_ rt.
       sbind (install_at host change next_recorders rt) (\<lambda>_ rt.
       activate_membership host rt change next_recorders)))))"

end
