(* ===== verification/QP_World.thy ===== *)
theory QP_World
  imports QP_Runtime
begin

text \<open>
  The invariant of the replica runtime and what the world around it observes. The locale
  \<open>runtime_world\<close> states what a host promises about executing, storing and announcing; inside it every
  operation of \<open>QP_Runtime\<close> is shown to keep the invariant, on success and on every failure.
\<close>

section \<open>The invariant\<close>

definition logged_decision :: "'v ReplicaCore \<Rightarrow> SlotIndex \<Rightarrow> 'v Decision option" where
  "logged_decision rl s = (if rl_checkpointed_through rl < s then Option.bind (bt_get (rl_log rl) s) ls_decision else None)"

definition open_proposal :: "'v ReplicaCore \<Rightarrow> SlotIndex \<Rightarrow> 'v list option" where
  "open_proposal rl s =
     (case bt_get (rl_log rl) s of
        None \<Rightarrow> None
      | Some e \<Rightarrow> if ls_decision e = None \<and> ls_proposed e \<noteq> [] then Some (ls_proposed e) else None)"

definition decisions_ok :: "('v, 'g, 'w) ReplicaRuntime \<Rightarrow> bool" where
  "decisions_ok rt =
     (bt_wf (rt_decisions rt) \<and> (\<forall>s. bt_get (rt_decisions rt) s = logged_decision (rt_replica rt) s)
      \<and> (\<forall>s d. bt_get (rt_decisions rt) s = Some d \<longrightarrow> dec_value_ids d \<noteq> [] \<and> distinct (dec_value_ids d)))"

definition pending_ok :: "('v, 'g, 'w) ReplicaRuntime \<Rightarrow> bool" where
  "pending_ok rt =
     (bt_wf (rt_pending rt) \<and> (\<forall>s. map_option pp_value_ids (bt_get (rt_pending rt) s) = open_proposal (rt_replica rt) s)
      \<and> (\<forall>s p. bt_get (rt_pending rt) s = Some p \<longrightarrow> rl_next_commit (rt_replica rt) \<le> s))"

definition announced_ok :: "('v, 'g, 'w) ReplicaRuntime \<Rightarrow> bool" where
  "announced_ok rt =
     (bt_wf (rt_announced_to rt) \<and> (\<forall>s a. bt_get (rt_announced_to rt) s = Some a \<longrightarrow>
        bt_get (rt_decisions rt) s \<noteq> None \<and> a \<subseteq> set (rrc_members (rt_config rt))))"

definition tuner_ok :: "ReplicaRuntimeConfig \<Rightarrow> EpochTuner \<Rightarrow> bool" where
  "tuner_ok c t =
     (tuner_inv t \<and> et_members t = rrc_members c \<and> et_auto t = rrc_auto_schedules c \<and> et_epoch_size t = max (rrc_epoch_size c) 1
      \<and> (\<forall>k s. \<not> et_auto t \<and> bt_get (et_schedules t) k = Some s \<longrightarrow> distinct (es_proposers s) \<and> set (es_proposers s) = set (rrc_members c)))"

definition recorders_ok :: "('v, 'g, 'w) ReplicaRuntime \<Rightarrow> bool" where
  "recorders_ok rt = (distinct (rt_recorders rt) \<and> set (rt_recorders rt) = set (rrc_members (rt_config rt)))"

definition rt_inv :: "('v, 'g, 'w) ReplicaRuntime \<Rightarrow> bool" where
  "rt_inv rt =
     (replica_inv (rt_replica rt) \<and> rl_config (rt_replica rt) = rrc_replica (rt_config rt)
      \<and> decisions_ok rt \<and> pending_ok rt \<and> announced_ok rt \<and> recorders_ok rt \<and> tuner_ok (rt_config rt) (rt_tuner rt)
      \<and> rt_notified rt \<subseteq> rt_executed rt)"

text \<open>The executed slots are those above the checkpoint up to some slot of the committed prefix.\<close>

definition executed_upto :: "('v, 'g, 'w) ReplicaRuntime \<Rightarrow> SlotIndex \<Rightarrow> bool" where
  "executed_upto rt f =
     (rt_executed rt = {s. rl_checkpointed_through (rt_replica rt) < s \<and> s \<le> f}
      \<and> rl_checkpointed_through (rt_replica rt) \<le> f \<and> f < rl_next_commit (rt_replica rt))"

lemmas rt_inv_parts = rt_inv_def decisions_ok_def pending_ok_def announced_ok_def recorders_ok_def

lemma rt_invD:
  assumes "rt_inv rt"
  shows "replica_inv (rt_replica rt)" "rl_config (rt_replica rt) = rrc_replica (rt_config rt)"
    "decisions_ok rt" "pending_ok rt" "announced_ok rt" "recorders_ok rt" "tuner_ok (rt_config rt) (rt_tuner rt)"
    "rt_notified rt \<subseteq> rt_executed rt"
  using assms by (simp_all add: rt_inv_def)

lemma replica_inv_log: "replica_inv rl \<Longrightarrow> log_ok (rl_seen rl) (rl_checkpointed_through rl) (rl_next_commit rl) (rl_log rl)"
  by (simp add: replica_inv_def)

lemma logged_decision_committed:
  assumes "replica_inv rl" and "rl_checkpointed_through rl < s" and "s < rl_next_commit rl"
  shows "\<exists>d. logged_decision rl s = Some d \<and> dec_slot d = s"
proof -
  obtain e where e: "bt_get (rl_log rl) s = Some e" "ls_decision e \<noteq> None"
    using log_okD(3) [OF replica_inv_log [OF assms(1)] assms(2,3)] by blast
  then show ?thesis using log_okD(6) [OF replica_inv_log [OF assms(1)] e(1)] assms(2) by (auto simp: logged_decision_def)
qed

lemma logged_decision_slot: "replica_inv rl \<Longrightarrow> logged_decision rl s = Some d \<Longrightarrow> dec_slot d = s"
  using log_okD(6) [OF replica_inv_log] by (fastforce simp: logged_decision_def bind_eq_Some_conv split: if_splits)

section \<open>The replica under the runtime\<close>

definition same_frontier :: "'v ReplicaCore \<Rightarrow> 'v ReplicaCore \<Rightarrow> bool" where
  "same_frontier rl rl' =
     (rl_checkpointed_through rl' = rl_checkpointed_through rl \<and> rl_next_commit rl' = rl_next_commit rl \<and> rl_config rl' = rl_config rl)"

lemma views_pending:
  "logged_decision (rl\<lparr>rl_pending := p\<rparr>) = logged_decision rl" "open_proposal (rl\<lparr>rl_pending := p\<rparr>) = open_proposal rl"
  "same_frontier rl (rl\<lparr>rl_pending := p\<rparr>)"
  by (auto simp: logged_decision_def open_proposal_def same_frontier_def)

lemma enqueue_views:
  assumes "enqueue rl vs = (r, rl')"
  shows "logged_decision rl' = logged_decision rl \<and> open_proposal rl' = open_proposal rl \<and> same_frontier rl rl'"
proof -
  have "same_frontier rl rl'" "rl_log rl' = rl_log rl"
    using assms by (auto simp: enqueue_def same_frontier_def Let_def split: if_splits)
  then show ?thesis by (auto simp: logged_decision_def open_proposal_def same_frontier_def)
qed

lemma note_proposed_views:
  assumes "note_proposed rl slot vs = (Inr (), rl')" and "slot_is_open (rl_log rl) slot"
  shows "logged_decision rl' = logged_decision rl \<and> open_proposal rl' = (open_proposal rl)(slot \<mapsto> vs) \<and> same_frontier rl rl'"
  using assms(1)
proof (cases rule: note_proposed_cases)
  case noted
  then show ?thesis using assms(2)
    by (auto simp: logged_decision_def open_proposal_def slot_is_open_def log_slot_default_def same_frontier_def fun_eq_iff
        split: option.splits)
qed simp

lemma next_proposal_views:
  assumes "next_proposal rl = (Inr (Some (slot, vs)), rl')"
  shows "logged_decision rl' = logged_decision rl \<and> open_proposal rl' = (open_proposal rl)(slot \<mapsto> vs) \<and> same_frontier rl rl'
    \<and> rl_next_commit rl \<le> slot"
  using assms
proof (cases rule: next_proposal_cases)
  case (tried s n x)
  let ?rl = "rl\<lparr>rl_pending := drop n (rl_pending rl)\<rparr>"
  have x: "x = Inr ()" "s = slot" "take n (rl_pending rl) = vs" using tried by (auto split: sum.splits)
  have o: "rl_next_commit rl \<le> slot" "slot_is_open (rl_log ?rl) slot" using next_open_slot_spec [OF tried(4)] x(2) by auto
  have "note_proposed ?rl slot vs = (Inr (), rl')" using tried x by simp
  from note_proposed_views [OF this o(2)] o(1) show ?thesis using views_pending [where rl = rl and p = "drop n (rl_pending rl)"] by (auto simp: same_frontier_def)
qed auto

lemma next_proposal_none_views:
  assumes "next_proposal rl = (r, rl')" and "\<And>x. r \<noteq> Inr (Some x)"
  shows "logged_decision rl' = logged_decision rl \<and> open_proposal rl' = open_proposal rl \<and> same_frontier rl rl'"
  using assms(1)
proof (cases rule: next_proposal_cases)
  case (tried slot n x)
  then obtain e where "x = Inl e" using assms(2) by (cases x) auto
  then have "rl' = rl\<lparr>rl_pending := drop n (rl_pending rl)\<rparr>" using tried by (auto elim: note_proposed_cases)
  then show ?thesis using views_pending [where rl = rl] by simp
qed (auto simp: same_frontier_def)

lemma same_but_committed_views:
  assumes "same_but_committed rl rl'"
  shows "logged_decision rl' = logged_decision rl \<and> open_proposal rl' = open_proposal rl
    \<and> rl_checkpointed_through rl' = rl_checkpointed_through rl \<and> rl_config rl' = rl_config rl"
proof -
  have d: "map_option ls_decision (bt_get (rl_log rl') s) = map_option ls_decision (bt_get (rl_log rl) s)"
    and u: "bt_get (rl_log rl) s = Some e \<Longrightarrow> ls_decision e = None \<Longrightarrow> bt_get (rl_log rl') s = Some e"
    and c: "rl_checkpointed_through rl' = rl_checkpointed_through rl" "rl_config rl' = rl_config rl" for s e
    using assms by (auto simp: same_but_committed_def)
  have "Option.bind (bt_get (rl_log rl') s) ls_decision = Option.bind (bt_get (rl_log rl) s) ls_decision" for s
    using d [of s] by (cases "bt_get (rl_log rl) s"; cases "bt_get (rl_log rl') s") auto
  moreover have "open_proposal rl' s = open_proposal rl s" for s
    using d [of s] u [of s] by (cases "bt_get (rl_log rl) s"; cases "bt_get (rl_log rl') s") (auto simp: open_proposal_def)
  ultimately show ?thesis using c by (auto simp: logged_decision_def)
qed

lemma apply_decision_views:
  assumes inv: "replica_inv rl" and a: "apply_decision rl d = (r, rl')" and "dec_slot d \<noteq> u64_max"
    and fresh: "logged_decision rl (dec_slot d) = None" "rl_checkpointed_through rl < dec_slot d"
  shows "rl_config rl' = rl_config rl \<and> rl_checkpointed_through rl' = rl_checkpointed_through rl \<and> rl_next_commit rl \<le> rl_next_commit rl'
    \<and> (case r of
         Inr _ \<Rightarrow> logged_decision rl' = (logged_decision rl)(dec_slot d \<mapsto> d) \<and> open_proposal rl' = (open_proposal rl)(dec_slot d := None)
           \<and> dec_value_ids d \<noteq> [] \<and> distinct (dec_value_ids d)
       | Inl _ \<Rightarrow> rl' = rl)"
proof -
  have "bt_wf (rl_log rl)" using inv by (auto simp: replica_inv_def dest: log_okD(1))
  from a this show ?thesis
  proof (cases rule: apply_decision_cases)
    case (known e old)
    then show ?thesis using fresh by (simp add: logged_decision_def)
  next
    case new
    let ?ds = "decided_state rl d"
    have i: "replica_inv ?ds" by (rule decided_state_inv [OF inv assms(3) new(4,5,7)])
    obtain ds where k: "r = Inr ds" "same_but_committed ?ds rl'" "rl_next_commit ?ds \<le> rl_next_commit rl'"
      using commit_ready_ok [OF i, of "[]"] new(1) by auto
    have f: "rl_checkpointed_through ?ds = rl_checkpointed_through rl" "rl_next_commit ?ds = rl_next_commit rl" "rl_config ?ds = rl_config rl"
      by (simp_all add: decided_state_def Let_def)
    moreover have "logged_decision ?ds = (logged_decision rl)(dec_slot d \<mapsto> d)" "open_proposal ?ds = (open_proposal rl)(dec_slot d := None)"
      using fresh(2) by (auto simp: logged_decision_def open_proposal_def decided_state_def Let_def fun_eq_iff)
    ultimately show ?thesis using same_but_committed_views [OF k(2)] k(1,3) new(2,3) by simp
  qed simp
qed

lemma prune_views:
  assumes inv: "replica_inv rl" and "slot \<le> committed_through rl"
  defines "rl' \<equiv> replica_prune_through rl slot"
  shows "rl_checkpointed_through rl' = max slot (rl_checkpointed_through rl) \<and> rl_next_commit rl' = rl_next_commit rl
    \<and> rl_config rl' = rl_config rl \<and> (\<forall>s. logged_decision rl' s = (if slot < s then logged_decision rl s else None))
    \<and> open_proposal rl' = open_proposal rl"
proof -
  have w: "bt_wf (rl_log rl)" using inv by (auto simp: replica_inv_def dest: log_okD(1))
  have g: "bt_get (rl_log rl') s = (case bt_get (rl_log rl) s of Some e \<Rightarrow>
      if s = GENESIS \<or> s > max slot (rl_checkpointed_through rl) \<or> \<not> ls_committed e then Some e else None | None \<Rightarrow> None)" for s
    using assms(2) by (simp add: rl'_def replica_prune_through_def Let_def bt_get_retain [OF w] split: option.splits)
  have n: "ls_committed e \<Longrightarrow> s \<noteq> GENESIS \<Longrightarrow> ls_decision e \<noteq> None" if "bt_get (rl_log rl) s = Some e" for s e
    using log_okD(5) [OF replica_inv_log [OF inv] that] by blast
  have c: "rl_checkpointed_through rl' = max slot (rl_checkpointed_through rl)"
    using assms(2) by (simp add: rl'_def replica_prune_through_def Let_def)
  have "logged_decision rl' s = (if slot < s then logged_decision rl s else None)" for s
    by (auto simp: logged_decision_def c g split: option.splits)
  moreover have "open_proposal rl' s = open_proposal rl s" for s
    using n [of s] by (cases "bt_get (rl_log rl) s") (auto simp: open_proposal_def g)
  moreover have "rl_next_commit rl' = rl_next_commit rl \<and> rl_config rl' = rl_config rl"
    by (simp add: rl'_def replica_prune_through_def Let_def)
  ultimately show ?thesis using c by (simp add: fun_eq_iff)
qed

section \<open>The tuner under the runtime\<close>

lemma ensure_schedule_ok:
  assumes "tuner_ok c t" and "ensure_schedule t epoch = (r, t')"
  shows "tuner_ok c t' \<and> r \<noteq> Inl Panic \<and> (\<forall>s. r = Inr s \<longrightarrow> distinct (es_proposers s) \<and> set (es_proposers s) = set (rrc_members c))"
proof -
  have i: "tuner_inv t" "et_members t = rrc_members c" "distinct (et_members t)" "et_members t \<noteq> []"
    using assms(1) by (auto simp: tuner_ok_def tuner_inv_def members_ok_def)
  note k = ensure_schedule_inv [OF i(1) assms(2)]
  show ?thesis
  proof (cases "et_auto t")
    case True
    have "distinct (es_proposers s) \<and> set (es_proposers s) = set (rrc_members c)" if "r = Inr s" for s
      using k that True i mset_nonempty_distinct [of "es_proposers s" "et_members t"] by simp
    moreover have "tuner_ok c t'" using k assms(1) True by (simp add: tuner_ok_def)
    ultimately show ?thesis using k by blast
  next
    case False
    then have "t' = t" "\<And>s. r = Inr s \<Longrightarrow> bt_get (et_schedules t) epoch = Some s"
      using assms(2) by (auto simp: ensure_schedule_def split: option.splits)
    then show ?thesis using k assms(1) False by (auto simp: tuner_ok_def)
  qed
qed

lemma note_committed_ok:
  assumes "tuner_ok c t" and "note_committed t slot step = (r, t')"
  shows "tuner_ok c t'"
proof (cases "et_auto t")
  case True
  then show ?thesis using assms note_committed_inv [of t slot step r t'] by (auto simp: tuner_ok_def)
next
  case False
  then have "t' = t" using assms(2) by (simp add: note_committed_def)
  then show ?thesis using assms(1) by simp
qed

lemma tuner_install_ok:
  assumes "tuner_ok c t" and "tuner_install t s = (r, t')" and "rt_validate_schedule c s = Inr ()"
  shows "tuner_ok c t'"
proof -
  have "distinct (es_proposers s)" "set (es_proposers s) = set (rrc_members c)"
    using assms(3) by (auto simp: rt_validate_schedule_def card_distinct split: if_splits)
  moreover have "t' = t \<or> \<not> et_auto t \<and> t' = t\<lparr>et_schedules := bt_insert (es_epoch s) s (et_schedules t)\<rparr>"
    using assms(2) by (auto simp: tuner_install_def split: if_splits option.splits)
  ultimately show ?thesis using assms(1) by (auto simp: tuner_ok_def tuner_inv_def split: if_splits)
qed

lemma is_successor_of_members:
  assumes "is_successor_of d c"
  shows "ci_members d \<noteq> [] \<and> distinct (ci_members d)"
proof -
  have "is_well_formed d" using assms by (auto simp: is_successor_of_def split: if_splits)
  then have "members_are_normalized (ci_members d)" by (simp add: is_well_formed_def split: if_splits)
  then show ?thesis using members_are_normalized_distinct by (auto simp: members_are_normalized_iff)
qed

lemma tuner_reconfigure_ok:
  assumes "tuner_ok c t" and "members_ok (ci_members cluster)"
  shows "tuner_ok (rrc_install_cluster c cluster) (tuner_reconfigure t (ci_members cluster) slot)"
  using assms by (auto simp: tuner_ok_def tuner_reconfigure_def tuner_inv_def rrc_install_cluster_def rrc_members_def)

section \<open>Frames\<close>

lemma rt_inv_irrelevant [simp]:
  "rt_inv (rt\<lparr>rt_world := w\<rparr>) = rt_inv rt" "rt_inv (rt\<lparr>rt_proposer := p\<rparr>) = rt_inv rt"
  "rt_inv (rt\<lparr>rt_hedge_delay := h\<rparr>) = rt_inv rt" "rt_inv (rt\<lparr>rt_noop_value := v\<rparr>) = rt_inv rt"
  "executed_upto (rt\<lparr>rt_world := w\<rparr>) = executed_upto rt" "executed_upto (rt\<lparr>rt_proposer := p\<rparr>) = executed_upto rt"
  "executed_upto (rt\<lparr>rt_hedge_delay := h\<rparr>) = executed_upto rt" "executed_upto (rt\<lparr>rt_noop_value := v\<rparr>) = executed_upto rt"
  "executed_upto (rt\<lparr>rt_announced_to := a\<rparr>) = executed_upto rt" "executed_upto (rt\<lparr>rt_tuner := t\<rparr>) = executed_upto rt"
  "executed_upto (rt\<lparr>rt_pending := q\<rparr>) = executed_upto rt" "executed_upto (rt\<lparr>rt_notified := n\<rparr>) = executed_upto rt"
  "executed_upto (rt\<lparr>rt_decisions := ds\<rparr>) = executed_upto rt"
  by (auto simp: rt_inv_parts executed_upto_def fun_eq_iff)

lemma runtime_snapshot_irrelevant [simp]:
  "runtime_snapshot (rt\<lparr>rt_world := w\<rparr>) = runtime_snapshot rt"
  by (simp add: runtime_snapshot_def)

lemma rt_inv_tuner: "rt_inv rt \<Longrightarrow> tuner_ok (rt_config rt) t \<Longrightarrow> rt_inv (rt\<lparr>rt_tuner := t\<rparr>)"
  by (auto simp: rt_inv_parts)

lemma rt_inv_replica:
  assumes "rt_inv rt" and "replica_inv rl" and "logged_decision rl = logged_decision (rt_replica rt)"
    and "open_proposal rl = open_proposal (rt_replica rt)" and "same_frontier (rt_replica rt) rl"
  shows "rt_inv (rt\<lparr>rt_replica := rl\<rparr>) \<and> executed_upto (rt\<lparr>rt_replica := rl\<rparr>) = executed_upto rt"
  using assms by (auto simp: rt_inv_parts executed_upto_def same_frontier_def fun_eq_iff)

lemma rt_inv_proposed:
  assumes "rt_inv rt" and "replica_inv rl" and "logged_decision rl = logged_decision (rt_replica rt)"
    and "open_proposal rl = (open_proposal (rt_replica rt))(slot \<mapsto> vs)" and "same_frontier (rt_replica rt) rl"
    and "rl_next_commit (rt_replica rt) \<le> slot"
  shows "rt_inv (rt\<lparr>rt_replica := rl, rt_pending := bt_insert slot (unarmed vs) (rt_pending rt)\<rparr>)
    \<and> executed_upto (rt\<lparr>rt_replica := rl, rt_pending := bt_insert slot (unarmed vs) (rt_pending rt)\<rparr>) = executed_upto rt"
  using assms by (auto simp: rt_inv_parts executed_upto_def same_frontier_def fun_eq_iff unarmed_def)

lemma rt_inv_pending_clock:
  assumes "rt_inv rt" and "\<And>p. pp_value_ids (g p) = pp_value_ids p"
  shows "rt_inv (rt\<lparr>rt_pending := bt_modify slot g (rt_pending rt)\<rparr>)"
proof -
  have "map_option pp_value_ids (bt_get (bt_modify slot g (rt_pending rt)) s) = map_option pp_value_ids (bt_get (rt_pending rt) s)" for s
    by (simp add: option.map_comp comp_def assms(2))
  moreover have "bt_get (bt_modify slot g (rt_pending rt)) s = None \<longleftrightarrow> bt_get (rt_pending rt) s = None" for s by auto
  ultimately show ?thesis using assms(1) unfolding rt_inv_parts by (simp; metis option.exhaust)
qed

section \<open>What the host promises\<close>

text \<open>
  Three observations of a world: the decisions the state machine reported as executed, in order, the
  snapshot the state store holds, and which recorder acknowledged which decision. The laws say which
  call may change which of them; a failed save may have stored the old or the new snapshot.
\<close>

record ('v, 'w) observer =
  ob_log :: "'w \<Rightarrow> 'v Decision list"
  ob_stored :: "'w \<Rightarrow> 'v RuntimeSnapshot option"
  ob_acked :: "'w \<Rightarrow> (ReplicaId \<times> 'v Decision) set"

definition observed_same :: "('v, 'w) observer \<Rightarrow> 'w \<Rightarrow> 'w \<Rightarrow> bool" where
  "observed_same ob w w' =
     (ob_log ob w' = ob_log ob w \<and> ob_stored ob w' = ob_stored ob w \<and> ob_acked ob w \<subseteq> ob_acked ob w')"

locale runtime_world =
  fixes host :: "('v, 'g, 'w) host" and ob :: "('v, 'w) observer"
  assumes load_law: "h_load host w = (loaded, w') \<Longrightarrow> observed_same ob w w' \<and> (\<forall>x. loaded = Inr x \<longrightarrow> x = ob_stored ob w)"
    and save_law: "h_save host snap w = (r, w') \<Longrightarrow>
      ob_log ob w' = ob_log ob w \<and> ob_acked ob w \<subseteq> ob_acked ob w'
      \<and> (ob_stored ob w' = Some snap \<or> \<not> is_ok r \<and> ob_stored ob w' = ob_stored ob w)"
    and execute_law: "h_execute host d w = (r, w') \<Longrightarrow>
      ob_log ob w' = ob_log ob w @ (if is_ok r then [d] else []) \<and> ob_stored ob w' = ob_stored ob w \<and> ob_acked ob w \<subseteq> ob_acked ob w'"
    and inform_law: "h_inform host m d w = (r, w') \<Longrightarrow>
      observed_same ob w w' \<and> (is_ok r \<longrightarrow> (m, d) \<in> ob_acked ob w')"
    and export_law: "h_export host slot w = (b, w') \<Longrightarrow> observed_same ob w w'"
    and import_law: "h_import host slot bytes w = (r, w') \<Longrightarrow> observed_same ob w w'"
    and committed_law: "h_committed host d w = (r, w') \<Longrightarrow> observed_same ob w w'"
    and status_law: "h_status host m slot w = (st, w') \<Longrightarrow> observed_same ob w w'"
    and install_law: "h_install host m change w = (r, w') \<Longrightarrow> observed_same ob w w'"
    and phases_law: "h_phases host slot w = (ph, w') \<Longrightarrow> observed_same ob w w'"

text \<open>Slots are executed without a gap: none is more than one above the highest executed before it.\<close>

definition highest :: "SlotIndex list \<Rightarrow> nat" where
  "highest slots = foldl max 0 (map unat slots)"

fun gapless_from :: "nat \<Rightarrow> SlotIndex list \<Rightarrow> bool" where
  "gapless_from h [] = True"
| "gapless_from h (s # slots) = (0 < unat s \<and> unat s \<le> Suc h \<and> gapless_from (max h (unat s)) slots)"

lemma gapless_snoc: "gapless_from h (slots @ [s]) \<longleftrightarrow> gapless_from h slots \<and> 0 < unat s \<and> unat s \<le> Suc (foldl max h (map unat slots))"
  by (induction slots arbitrary: h) auto

lemma highest_snoc: "highest (slots @ [s]) = max (highest slots) (unat s)"
  by (simp add: highest_def)

text \<open>
  A runtime state whose execution frontier is \<open>f\<close>, as far as the world \<open>w\<close> is concerned: its decisions
  are among \<open>S\<close>, its slots up to \<open>f\<close> were executed, and its announcements were acknowledged.
\<close>

definition same_settings :: "ReplicaRuntimeConfig \<Rightarrow> ReplicaRuntimeConfig \<Rightarrow> bool" where
  "same_settings c c' = (c' = c\<lparr>rrc_cluster := rrc_cluster c'\<rparr>)"

definition backed :: "('v, 'w) observer \<Rightarrow> 'v Decision set \<Rightarrow> ReplicaRuntimeConfig \<Rightarrow> 'w \<Rightarrow> ('v, 'g, 'w) ReplicaRuntime \<Rightarrow> SlotIndex \<Rightarrow> bool" where
  "backed ob S c w rt f =
     (rt_inv rt \<and> executed_upto rt f \<and> same_settings c (rt_config rt)
      \<and> unat f \<le> highest (map dec_slot (ob_log ob w))
      \<and> (\<forall>s d. bt_get (rt_decisions rt) s = Some d \<longrightarrow> d \<in> S
           \<and> (\<forall>a m. bt_get (rt_announced_to rt) s = Some a \<and> m \<in> a \<longrightarrow> (m, d) \<in> ob_acked ob w)))"

definition history_ok :: "'v Decision set \<Rightarrow> bool \<Rightarrow> SlotIndex \<Rightarrow> 'v Decision list \<Rightarrow> bool" where
  "history_ok S exact f log =
     (gapless_from 0 (map dec_slot log) \<and> set log \<subseteq> S \<and> (exact \<longrightarrow> map (unat \<circ> dec_slot) log = [1..<Suc (unat f)]))"

definition stored_ok :: "('v, 'w) observer \<Rightarrow> 'v Decision set \<Rightarrow> ReplicaRuntimeConfig \<Rightarrow> ('v, 'g, 'w) ReplicaRuntime \<Rightarrow> bool" where
  "stored_ok ob S c rt =
     (\<forall>snap. ob_stored ob (rt_world rt) = Some snap \<longrightarrow>
        (\<exists>(rt0 :: ('v, 'g, 'w) ReplicaRuntime) f0. backed ob S c (rt_world rt) rt0 f0 \<and> runtime_snapshot rt0 = snap))"

definition world_ok :: "('v, 'w) observer \<Rightarrow> 'v Decision set \<Rightarrow> ReplicaRuntimeConfig \<Rightarrow> bool \<Rightarrow> ('v, 'g, 'w) ReplicaRuntime \<Rightarrow> SlotIndex \<Rightarrow> bool" where
  "world_ok ob S c exact rt f =
     (backed ob S c (rt_world rt) rt f \<and> history_ok S exact f (ob_log ob (rt_world rt)) \<and> stored_ok ob S c rt)"

lemma same_settings_install: "same_settings c c' \<Longrightarrow> same_settings c (rrc_install_cluster c' cluster)"
  by (cases c; cases c') (simp add: same_settings_def rrc_install_cluster_def)

lemma backed_mono:
  assumes "backed ob S c w rt f" and "ob_acked ob w \<subseteq> ob_acked ob w'"
    and "highest (map dec_slot (ob_log ob w)) \<le> highest (map dec_slot (ob_log ob w'))"
  shows "backed ob S c w' rt f"
  using assms unfolding backed_def by fastforce

lemma backed_irrelevant [simp]:
  "backed ob S c w (rt\<lparr>rt_world := w'\<rparr>) f = backed ob S c w rt f" "backed ob S c w (rt\<lparr>rt_proposer := p\<rparr>) f = backed ob S c w rt f"
  "backed ob S c w (rt\<lparr>rt_hedge_delay := h\<rparr>) f = backed ob S c w rt f" "backed ob S c w (rt\<lparr>rt_noop_value := v\<rparr>) f = backed ob S c w rt f"
  by (simp_all add: backed_def)

text \<open>A change of the runtime that the world does not see.\<close>

lemma stored_ok_change:
  fixes rt rt' :: "('v, 'g, 'w) ReplicaRuntime"
  shows "rt_world rt' = rt_world rt \<Longrightarrow> stored_ok ob S c rt' = stored_ok ob S c rt"
  by (simp add: stored_ok_def)

lemma world_ok_change:
  fixes rt rt' :: "('v, 'g, 'w) ReplicaRuntime"
  assumes "world_ok ob S c exact rt f" and "rt_world rt' = rt_world rt" and "backed ob S c (rt_world rt) rt' f"
  shows "world_ok ob S c exact rt' f"
  using assms stored_ok_change [OF assms(2)] by (simp add: world_ok_def)

lemma backed_change:
  assumes "backed ob S c w rt f" and "rt_inv rt'" and "executed_upto rt' f" and "rt_config rt' = rt_config rt"
    and "rt_decisions rt' = rt_decisions rt" and "rt_announced_to rt' = rt_announced_to rt"
  shows "backed ob S c w rt' f"
  unfolding backed_def assms(4-6) using assms(1) [unfolded backed_def] assms(2,3) by blast

lemma world_okD:
  assumes "world_ok ob S c exact rt f"
  shows "rt_inv rt" "executed_upto rt f" "backed ob S c (rt_world rt) rt f"
  using assms unfolding world_ok_def backed_def by blast+

lemma world_ok_inner:
  fixes rt rt' :: "('v, 'g, 'w) ReplicaRuntime"
  assumes "world_ok ob S c exact rt f" and "rt_inv rt'" and "executed_upto rt' f" and "rt_world rt' = rt_world rt" and "rt_config rt' = rt_config rt"
    and "rt_decisions rt' = rt_decisions rt" and "rt_announced_to rt' = rt_announced_to rt"
  shows "world_ok ob S c exact rt' f"
  using world_ok_change [OF assms(1,4) backed_change [OF world_okD(3) [OF assms(1)] assms(2,3,5,6,7)]] .

lemma stored_ok_step:
  fixes rt :: "('v, 'g, 'w) ReplicaRuntime"
  assumes "stored_ok ob S c rt" and "\<And>(r0 :: ('v, 'g, 'w) ReplicaRuntime) g. backed ob S c (rt_world rt) r0 g \<Longrightarrow> backed ob S c w r0 g"
    and "ob_stored ob w = ob_stored ob (rt_world rt) \<or> ob_stored ob w = Some (runtime_snapshot rt) \<and> backed ob S c w rt f"
  shows "stored_ok ob S c (rt\<lparr>rt_world := w\<rparr>)"
  using assms unfolding stored_ok_def by (auto; metis)

lemma world_ok_quiet:
  assumes "world_ok ob S c exact rt f" and "observed_same ob (rt_world rt) w"
  shows "world_ok ob S c exact (rt\<lparr>rt_world := w\<rparr>) f"
proof -
  have w: "ob_log ob w = ob_log ob (rt_world rt)" "ob_stored ob w = ob_stored ob (rt_world rt)" "ob_acked ob (rt_world rt) \<subseteq> ob_acked ob w"
    using assms(2) by (auto simp: observed_same_def)
  have m: "backed ob S c (rt_world rt) r0 g \<Longrightarrow> backed ob S c w r0 g" for r0 :: "('a, 'c, 'b) ReplicaRuntime" and g
    by (erule backed_mono) (auto simp: w)
  show ?thesis using assms(1) w(1) m [of rt f] stored_ok_step [OF _ m, of rt] w(2) unfolding world_ok_def by simp
qed

lemma announce_one:
  assumes ok: "world_ok ob S c exact rt f" and d: "bt_get (rt_decisions rt) slot = Some d"
    and m: "m \<in> set (rt_recorders rt)" "(m, d) \<in> ob_acked ob (rt_world rt)"
  shows "world_ok ob S c exact (rt\<lparr>rt_announced_to := bt_insert slot
      (insert m (case bt_get (rt_announced_to rt) slot of Some announced \<Rightarrow> announced | None \<Rightarrow> {})) (rt_announced_to rt)\<rparr>) f"
proof (rule world_ok_change [OF ok])
  let ?rt = "rt\<lparr>rt_announced_to := bt_insert slot
      (insert m (case bt_get (rt_announced_to rt) slot of Some announced \<Rightarrow> announced | None \<Rightarrow> {})) (rt_announced_to rt)\<rparr>"
  have i: "rt_inv rt" "announced_ok rt" "recorders_ok rt" using world_okD(1) [OF ok] by (simp_all add: rt_invD)
  have "announced_ok ?rt"
    using i(2,3) d m(1) by (auto simp: announced_ok_def recorders_ok_def split: option.splits)
  then have "rt_inv ?rt" using i(1) by (auto simp: rt_inv_def decisions_ok_def pending_ok_def recorders_ok_def)
  then show "backed ob S c (rt_world rt) ?rt f"
    using world_okD(3) [OF ok] d m(2) unfolding backed_def by (auto split: option.splits if_splits)
qed simp

lemma slot_range_ConsD:
  assumes "slot_range a b = s # slots"
  shows "s = a \<and> a < b \<and> slots = slot_range (a + 1) b \<and> unat (a + 1) = Suc (unat a)"
proof -
  have ab: "unat a < unat b" using assms by (cases "unat a < unat b") (auto simp: slot_range_def)
  moreover have b: "unat b < 2 ^ LENGTH(64)" by (rule unsigned_less)
  ultimately obtain a' where a': "slot_checked_next a = Some a'"
    by (cases "slot_checked_next a") (auto simp: slot_checked_next_None unat_u64_max)
  then have u: "unat a' = Suc (unat a)" by (simp add: slot_checked_next_Some)
  have eq: "a' = a + 1" using a' by (auto simp: slot_checked_next_def checked_add_def split: if_splits)
  have "slot_range a b = a # slot_range a' b" using slot_range_Cons [OF a'] u ab by (simp add: word_le_nat_alt)
  then show ?thesis using assms ab eq u by (simp add: word_less_nat_alt)
qed

lemma slot_range_sorted: "sorted_wrt (<) (slot_range a b)"
proof -
  have "unat b < 2 ^ LENGTH(64)" by (rule unsigned_less)
  then have "(of_nat i :: u64) < of_nat j" if "i < j" "j < unat b" for i j
    using that by (simp add: word_less_nat_alt unat_of_nat)
  then show ?thesis unfolding slot_range_def sorted_wrt_map by (intro sorted_wrt_mono_rel [OF _ sorted_wrt_upt]) auto
qed

lemma slot_range_unique:
  assumes "sorted_wrt (<) xs" and "set xs = set (slot_range a b)"
  shows "xs = slot_range a b"
  using strict_sorted_equal [of xs "slot_range a b"] assms slot_range_sorted [of a b] by blast

text \<open>The decisions \<open>dispatch_committed\<close> walks through are those of the slots between checkpoint and frontier.\<close>

lemma dispatched_slots:
  assumes inv: "rt_inv rt" and n: "slot_checked_next (rl_checkpointed_through (rt_replica rt)) = Some a"
  shows "map dec_slot (map snd (filter (\<lambda>(s, _). s \<le> committed_through (rt_replica rt)) (rt_decisions rt)))
    = slot_range a (rl_next_commit (rt_replica rt))"
proof (rule slot_range_unique)
  let ?rl = "rt_replica rt" and ?ds = "filter (\<lambda>(s, _). s \<le> committed_through (rt_replica rt)) (rt_decisions rt)"
  have i: "replica_inv ?rl" "bt_wf (rt_decisions rt)" "\<And>s. bt_get (rt_decisions rt) s = logged_decision ?rl s"
    using rt_invD(1,3) [OF inv] by (auto simp: decisions_ok_def)
  have k: "(s, d) \<in> set (rt_decisions rt) \<longleftrightarrow> logged_decision ?rl s = Some d" for s d
    using bt_get_mem [OF i(2)] i(3) by metis
  then have m: "map dec_slot (map snd ?ds) = map fst ?ds"
    using logged_decision_slot [OF i(1)] by (auto simp: comp_def)
  have "sorted_wrt (<) (map fst ?ds)" using bt_wf_filter [OF i(2)] by (simp add: bt_wf_def)
  then show "sorted_wrt (<) (map dec_slot (map snd ?ds))" unfolding m .
  have e: "s \<in> set (map fst ?ds) \<longleftrightarrow> rl_checkpointed_through ?rl < s \<and> s < rl_next_commit ?rl" for s
  proof -
    have "s \<in> set (map fst ?ds) \<longleftrightarrow> (\<exists>d. (s, d) \<in> set (rt_decisions rt)) \<and> s \<le> committed_through ?rl" by force
    also have "\<dots> \<longleftrightarrow> logged_decision ?rl s \<noteq> None \<and> s < rl_next_commit ?rl"
      using committed_through_less [OF i(1), of s] by (simp add: k)
    also have "\<dots> \<longleftrightarrow> rl_checkpointed_through ?rl < s \<and> s < rl_next_commit ?rl"
      using logged_decision_committed [OF i(1), of s] by (auto simp: logged_decision_def)
    finally show ?thesis .
  qed
  have g: "s \<in> set (slot_range a (rl_next_commit ?rl)) \<longleftrightarrow> rl_checkpointed_through ?rl < s \<and> s < rl_next_commit ?rl" for s
    using slot_next_le [OF n, of s] by (simp add: slot_range_mem word_le_nat_alt word_less_nat_alt)
  show "set (map dec_slot (map snd ?ds)) = set (slot_range a (rl_next_commit ?rl))"
    unfolding m by (simp only: set_eq_iff e g simp_thms)
qed

context runtime_world
begin

lemma persist_ok:
  assumes "world_ok ob S c exact rt f" and "persist host rt = (r, rt')"
  shows "world_ok ob S c exact rt' f \<and> (\<exists>w. rt' = rt\<lparr>rt_world := w\<rparr>)"
proof -
  obtain x w where x: "h_save host (runtime_snapshot rt) (rt_world rt) = (x, w)" "rt' = rt\<lparr>rt_world := w\<rparr>"
    using assms(2) by (auto simp: persist_def world_call_def split: prod.splits)
  note l = save_law [OF x(1)]
  have m: "backed ob S c (rt_world rt) r0 g \<Longrightarrow> backed ob S c w r0 g" for r0 :: "('v, 'g, 'w) ReplicaRuntime" and g
    by (erule backed_mono) (auto simp: l)
  have b: "backed ob S c w rt f" using assms(1) m unfolding world_ok_def by blast
  then have "stored_ok ob S c (rt\<lparr>rt_world := w\<rparr>)"
    using stored_ok_step [OF _ m, where f = f] l assms(1) unfolding world_ok_def by blast
  then show ?thesis using assms(1) b l unfolding world_ok_def x(2) by auto
qed

lemma quiet_call_ok:
  assumes "world_ok ob S c exact rt f" and "world_call g rt = (r, rt')"
    and "\<And>x w. g (rt_world rt) = (x, w) \<Longrightarrow> observed_same ob (rt_world rt) w"
  shows "world_ok ob S c exact rt' f \<and> (\<exists>w. rt' = rt\<lparr>rt_world := w\<rparr>)"
proof -
  obtain x w where x: "g (rt_world rt) = (x, w)" "rt' = rt\<lparr>rt_world := w\<rparr>"
    using assms(2) by (auto simp: world_call_def split: prod.splits)
  show ?thesis using world_ok_quiet [OF assms(1) assms(3) [OF x(1)]] x(2) by blast
qed

lemma announce_to_ok:
  assumes "world_ok ob S c exact rt f" and "bt_get (rt_decisions rt) slot = Some d" and "set rs \<subseteq> set (rt_recorders rt)"
    and "announce_to host slot d rs changed rt = (b, rt')"
  shows "world_ok ob S c exact rt' f \<and> (\<exists>a w. rt' = rt\<lparr>rt_announced_to := a, rt_world := w\<rparr>)"
  using assms
proof (induction rs arbitrary: rt changed)
  case Nil
  then have "rt' = rt\<lparr>rt_announced_to := rt_announced_to rt, rt_world := rt_world rt\<rparr>" by simp
  then show ?case using Nil by (metis announce_to.simps(1) prod.inject)
next
  case (Cons r rs)
  obtain x w where x: "h_inform host r d (rt_world rt) = (x, w)" by fastforce
  note l = inform_law [OF x]
  have q: "world_ok ob S c exact (rt\<lparr>rt_world := w\<rparr>) f" using world_ok_quiet [OF Cons.prems(1)] l by blast
  let ?a = "bt_insert slot (insert r (case bt_get (rt_announced_to rt) slot of Some announced \<Rightarrow> announced | None \<Rightarrow> {})) (rt_announced_to rt)"
  have one: "world_ok ob S c exact (rt\<lparr>rt_world := w, rt_announced_to := ?a\<rparr>) f" if "is_ok x"
    using announce_one [OF q, of slot d r] Cons.prems(2,3) l that by simp
  consider (known) "announce_to host slot d rs changed rt = (b, rt')"
    | (failed) "announce_to host slot d rs changed (rt\<lparr>rt_world := w\<rparr>) = (b, rt')"
    | (acked) "is_ok x" "announce_to host slot d rs True (rt\<lparr>rt_world := w, rt_announced_to := ?a\<rparr>) = (b, rt')"
    using Cons.prems(4) x by (auto simp: Let_def split: if_splits)
  then show ?case
  proof cases
    case known
    then show ?thesis using Cons.IH [of rt] Cons.prems by simp
  next
    case failed
    then show ?thesis using Cons.IH [OF q] Cons.prems(2,3) by fastforce
  next
    case acked
    then show ?thesis using Cons.IH [OF one] Cons.prems(2,3) by fastforce
  qed
qed

lemma announce_all_ok:
  assumes "world_ok ob S c exact rt f" and "\<forall>(s, d) \<in> set xs. bt_get (rt_decisions rt) s = Some d"
    and "announce_all host xs changed rt = (b, rt')"
  shows "world_ok ob S c exact rt' f \<and> (\<exists>a w. rt' = rt\<lparr>rt_announced_to := a, rt_world := w\<rparr>)"
  using assms
proof (induction xs arbitrary: rt changed)
  case Nil
  then have "rt' = rt\<lparr>rt_announced_to := rt_announced_to rt, rt_world := rt_world rt\<rparr>" by simp
  then show ?case using Nil by (metis announce_all.simps(1) prod.inject)
next
  case (Cons x xs)
  obtain s d where sd: "x = (s, d)" by fastforce
  obtain b1 rt1 where o: "announce_to host s d (rt_recorders rt) changed rt = (b1, rt1)" by fastforce
  have k: "world_ok ob S c exact rt1 f" and "\<exists>a w. rt1 = rt\<lparr>rt_announced_to := a, rt_world := w\<rparr>"
    using announce_to_ok [OF Cons.prems(1) _ _ o] Cons.prems(2) sd by auto
  then obtain a w where r: "rt1 = rt\<lparr>rt_announced_to := a, rt_world := w\<rparr>" by blast
  have "announce_all host xs b1 rt1 = (b, rt')" using Cons.prems(3) sd o by simp
  from Cons.IH [OF k _ this] Cons.prems(2) show ?case unfolding r by fastforce
qed

lemma flush_ok:
  assumes "world_ok ob S c exact rt f" and "flush_decision_notifications host rt = (r, rt')"
  shows "world_ok ob S c exact rt' f \<and> (\<exists>a w. rt' = rt\<lparr>rt_announced_to := a, rt_world := w\<rparr>)"
proof -
  obtain b rt1 where o: "announce_all host (rt_decisions rt) False rt = (b, rt1)" by fastforce
  have "bt_wf (rt_decisions rt)" using world_okD(1) [OF assms(1)] by (simp add: rt_inv_def decisions_ok_def)
  then have "\<forall>(s, d) \<in> set (rt_decisions rt). bt_get (rt_decisions rt) s = Some d" using bt_get_mem by fastforce
  from announce_all_ok [OF assms(1) this o] obtain a w where k: "world_ok ob S c exact rt1 f" "rt1 = rt\<lparr>rt_announced_to := a, rt_world := w\<rparr>"
    by blast
  show ?thesis
  proof (cases b)
    case True
    then have "persist host rt1 = (r, rt')" using assms(2) o by (simp add: flush_decision_notifications_def)
    from persist_ok [OF k(1) this] show ?thesis unfolding k(2) by fastforce
  next
    case False
    then show ?thesis using assms(2) o k by (auto simp: flush_decision_notifications_def)
  qed
qed

lemma tuner_call_ok:
  assumes "world_ok ob S c exact rt f" and "tuner_call g rt = (r, rt')"
    and "\<And>x t. g (rt_tuner rt) = (x, t) \<Longrightarrow> tuner_ok (rt_config rt) t"
  shows "world_ok ob S c exact rt' f \<and> (\<exists>t. rt' = rt\<lparr>rt_tuner := t\<rparr>)"
proof -
  obtain x t where x: "g (rt_tuner rt) = (x, t)" "rt' = rt\<lparr>rt_tuner := t\<rparr>"
    using assms(2) by (auto simp: tuner_call_def split: prod.splits)
  have "world_ok ob S c exact rt' f"
    by (rule world_ok_inner [OF assms(1)])
       (use rt_inv_tuner [OF world_okD(1) [OF assms(1)] assms(3) [OF x(1)]] world_okD(2) [OF assms(1)] in \<open>simp_all add: x(2)\<close>)
  then show ?thesis using x(2) by blast
qed

lemma note_stats_ok:
  assumes "world_ok ob S c exact rt f" and "note_stats ds changed rt = (r, rt')"
  shows "world_ok ob S c exact rt' f \<and> (\<exists>t. rt' = rt\<lparr>rt_tuner := t\<rparr>)"
  using assms
proof (induction ds arbitrary: rt changed)
  case Nil
  then show ?case by (auto intro!: exI [of _ "rt_tuner rt"])
next
  case (Cons d ds)
  obtain x rt1 where o: "tuner_call (\<lambda>t. note_committed t (dec_slot d) (dec_decided_step d)) rt = (x, rt1)" by fastforce
  have k: "world_ok ob S c exact rt1 f" "\<exists>t. rt1 = rt\<lparr>rt_tuner := t\<rparr>"
    using tuner_call_ok [OF Cons.prems(1) o] note_committed_ok rt_invD(7) [OF world_okD(1) [OF Cons.prems(1)]] by blast+
  show ?case
  proof (cases x)
    case (Inl e)
    then show ?thesis using Cons.prems(2) o k by auto
  next
    case (Inr b)
    then have "note_stats ds (changed \<or> b) rt1 = (r, rt')" using Cons.prems(2) o by simp
    from Cons.IH [OF k(1) this] show ?thesis using k(2) by fastforce
  qed
qed

lemma execute_step:
  fixes rt :: "('v, 'g, 'w) ReplicaRuntime"
  assumes ok: "world_ok ob S c exact rt f" and "d \<in> S" and next_slot: "unat (dec_slot d) = Suc (unat f)"
    and "dec_slot d < rl_next_commit (rt_replica rt)" and x: "h_execute host d (rt_world rt) = (Inr (), w)"
  shows "world_ok ob S c exact (rt\<lparr>rt_world := w, rt_executed := insert (dec_slot d) (rt_executed rt)\<rparr>) (dec_slot d)"
proof -
  let ?log = "ob_log ob (rt_world rt)" and ?rt = "rt\<lparr>rt_world := w, rt_executed := insert (dec_slot d) (rt_executed rt)\<rparr>"
  have l: "ob_log ob w = ?log @ [d]" "ob_stored ob w = ob_stored ob (rt_world rt)" "ob_acked ob (rt_world rt) \<subseteq> ob_acked ob w"
    using execute_law [OF x] by simp_all
  have m: "backed ob S c (rt_world rt) r0 g \<Longrightarrow> backed ob S c w r0 g" for r0 :: "('v, 'g, 'w) ReplicaRuntime" and g
    by (erule backed_mono) (auto simp: l highest_snoc)
  have h: "unat f \<le> highest (map dec_slot ?log)" using world_okD(3) [OF ok] by (simp add: backed_def)
  have "stored_ok ob S c rt" using ok by (simp add: world_ok_def)
  then have s: "stored_ok ob S c (rt\<lparr>rt_world := w\<rparr>)" by (rule stored_ok_step) (simp_all add: m l(2))
  have "s \<le> dec_slot d \<longleftrightarrow> s \<le> f \<or> s = dec_slot d" for s
    using next_slot by (auto simp: word_le_nat_alt word_unat_eq_iff)
  moreover have "rl_checkpointed_through (rt_replica rt) < dec_slot d"
    using world_okD(2) [OF ok] next_slot by (simp add: executed_upto_def word_le_nat_alt word_less_nat_alt)
  ultimately have "executed_upto ?rt (dec_slot d)"
    using world_okD(2) [OF ok] assms(4) by (auto simp: executed_upto_def intro: order.strict_implies_order)
  moreover have "rt_inv ?rt" using world_okD(1) [OF ok] by (auto simp: rt_inv_parts)
  ultimately have "backed ob S c w ?rt (dec_slot d)"
    using m [OF world_okD(3) [OF ok]] unfolding backed_def by (auto simp: l(1) highest_snoc)
  moreover have "history_ok S exact (dec_slot d) (ob_log ob w)"
    using ok h next_slot assms(2) unfolding world_ok_def history_ok_def by (auto simp: l(1) gapless_snoc highest_def)
  moreover have "stored_ok ob S c ?rt" using s by (simp add: stored_ok_def)
  ultimately show ?thesis by (simp add: world_ok_def)
qed

lemma execute_part:
  fixes rt :: "('v, 'g, 'w) ReplicaRuntime"
  assumes ok: "world_ok ob S c exact rt f" and "d \<in> S" and "dec_slot d < rl_next_commit (rt_replica rt)"
    and "rl_checkpointed_through (rt_replica rt) < dec_slot d" and le: "unat (dec_slot d) \<le> Suc (unat f)"
    and run: "(if dec_slot d \<in> rt_executed rt then (Inr (), rt)
      else sbind (world_call (h_execute host d) rt) (\<lambda>_ rt. persist host (rt\<lparr>rt_executed := insert (dec_slot d) (rt_executed rt)\<rparr>))) = (x, rt1)"
  shows "\<exists>f1. world_ok ob S c exact rt1 f1 \<and> (x = Inr () \<longrightarrow> unat (dec_slot d) \<le> unat f1)
    \<and> (\<exists>e w. rt1 = rt\<lparr>rt_executed := e, rt_world := w\<rparr>)"
proof (cases "dec_slot d \<in> rt_executed rt")
  case True
  then have "rt1 = rt\<lparr>rt_executed := rt_executed rt, rt_world := rt_world rt\<rparr>" "unat (dec_slot d) \<le> unat f"
    using run world_okD(2) [OF ok] by (auto simp: executed_upto_def word_le_nat_alt)
  then show ?thesis using ok run True by (metis prod.inject)
next
  case False
  then have n: "unat (dec_slot d) = Suc (unat f)"
    using world_okD(2) [OF ok] assms(4) le by (simp add: executed_upto_def word_le_nat_alt)
  obtain y w where y: "h_execute host d (rt_world rt) = (y, w)" by fastforce
  show ?thesis
  proof (cases y)
    case (Inl e)
    then have "observed_same ob (rt_world rt) w" using execute_law [OF y] by (simp add: observed_same_def)
    then have "world_ok ob S c exact (rt\<lparr>rt_world := w\<rparr>) f" by (rule world_ok_quiet [OF ok])
    moreover have "rt1 = rt\<lparr>rt_world := w\<rparr>" "x = Inl (Failed e)" using run False y Inl by (simp_all add: world_call_def)
    ultimately show ?thesis by (intro exI [of _ f]) (auto intro!: exI [of _ "rt_executed rt"])
  next
    case (Inr u)
    let ?rt = "rt\<lparr>rt_world := w, rt_executed := insert (dec_slot d) (rt_executed rt)\<rparr>"
    have s: "world_ok ob S c exact ?rt (dec_slot d)" using execute_step [OF ok assms(2) n assms(3)] y Inr by simp
    have "persist host ?rt = (x, rt1)" using run False y Inr by (simp add: world_call_def)
    from persist_ok [OF s this] obtain w' where "world_ok ob S c exact rt1 (dec_slot d)" "rt1 = ?rt\<lparr>rt_world := w'\<rparr>" by blast
    then show ?thesis by (intro exI [of _ "dec_slot d"]) auto
  qed
qed

lemma notify_part:
  assumes ok: "world_ok ob S c exact rt f" and "dec_slot d \<in> rt_executed rt"
    and run: "sbind (world_call (h_committed host d) rt) (\<lambda>_ rt. persist host (rt\<lparr>rt_notified := insert (dec_slot d) (rt_notified rt)\<rparr>)) = (x, rt1)"
  shows "world_ok ob S c exact rt1 f \<and> (\<exists>n w. rt1 = rt\<lparr>rt_notified := n, rt_world := w\<rparr>)"
proof -
  obtain y rt0 where y: "world_call (h_committed host d) rt = (y, rt0)" by fastforce
  then obtain w where k: "world_ok ob S c exact rt0 f" "rt0 = rt\<lparr>rt_world := w\<rparr>" using quiet_call_ok [OF ok y] committed_law by blast
  show ?thesis
  proof (cases y)
    case (Inl e)
    then show ?thesis using run y k by (auto intro!: exI [of _ "rt_notified rt"])
  next
    case (Inr u)
    let ?rt = "rt0\<lparr>rt_notified := insert (dec_slot d) (rt_notified rt0)\<rparr>"
    have "rt_inv ?rt" using world_okD(1) [OF k(1)] assms(2) by (auto simp: rt_inv_parts k(2))
    then have s: "world_ok ob S c exact ?rt f" using world_okD(2) [OF k(1)] by (intro world_ok_inner [OF k(1)]) simp_all
    have "persist host ?rt = (x, rt1)" using run y Inr by simp
    from persist_ok [OF s this] k(2) show ?thesis by auto
  qed
qed

lemma deliver_ok:
  fixes rt :: "('v, 'g, 'w) ReplicaRuntime"
  assumes "world_ok ob S c exact rt f" and "map dec_slot ds = slot_range a (rl_next_commit (rt_replica rt))"
    and "rl_checkpointed_through (rt_replica rt) < a" and "unat a \<le> Suc (unat f)" and "set ds \<subseteq> S"
    and "deliver host ds acc rt = (r, rt')"
  shows "(\<exists>f'. world_ok ob S c exact rt' f') \<and> (\<exists>e n w. rt' = rt\<lparr>rt_executed := e, rt_notified := n, rt_world := w\<rparr>)"
  using assms
proof (induction ds arbitrary: rt f a acc)
  case Nil
  then have "rt' = rt\<lparr>rt_executed := rt_executed rt, rt_notified := rt_notified rt, rt_world := rt_world rt\<rparr>" by simp
  then show ?case using Nil by (metis deliver.simps(1) prod.inject)
next
  case (Cons d ds)
  let ?nc = "rl_next_commit (rt_replica rt)"
  have a: "dec_slot d = a" "a < ?nc" "map dec_slot ds = slot_range (a + 1) ?nc" "unat (a + 1) = Suc (unat a)"
    using slot_range_ConsD [of a ?nc "dec_slot d" "map dec_slot ds"] Cons.prems(2) by auto
  obtain x rt1 where run: "(if dec_slot d \<in> rt_executed rt then (Inr (), rt)
      else sbind (world_call (h_execute host d) rt) (\<lambda>_ rt. persist host (rt\<lparr>rt_executed := insert (dec_slot d) (rt_executed rt)\<rparr>))) = (x, rt1)"
    by fastforce
  obtain f1 e1 w1 where k: "world_ok ob S c exact rt1 f1" "x = Inr () \<Longrightarrow> unat a \<le> unat f1" "rt1 = rt\<lparr>rt_executed := e1, rt_world := w1\<rparr>"
    using execute_part [OF Cons.prems(1) _ _ _ _ run] Cons.prems(3-5) a(1,2) by auto
  have ds: "set ds \<subseteq> S" "map dec_slot ds = slot_range (a + 1) (rl_next_commit (rt_replica rt1))" "rl_checkpointed_through (rt_replica rt1) < a + 1"
    using Cons.prems(3,5) a(3,4) by (simp_all add: k(3) word_less_nat_alt)
  show ?case
  proof (cases x)
    case (Inl e)
    then have "rt' = rt1" using Cons.prems(6) run by simp
    moreover have "rt1 = rt\<lparr>rt_executed := e1, rt_notified := rt_notified rt, rt_world := w1\<rparr>" by (simp add: k(3))
    ultimately show ?thesis using k(1) by blast
  next
    case (Inr u)
    then have f1: "unat (a + 1) \<le> Suc (unat f1)" using k(2) a(4) by simp
    show ?thesis
    proof (cases "dec_slot d \<in> rt_notified rt1")
      case True
      then have "deliver host ds acc rt1 = (r, rt')" using Cons.prems(6) run Inr by simp
      from Cons.IH [OF k(1) ds(2,3) f1 ds(1) this] show ?thesis unfolding k(3) by fastforce
    next
      case False
      obtain y rt2 where n: "sbind (world_call (h_committed host d) rt1) (\<lambda>_ rt. persist host (rt\<lparr>rt_notified := insert (dec_slot d) (rt_notified rt)\<rparr>)) = (y, rt2)"
        by fastforce
      have "dec_slot d \<in> rt_executed rt1"
        using world_okD(2) [OF k(1)] Inr k(2) Cons.prems(3) a(1) by (simp add: executed_upto_def k(3) word_le_nat_alt)
      from notify_part [OF k(1) this n] obtain n2 w2 where
        q: "world_ok ob S c exact rt2 f1" "rt2 = rt1\<lparr>rt_notified := n2, rt_world := w2\<rparr>" by blast
      have g: "deliver host (d # ds) acc rt = sbind (sbind (world_call (h_committed host d) rt1) (\<lambda>_ rt. persist host (rt\<lparr>rt_notified := insert (dec_slot d) (rt_notified rt)\<rparr>)))
          (\<lambda>_ rt. deliver host ds (acc @ [d]) rt)"
        using run Inr False by (auto simp: sbind_def split: prod.splits sum.splits)
      show ?thesis
      proof (cases y)
        case e2: (Inl e)
        then show ?thesis using Cons.prems(6) g n q k(3) by auto
      next
        case o2: (Inr v)
        then have "deliver host ds (acc @ [d]) rt2 = (r, rt')" using Cons.prems(6) g n by simp
        from Cons.IH [OF q(1) _ _ f1 ds(1) this] ds(2,3) q(2) show ?thesis unfolding k(3) by fastforce
      qed
    qed
  qed
qed

lemma dispatch_ok:
  fixes rt :: "('v, 'g, 'w) ReplicaRuntime"
  assumes ok: "world_ok ob S c exact rt f" and run: "dispatch_committed host rt = (r, rt')"
  shows "(\<exists>f'. world_ok ob S c exact rt' f')
    \<and> (\<exists>t e n w. rt' = rt\<lparr>rt_tuner := t, rt_executed := e, rt_notified := n, rt_world := w\<rparr>)"
proof -
  let ?ds = "map snd (filter (\<lambda>(s, _). s \<le> committed_through (rt_replica rt)) (rt_decisions rt))"
  have id: "rt\<lparr>rt_tuner := t, rt_world := w\<rparr> = rt\<lparr>rt_tuner := t, rt_executed := rt_executed rt, rt_notified := rt_notified rt, rt_world := w\<rparr>" for t w
    by simp
  obtain x rt1 where n: "note_stats ?ds False rt = (x, rt1)" by fastforce
  then obtain t where k: "world_ok ob S c exact rt1 f" "rt1 = rt\<lparr>rt_tuner := t\<rparr>" using note_stats_ok [OF ok n] by blast
  have r1: "rt1 = rt\<lparr>rt_tuner := t, rt_world := rt_world rt\<rparr>" by (simp add: k(2))
  show ?thesis
  proof (cases x)
    case (Inl e)
    then have "rt' = rt1" using run n by (simp add: dispatch_committed_def)
    then show ?thesis using k(1) trans [OF r1 id] by blast
  next
    case (Inr b)
    obtain y rt2 where p: "(if b then persist host rt1 else (Inr (), rt1)) = (y, rt2)" by fastforce
    obtain w where q: "world_ok ob S c exact rt2 f" "rt2 = rt\<lparr>rt_tuner := t, rt_world := w\<rparr>"
    proof (cases b)
      case True
      then have "persist host rt1 = (y, rt2)" using p by simp
      from persist_ok [OF k(1) this] obtain w where "world_ok ob S c exact rt2 f" "rt2 = rt1\<lparr>rt_world := w\<rparr>" by blast
      moreover from this(2) have "rt2 = rt\<lparr>rt_tuner := t, rt_world := w\<rparr>" by (simp only: k(2))
      ultimately show thesis by (intro that)
    next
      case False
      then have "rt2 = rt1" using p by simp
      then show thesis using that k(1) r1 by blast
    qed
    have g: "dispatch_committed host rt = sbind (y, rt2) (\<lambda>_ rt. deliver host ?ds [] rt)"
      using n Inr p by (simp add: dispatch_committed_def)
    show ?thesis
    proof (cases y)
      case (Inl e)
      then have "rt' = rt2" using run g by simp
      then show ?thesis using q(1) trans [OF q(2) id] by blast
    next
      case (Inr u)
      then have d: "deliver host ?ds [] rt2 = (r, rt')" using run g by simp
      have i: "rt_inv rt" "executed_upto rt f" using world_okD [OF ok] by auto
      have "rl_checkpointed_through (rt_replica rt) < rl_next_commit (rt_replica rt)"
        using replica_inv_log [OF rt_invD(1) [OF i(1)]] by (simp add: log_ok_def)
      then obtain a where a: "slot_checked_next (rl_checkpointed_through (rt_replica rt)) = Some a"
        by (cases "slot_checked_next (rl_checkpointed_through (rt_replica rt))") (auto simp: slot_checked_next_None)
      have m: "map dec_slot ?ds = slot_range a (rl_next_commit (rt_replica rt2))" using dispatched_slots [OF i(1) a] by (simp add: q(2))
      have b: "rl_checkpointed_through (rt_replica rt2) < a" "unat a \<le> Suc (unat f)"
        using a i(2) by (simp_all add: q(2) slot_checked_next_Some executed_upto_def word_le_nat_alt word_less_nat_alt)
      have "set ?ds \<subseteq> S"
        using world_okD(3) [OF ok] rt_invD(3) [OF i(1)] bt_get_mem [of "rt_decisions rt"] by (auto simp: backed_def decisions_ok_def)
      from deliver_ok [OF q(1) m b this d] obtain f' e n w' where
        "world_ok ob S c exact rt' f'" "rt' = rt2\<lparr>rt_executed := e, rt_notified := n, rt_world := w'\<rparr>" by blast
      then show ?thesis using q(2) by auto
    qed
  qed
qed

lemma replica_call_ok:
  assumes ok: "world_ok ob S c exact rt f" and "replica_call g rt = (r, rt')"
    and "\<And>x rl. g (rt_replica rt) = (x, rl) \<Longrightarrow> replica_inv rl \<and> logged_decision rl = logged_decision (rt_replica rt)
      \<and> open_proposal rl = open_proposal (rt_replica rt) \<and> same_frontier (rt_replica rt) rl"
  shows "world_ok ob S c exact rt' f"
proof -
  obtain x rl where x: "g (rt_replica rt) = (x, rl)" "rt' = rt\<lparr>rt_replica := rl\<rparr>"
    using assms(2) by (auto simp: replica_call_def split: prod.splits)
  have "rt_inv rt' \<and> executed_upto rt' = executed_upto rt"
    using rt_inv_replica [OF world_okD(1) [OF ok]] assms(3) [OF x(1)] unfolding x(2) by blast
  then show ?thesis using world_okD(2) [OF ok] by (intro world_ok_inner [OF ok]) (simp_all add: x(2))
qed

lemma submit_ok:
  assumes ok: "world_ok ob S c exact rt f" and run: "rt_submit host rt vs = (r, rt')"
  shows "world_ok ob S c exact rt' f"
proof -
  obtain x rt1 where x: "replica_call (\<lambda>rl. enqueue rl vs) rt = (x, rt1)" by fastforce
  have k: "world_ok ob S c exact rt1 f"
    using replica_call_ok [OF ok x] enqueue_views enqueue_inv rt_invD(1) [OF world_okD(1) [OF ok]] by blast
  show ?thesis
    using run x k persist_ok [OF k] by (cases x) (auto simp: rt_submit_def)
qed

lemma install_schedule_ok:
  assumes ok: "world_ok ob S c exact rt f" and run: "rt_install_epoch_schedule host rt s = (r, rt')"
  shows "world_ok ob S c exact rt' f"
proof (cases "rt_validate_schedule (rt_config rt) s")
  case (Inl e)
  then show ?thesis using ok run by (simp add: rt_install_epoch_schedule_def)
next
  case (Inr u)
  obtain x rt1 where x: "tuner_call (\<lambda>t. let (r, t) = tuner_install t s in (lift_err r, t)) rt = (x, rt1)" by fastforce
  have "tuner_ok (rt_config rt) t" if "(let (r, t) = tuner_install (rt_tuner rt) s in (lift_err r, t)) = (y, t)" for y :: "bool fallible" and t
    using that tuner_install_ok [OF rt_invD(7) [OF world_okD(1) [OF ok]], of s _ t] Inr by (auto split: prod.splits)
  then have k: "world_ok ob S c exact rt1 f" using tuner_call_ok [OF ok x] by blast
  show ?thesis
    using run x k persist_ok [OF k] Inr by (cases x) (auto simp: rt_install_epoch_schedule_def split: if_splits)
qed

lemma record_decision:
  assumes ok: "world_ok ob S c exact rt f" and d: "d \<in> S" "dec_slot d \<noteq> u64_max"
    and new: "bt_get (rt_decisions rt) (dec_slot d) = None" "rl_checkpointed_through (rt_replica rt) < dec_slot d"
    and a: "apply_decision (rt_replica rt) d = (Inr out, rl)"
  shows "world_ok ob S c exact (rt\<lparr>rt_replica := rl, rt_pending := bt_remove (dec_slot d) (rt_pending rt),
      rt_announced_to := bt_or_insert (dec_slot d) {} (rt_announced_to rt), rt_decisions := bt_insert (dec_slot d) d (rt_decisions rt)\<rparr>) f"
    (is "world_ok ob S c exact ?rt f")
proof (rule world_ok_change [OF ok])
  note i = rt_invD [OF world_okD(1) [OF ok]]
  have n: "logged_decision (rt_replica rt) (dec_slot d) = None" using i(3) new(1) by (simp add: decisions_ok_def)
  have v: "rl_config rl = rl_config (rt_replica rt)" "rl_checkpointed_through rl = rl_checkpointed_through (rt_replica rt)"
      "rl_next_commit (rt_replica rt) \<le> rl_next_commit rl" "logged_decision rl = (logged_decision (rt_replica rt))(dec_slot d \<mapsto> d)"
      "open_proposal rl = (open_proposal (rt_replica rt))(dec_slot d := None)" "dec_value_ids d \<noteq> []" "distinct (dec_value_ids d)"
    using apply_decision_views [OF i(1) a d(2) n new(2)] by simp_all
  have inv: "replica_inv rl" using apply_decision_inv [OF i(1) a d(2)] by blast
  have na: "bt_get (rt_announced_to rt) (dec_slot d) = None"
    using i(5) new(1) unfolding announced_ok_def by (metis option.exhaust)
  have "decisions_ok ?rt" using i(3) v by (auto simp: decisions_ok_def)
  moreover have "announced_ok ?rt" using i(5) na by (auto simp: announced_ok_def split: if_splits)
  moreover have "pending_ok ?rt"
  proof -
    have "rl_next_commit rl \<le> s" if p: "bt_get (bt_remove (dec_slot d) (rt_pending rt)) s = Some p" for s p
    proof (rule ccontr)
      assume l: "\<not> rl_next_commit rl \<le> s"
      have q: "bt_get (rt_pending rt) s = Some p" "s \<noteq> dec_slot d" using p by (auto split: if_splits)
      have "rl_next_commit (rt_replica rt) \<le> s" "open_proposal (rt_replica rt) s = Some (pp_value_ids p)"
        using i(4) q unfolding pending_ok_def by (auto dest: spec [of _ s])
      moreover have "rl_checkpointed_through rl < s"
        using replica_inv_log [OF i(1)] calculation(1) v(2) by (auto simp: log_ok_def)
      moreover have "\<exists>x. logged_decision rl s = Some x"
        using logged_decision_committed [OF inv calculation(3)] l by (auto simp: not_le)
      ultimately show False using q(2) v(4) by (auto simp: logged_decision_def open_proposal_def split: option.splits if_splits)
    qed
    then show ?thesis using i(4) v(5) by (auto simp: pending_ok_def)
  qed
  moreover have "recorders_ok ?rt" using i(6) by (simp add: recorders_ok_def)
  ultimately have "rt_inv ?rt" unfolding rt_inv_def using inv i(2,7,8) v(1) by simp
  moreover have "executed_upto ?rt f"
    using world_okD(2) [OF ok] v(2) order.strict_trans2 [OF _ v(3), of f] by (simp add: executed_upto_def)
  ultimately show "backed ob S c (rt_world rt) ?rt f"
    using world_okD(3) [OF ok] d(1) na unfolding backed_def by (auto split: if_splits)
qed simp

lemma recover_ok:
  fixes rt :: "('v, 'g, 'w) ReplicaRuntime"
  assumes ok: "world_ok ob S c exact rt f" and run: "rt_recover host rt = (r, rt')"
  shows "\<exists>f'. world_ok ob S c exact rt' f'"
proof -
  obtain y rt2 where y: "dispatch_committed host rt = (y, rt2)" by fastforce
  obtain f2 where k2: "world_ok ob S c exact rt2 f2" using dispatch_ok [OF ok y] by blast
  obtain z rt3 where z: "flush_decision_notifications host rt2 = (z, rt3)" by fastforce
  have "rt' = rt2 \<or> rt' = rt3" using run y z by (cases y; cases z) (auto simp: rt_recover_def)
  then show ?thesis using k2 flush_ok [OF k2 z] by blast
qed

lemma store_decision_ok:
  fixes rt :: "('v, 'g, 'w) ReplicaRuntime"
  assumes ok: "world_ok ob S c exact rt f" and d: "d \<in> S" "dec_slot d \<noteq> u64_max" and run: "store_decision host rt d = (r, rt')"
    and new: "rl_checkpointed_through (rt_replica rt) < dec_slot d"
  shows "world_ok ob S c exact rt' f"
proof (cases "bt_get (rt_decisions rt) (dec_slot d)")
  case (Some e)
  then show ?thesis using run ok by (auto simp: store_decision_def split: if_splits)
next
  case None
  obtain y rl where a: "apply_decision (rt_replica rt) d = (y, rl)" by fastforce
  note i = rt_invD [OF world_okD(1) [OF ok]]
  show ?thesis
  proof (cases y)
    case (Inl e)
    have "rl = rt_replica rt"
      using apply_decision_views [OF i(1) a d(2) _ new] i(3) None Inl by (simp add: decisions_ok_def)
    then show ?thesis using run ok None a Inl by (simp add: store_decision_def replica_call_def)
  next
    case (Inr out)
    show ?thesis
      using persist_ok [OF record_decision [OF ok d None new a [unfolded Inr]]] run None a Inr
      by (simp add: store_decision_def replica_call_def)
  qed
qed

lemma accept_decision_ok:
  fixes rt :: "('v, 'g, 'w) ReplicaRuntime"
  assumes ok: "world_ok ob S c exact rt f" and d: "d \<in> S" "dec_slot d \<noteq> u64_max" and run: "accept_decision host rt d = (r, rt')"
  shows "\<exists>f'. world_ok ob S c exact rt' f'"
proof (cases "is_ok (rt_validate_decision (rt_config rt) d) \<and> rl_checkpointed_through (rt_replica rt) < dec_slot d")
  case False
  then show ?thesis
    using run ok by (cases "rt_validate_decision (rt_config rt) d") (auto simp: accept_decision_def not_less)
next
  case True
  obtain x rt1 where x: "store_decision host rt d = (x, rt1)" by fastforce
  have k: "world_ok ob S c exact rt1 f" using store_decision_ok [OF ok d x] True by blast
  have run': "sbind (x, rt1) (\<lambda>_ rt. rt_recover host rt) = (r, rt')"
    using run x True by (cases "rt_validate_decision (rt_config rt) d") (auto simp: accept_decision_def rt_recover_def not_le [symmetric])
  show ?thesis
  proof (cases x)
    case (Inl e)
    then show ?thesis using run' k by auto
  next
    case (Inr u)
    then show ?thesis using run' recover_ok [OF k] by simp
  qed
qed

lemma arm_loop_ok:
  assumes "world_ok ob S c exact rt f" and "arm_loop changed rt = (r, rt')"
  shows "world_ok ob S c exact rt' f"
  using assms
proof (induction changed rt rule: arm_loop.induct)
  case (1 changed rt)
  note i = rt_invD [OF world_okD(1) [OF 1(2)]]
  obtain x rl where x: "next_proposal (rt_replica rt) = (x, rl)" by fastforce
  have inv: "replica_inv rl" by (rule next_proposal_inv [OF i(1) x])
  show ?case
  proof (cases "\<exists>slot vs. x = Inr (Some (slot, vs))")
    case True
    then obtain slot vs where sv: "x = Inr (Some (slot, vs))" by blast
    let ?rt = "rt\<lparr>rt_replica := rl, rt_pending := bt_insert slot (unarmed vs) (rt_pending rt)\<rparr>"
    have "rt_inv ?rt \<and> executed_upto ?rt = executed_upto rt"
      using rt_inv_proposed [OF world_okD(1) [OF 1(2)] inv] next_proposal_views [OF x [unfolded sv]] by blast
    then have "world_ok ob S c exact ?rt f" using world_okD(2) [OF 1(2)] by (intro world_ok_inner [OF 1(2)]) simp_all
    moreover have "arm_loop True ?rt = (r, rt')" using 1(3) x sv by (simp add: arm_loop.simps [of changed])
    ultimately show ?thesis using 1(1) x sv by fastforce
  next
    case False
    then have n: "\<And>y. x \<noteq> Inr (Some y)" by auto
    have "rt' = rt\<lparr>rt_replica := rl\<rparr>"
      using 1(3) x False by (cases x) (auto simp: arm_loop.simps [of changed] split: option.splits)
    moreover have "rt_inv (rt\<lparr>rt_replica := rl\<rparr>) \<and> executed_upto (rt\<lparr>rt_replica := rl\<rparr>) = executed_upto rt"
      using rt_inv_replica [OF world_okD(1) [OF 1(2)] inv] next_proposal_none_views [OF x n] by blast
    ultimately show ?thesis using world_okD(2) [OF 1(2)] by (intro world_ok_inner [OF 1(2)]) simp_all
  qed
qed

lemma gap_slot:
  assumes "replica_inv rl" and "slot_checked_next (committed_through rl) = Some gap"
  shows "gap = rl_next_commit rl"
proof -
  have "rl_checkpointed_through rl < rl_next_commit rl" using replica_inv_log [OF assms(1)] by (simp add: log_ok_def)
  then have "0 < unat (rl_next_commit rl)" unfolding word_less_nat_alt by linarith
  then have "unat gap = unat (rl_next_commit rl)"
    using assms(2) by (simp add: slot_checked_next_Some committed_through_def unat_saturating_sub)
  then show ?thesis by (simp add: word_unat_eq_iff)
qed

lemma arm_gap_ok:
  assumes ok: "world_ok ob S c exact rt f" and run: "arm_gap_noop rt = (r, rt')"
  shows "world_ok ob S c exact rt' f"
proof (cases "rt_replica rt' = rt_replica rt \<and> rt' = rt")
  case True
  then show ?thesis using ok by simp
next
  case False
  obtain noop where nv: "rt_noop_value rt = Some noop" using run False by (cases "rt_noop_value rt") (auto simp: arm_gap_noop_def)
  obtain gap where g: "slot_checked_next (committed_through (rt_replica rt)) = Some gap"
    using run False nv by (cases "slot_checked_next (committed_through (rt_replica rt))") (auto simp: arm_gap_noop_def split: if_splits)
  obtain x rl where x: "note_proposed (rt_replica rt) gap [noop] = (x, rl)" by fastforce
  have "slot_is_open (rl_log (rt_replica rt)) gap"
    and e: "(r, rt') = sbind (replica_call (\<lambda>rl. note_proposed rl gap [noop]) rt) (\<lambda>_ rt.
        (Inr True, rt\<lparr>rt_pending := bt_insert gap (unarmed [noop]) (rt_pending rt)\<rparr>))"
    using run False nv g by (auto simp: arm_gap_noop_def Let_def slot_is_open_def split: if_splits option.splits)
  note i = rt_invD [OF world_okD(1) [OF ok]]
  show ?thesis
  proof (cases x)
    case (Inl err)
    then have "rl = rt_replica rt" using x by (auto elim: note_proposed_cases)
    then show ?thesis using e x Inl ok by (simp add: replica_call_def)
  next
    case (Inr u)
    let ?rt = "rt\<lparr>rt_replica := rl, rt_pending := bt_insert gap (unarmed [noop]) (rt_pending rt)\<rparr>"
    have "rt' = ?rt" using e x Inr by (simp add: replica_call_def)
    moreover have "rt_inv ?rt \<and> executed_upto ?rt = executed_upto rt"
      using rt_inv_proposed [OF world_okD(1) [OF ok] note_proposed_inv [OF i(1) x]] note_proposed_views [of "rt_replica rt" gap "[noop]" rl]
        \<open>slot_is_open _ _\<close> gap_slot [OF i(1) g] x Inr by simp
    ultimately show ?thesis using world_okD(2) [OF ok] by (intro world_ok_inner [OF ok]) simp_all
  qed
qed

lemma ensure_schedule_for_ok:
  assumes ok: "world_ok ob S c exact rt f" and run: "ensure_schedule_for rt slot = (r, rt')"
  shows "world_ok ob S c exact rt' f"
  using tuner_call_ok [OF ok run [unfolded ensure_schedule_for_def]] ensure_schedule_ok rt_invD(7) [OF world_okD(1) [OF ok]] by blast

lemma collect_deadlines_ok:
  assumes "world_ok ob S c exact rt f" and "collect_deadlines now slots rt = (r, rt')"
  shows "world_ok ob S c exact rt' f"
  using assms
proof (induction slots arbitrary: rt r rt')
  case (Cons slot slots)
  obtain x rt1 where x: "ensure_schedule_for rt slot = (x, rt1)" by fastforce
  have k: "world_ok ob S c exact rt1 f" by (rule ensure_schedule_for_ok [OF Cons.prems(1) x])
  show ?case
  proof (cases "\<exists>s t. x = Inr s \<and> deadline_for rt1 s now = Inr t")
    case True
    obtain y rt2 where y: "collect_deadlines now slots rt1 = (y, rt2)" by fastforce
    show ?thesis using Cons.prems(2) x y True Cons.IH [OF k y] by (cases y) auto
  next
    case False
    then show ?thesis using Cons.prems(2) x k by (cases x; cases "deadline_for rt1 (projr x) now") auto
  qed
qed simp

lemma clock_ok:
  assumes ok: "world_ok ob S c exact rt f" and "\<And>p. pp_value_ids (g p) = pp_value_ids p"
  shows "world_ok ob S c exact (rt\<lparr>rt_pending := bt_modify slot g (rt_pending rt)\<rparr>) f"
  by (rule world_ok_inner [OF ok])
     (use rt_inv_pending_clock [OF world_okD(1) [OF ok] assms(2)] world_okD(2) [OF ok] in simp_all)

lemma clocks_ok:
  assumes "world_ok ob S c exact rt f"
  shows "world_ok ob S c exact (rt\<lparr>rt_pending := fold (\<lambda>(slot, deadline). bt_modify slot (pp_ready_at_update (\<lambda>_. Some deadline))) ds (rt_pending rt)\<rparr>) f"
  using assms
proof (induction ds arbitrary: rt)
  case (Cons x ds)
  from Cons.IH [OF clock_ok [OF Cons.prems, of "pp_ready_at_update (\<lambda>_. Some (snd x))" "fst x"]] show ?case
    by (simp add: case_prod_beta)
qed simp

lemma assign_deadlines_ok:
  assumes ok: "world_ok ob S c exact rt f" and run: "assign_deadlines rt now = (r, rt')"
  shows "world_ok ob S c exact rt' f"
proof -
  obtain x rt1 where x: "collect_deadlines now (map fst (filter (\<lambda>(_, p). pp_ready_at p = None) (rt_pending rt))) rt = (x, rt1)" by fastforce
  have k: "world_ok ob S c exact rt1 f" by (rule collect_deadlines_ok [OF ok x])
  show ?thesis using run x k clocks_ok [OF k] by (cases x) (auto simp: assign_deadlines_def)
qed

lemma arm_available_ok:
  assumes ok: "world_ok ob S c exact rt f" and run: "arm_available host rt now = (r, rt')"
  shows "world_ok ob S c exact rt' f"
proof -
  obtain x rt1 where x: "arm_loop False rt = (x, rt1)" by fastforce
  have k1: "world_ok ob S c exact rt1 f" by (rule arm_loop_ok [OF ok x])
  obtain y rt2 where y: "arm_gap_noop rt1 = (y, rt2)" by fastforce
  have k2: "world_ok ob S c exact rt2 f" by (rule arm_gap_ok [OF k1 y])
  obtain z rt3 where z: "(if x = Inr True \<or> y = Inr True then persist host rt2 else (Inr (), rt2)) = (z, rt3)" by fastforce
  have k3: "world_ok ob S c exact rt3 f" using z k2 persist_ok [OF k2] by (auto split: if_splits)
  obtain v rt4 where v: "assign_deadlines rt3 now = (v, rt4)" by fastforce
  have k4: "world_ok ob S c exact rt4 f" by (rule assign_deadlines_ok [OF k3 v])
  have "rt' \<in> {rt1, rt2, rt3, rt4}"
  proof (cases "is_ok x \<and> is_ok y")
    case True
    then obtain p q where pq: "x = Inr p" "y = Inr q" by (cases x; cases y) auto
    have "arm_available host rt now = sbind (z, rt3) (\<lambda>_ rt. sbind (assign_deadlines rt now) (\<lambda>_ rt. (Inr (length (rt_pending rt)), rt)))"
      using x y z pq by (simp add: arm_available_def)
    then show ?thesis using run v by (cases z; cases v) auto
  next
    case False
    then show ?thesis using run x y by (cases x; cases y) (auto simp: arm_available_def)
  qed
  then show ?thesis using k1 k2 k3 k4 by blast
qed

lemma probe_quiet:
  assumes "probe_recorders host slot rs h w = (h', w')"
  shows "observed_same ob w w'"
  using assms
proof (induction rs arbitrary: h w)
  case (Cons r rs)
  obtain x w1 where x: "h_status host r slot w = (x, w1)" by fastforce
  have "observed_same ob w w1" by (rule status_law [OF x])
  moreover have "observed_same ob w w' \<or> observed_same ob w1 w'"
    using Cons.IH Cons.prems x by (auto simp: Let_def split: if_splits)
  ultimately show ?case by (auto simp: observed_same_def)
qed (simp add: observed_same_def)

lemma defer_ok:
  assumes ok: "world_ok ob S c exact rt f" and run: "defer_for_progress host rt slot schedule now = (b, rt')"
  shows "world_ok ob S c exact rt' f"
proof -
  obtain h w where h: "probe_recorders host slot (rt_recorders rt) None (rt_world rt) = (h, w)" by fastforce
  have q: "world_ok ob S c exact (rt\<lparr>rt_world := w\<rparr>) f" by (rule world_ok_quiet [OF ok probe_quiet [OF h]])
  have c: "world_ok ob S c exact (rt\<lparr>rt_world := w, rt_pending := bt_modify slot
      (\<lambda>p. p\<lparr>pp_last_observed_step := h, pp_ready_at := Some t\<rparr>) (rt_pending rt)\<rparr>) f" for t
    using clock_ok [OF q, of "\<lambda>p. p\<lparr>pp_last_observed_step := h, pp_ready_at := Some t\<rparr>" slot] by simp
  show ?thesis
    using run ok q c h unfolding defer_for_progress_def probe_slot_step_def Let_def
    by (auto split: if_splits option.splits)
qed

lemma poll_turn_ok:
  assumes "world_ok ob S c exact rt f" and "poll_turn host now rt = (r, rt')"
  shows "world_ok ob S c exact rt' f"
  using assms
proof (induction "due_count now rt" arbitrary: rt rule: less_induct)
  case less
  show ?case
  proof (cases "next_deadline rt")
    case None
    then show ?thesis using less.prems by (simp add: poll_turn.simps [of host])
  next
    case (Some sd)
    obtain slot deadline where sd: "sd = (slot, deadline)" by fastforce
    show ?thesis
    proof (cases "deadline > now")
      case True
      then show ?thesis using less.prems Some sd by (simp add: poll_turn.simps [of host])
    next
      case False
      obtain x rt1 where x: "ensure_schedule_for rt slot = (x, rt1)" by fastforce
      have k1: "world_ok ob S c exact rt1 f" by (rule ensure_schedule_for_ok [OF less.prems(1) x])
      show ?thesis
      proof (cases x)
        case (Inl e)
        then show ?thesis using less.prems(2) Some sd False x k1 by (simp add: poll_turn.simps [of host])
      next
        case (Inr schedule)
        obtain b rt2 where b: "defer_for_progress host rt1 slot schedule now = (b, rt2)" by fastforce
        have k2: "world_ok ob S c exact rt2 f" by (rule defer_ok [OF k1 b])
        obtain t where t: "rt1 = rt\<lparr>rt_tuner := t\<rparr>" using ensure_schedule_for_frame [OF x] by blast
        have g: "(r, rt') = (if b then poll_turn host now rt2 else (Inr (Ready slot schedule), rt2))"
          using less.prems(2) Some sd False x Inr b by (simp add: poll_turn.simps [of host] split: bool.splits)
        have "next_deadline rt1 = Some (slot, deadline)" using Some sd by (simp add: t next_deadline_def armed_slots_def)
        then have "due_count now rt2 < due_count now rt" if b
          using deferred_not_due [of host rt1 slot schedule now rt2 deadline] b that False by (simp add: t due_count_def)
        then show ?thesis using g k2 less.hyps [OF _ k2] by (cases b) auto
      qed
    qed
  qed
qed

lemma run_proposer_ok:
  assumes ok: "world_ok ob S c exact rt f" and run: "run_proposer host slot schedule rt = (r, rt')"
  shows "world_ok ob S c exact rt' f"
proof -
  obtain ph w where w: "h_phases host slot (rt_world rt) = (ph, w)" by fastforce
  have q: "world_ok ob S c exact (rt\<lparr>rt_world := w\<rparr>) f" by (rule world_ok_quiet [OF ok phases_law [OF w]])
  have p: "world_ok ob S c exact (rt\<lparr>rt_proposer := p, rt_world := w\<rparr>) f" for p
    using world_ok_inner [OF q, of "rt\<lparr>rt_proposer := p, rt_world := w\<rparr>"] world_okD(1,2) [OF q] by simp
  have h: "world_ok ob S c exact (rt\<lparr>rt_proposer := p, rt_world := w, rt_hedge_delay := hd\<rparr>) f" for p hd
    using world_ok_inner [OF p [of p], of "rt\<lparr>rt_proposer := p, rt_world := w, rt_hedge_delay := hd\<rparr>"] world_okD(1,2) [OF p [of p]] by simp
  show ?thesis
    using run w ok p h unfolding run_proposer_def Let_def by (auto elim!: sbindE split: prod.splits option.splits)
qed

lemma poll_attempt_ok:
  assumes ok: "world_ok ob S c exact rt f" and run: "poll_attempt host rt now = (r, rt')"
  shows "world_ok ob S c exact rt' f"
proof -
  obtain x rt1 where x: "flush_decision_notifications host rt = (x, rt1)" by fastforce
  obtain y rt2 where y: "arm_available host rt1 now = (y, rt2)" by fastforce
  obtain z rt3 where z: "poll_turn host now rt2 = (z, rt3)" by fastforce
  have k1: "world_ok ob S c exact rt1 f" using flush_ok [OF ok x] by blast
  have k2: "world_ok ob S c exact rt2 f" by (rule arm_available_ok [OF k1 y])
  have k3: "world_ok ob S c exact rt3 f" by (rule poll_turn_ok [OF k2 z])
  have "rt' \<in> {rt1, rt2, rt3} \<or> (\<exists>slot s. run_proposer host slot s rt3 = (r, rt'))"
    using run x y z by (cases x; cases y; cases z) (auto simp: poll_attempt_def split: turn.splits)
  then show ?thesis using k1 k2 k3 run_proposer_ok [OF k3] by blast
qed

lemma poll_ok:
  fixes rt :: "('v, 'g, 'w) ReplicaRuntime"
  assumes ok: "world_ok ob S c exact rt f" and run: "poll host rt now = (r, rt')"
    and d: "\<And>d rt1. poll_attempt host rt now = (Inr (Decided d), rt1) \<Longrightarrow> d \<in> S \<and> dec_slot d \<noteq> u64_max"
  shows "\<exists>f'. world_ok ob S c exact rt' f'"
proof -
  obtain x rt1 where x: "poll_attempt host rt now = (x, rt1)" by fastforce
  have k: "world_ok ob S c exact rt1 f" by (rule poll_attempt_ok [OF ok x])
  show ?thesis
  proof (cases "\<exists>d. x = Inr (Decided d)")
    case True
    then obtain d' where d': "x = Inr (Decided d')" by blast
    obtain y rt2 where y: "accept_decision host rt1 d' = (y, rt2)" by fastforce
    have "rt' = rt2" using run x d' y by (cases y) (simp_all add: poll_def)
    then show ?thesis using accept_decision_ok [OF k _ _ y] d x d' by blast
  next
    case False
    then have "rt' = rt1" using run x by (cases x) (auto simp: poll_def split: attempt.splits)
    then show ?thesis using k by blast
  qed
qed

text \<open>A caller checkpoints only what its application has executed.\<close>

lemma checkpoint_ok:
  assumes ok: "world_ok ob S c exact rt f" and run: "checkpoint_through host rt slot = (r, rt')" and upto: "slot \<le> f"
  shows "world_ok ob S c exact rt' f"
proof -
  obtain x rt1 where x: "flush_decision_notifications host rt = (x, rt1)" by fastforce
  have k: "world_ok ob S c exact rt1 f" using flush_ok [OF ok x] by blast
  let ?rt = "rt1\<lparr>rt_replica := replica_prune_through (rt_replica rt1) slot,
      rt_decisions := bt_retain (\<lambda>i _. i > slot) (rt_decisions rt1), rt_executed := {i \<in> rt_executed rt1. i > slot},
      rt_notified := {i \<in> rt_notified rt1. i > slot}, rt_announced_to := bt_retain (\<lambda>i _. i > slot) (rt_announced_to rt1)\<rparr>"
  have pruned: "world_ok ob S c exact ?rt f"
    if le: "slot \<le> committed_through (rt_replica rt1)" and free: "\<not> list_ex (\<lambda>s. s \<le> slot) (bt_keys (rt_pending rt1))"
  proof (rule world_ok_change [OF k])
    note i = rt_invD [OF world_okD(1) [OF k]]
    note v = prune_views [OF i(1) le]
    have "decisions_ok ?rt" using i(3) v by (auto simp: decisions_ok_def split: if_splits)
    moreover have "pending_ok ?rt" using i(4) v unfolding pending_ok_def by simp
    moreover have "announced_ok ?rt" using i(5) unfolding announced_ok_def by (auto split: if_splits)
    moreover have "recorders_ok ?rt" using i(6) by (simp add: recorders_ok_def)
    ultimately have "rt_inv ?rt" unfolding rt_inv_def using replica_prune_inv [OF i(1)] i(2,7,8) v by auto
    moreover have "executed_upto ?rt f" using world_okD(2) [OF k] v upto by (auto simp: executed_upto_def)
    ultimately show "backed ob S c (rt_world rt1) ?rt f"
      using world_okD(3) [OF k] unfolding backed_def by (auto split: if_splits)
  qed simp
  show ?thesis
  proof (cases "is_ok x \<and> slot \<le> committed_through (rt_replica rt1) \<and> \<not> list_ex (\<lambda>s. s \<le> slot) (bt_keys (rt_pending rt1))
      \<and> is_ok (ensure_fully_announced rt1 slot)")
    case True
    then have "persist host ?rt = (r, rt')"
      using run x by (cases x; cases "ensure_fully_announced rt1 slot") (auto simp: checkpoint_through_def not_le [symmetric])
    then show ?thesis using persist_ok [OF pruned] True by blast
  next
    case False
    then have "rt' = rt1"
      using run x by (cases x; cases "ensure_fully_announced rt1 slot") (auto simp: checkpoint_through_def not_less split: if_splits)
    then show ?thesis using k by simp
  qed
qed

lemma install_at_ok:
  assumes "world_ok ob S c exact rt f" and "install_at host change rs rt = (r, rt')"
  shows "world_ok ob S c exact rt' f \<and> (\<exists>w. rt' = rt\<lparr>rt_world := w\<rparr>)"
  using assms
proof (induction rs arbitrary: rt)
  case Nil
  then show ?case by (auto intro!: exI [of _ "rt_world rt"])
next
  case (Cons m rs)
  obtain x rt1 where x: "world_call (h_install host m change) rt = (x, rt1)" by fastforce
  then obtain w where k: "world_ok ob S c exact rt1 f" "rt1 = rt\<lparr>rt_world := w\<rparr>" using quiet_call_ok [OF Cons.prems(1) x] install_law by blast
  show ?case using Cons.prems(2) x k Cons.IH [OF k(1)] by (cases x) fastforce+
qed

lemma persist_aside:
  fixes rt rt1 :: "('v, 'g, 'w) ReplicaRuntime"
  assumes ok: "world_ok ob S c exact rt f" and b: "backed ob S c (rt_world rt) rt1 f1" and w: "rt_world rt1 = rt_world rt"
    and run: "persist host rt1 = (r, rt2)"
  shows "world_ok ob S c exact (rt\<lparr>rt_world := rt_world rt2\<rparr>) f"
proof -
  obtain x w' where x: "h_save host (runtime_snapshot rt1) (rt_world rt) = (x, w')" "rt2 = rt1\<lparr>rt_world := w'\<rparr>"
    using run w by (auto simp: persist_def world_call_def split: prod.splits)
  note l = save_law [OF x(1)]
  have m: "backed ob S c (rt_world rt) r0 g \<Longrightarrow> backed ob S c w' r0 g" for r0 :: "('v, 'g, 'w) ReplicaRuntime" and g
    by (erule backed_mono) (auto simp: l)
  have "stored_ok ob S c (rt\<lparr>rt_world := w'\<rparr>)"
    using ok m [OF b] m l unfolding world_ok_def stored_ok_def by (simp; metis option.inject)
  then show ?thesis using ok m l by (simp add: world_ok_def x(2))
qed

lemma activate_ok:
  fixes rt :: "('v, 'g, 'w) ReplicaRuntime"
  assumes ok: "world_ok ob S c exact rt f" and run: "activate_membership host rt change rs = (r, rt')"
    and ms: "members_ok (ci_members (ch_next change))" and rs: "distinct rs" "set rs = set (ci_members (ch_next change))"
  shows "world_ok ob S c exact rt' f"
proof -
  let ?rt = "rt\<lparr>rt_announced_to := bt_map_values (\<lambda>recipients. recipients \<inter> set (ci_members (ch_next change))) (rt_announced_to rt),
      rt_config := rrc_install_cluster (rt_config rt) (ch_next change),
      rt_proposer := configure_cluster (rt_proposer rt) (ch_next change), rt_recorders := rs,
      rt_tuner := tuner_reconfigure (rt_tuner rt) (ci_members (ch_next change)) (dec_slot (ch_anchor change))\<rparr>"
  obtain x rt2 where x: "persist host ?rt = (x, rt2)" by fastforce
  note i = rt_invD [OF world_okD(1) [OF ok]]
  have "decisions_ok ?rt" "pending_ok ?rt" using i(3,4) by (simp_all add: decisions_ok_def pending_ok_def)
  moreover have "announced_ok ?rt"
    using i(5) by (auto simp: announced_ok_def rrc_members_def rrc_install_cluster_def)
  moreover have "recorders_ok ?rt" using rs by (simp add: recorders_ok_def rrc_members_def rrc_install_cluster_def)
  moreover have "tuner_ok (rt_config ?rt) (rt_tuner ?rt)" using tuner_reconfigure_ok [OF i(7) ms] by simp
  ultimately have "rt_inv ?rt" using i(1,2,8) by (simp add: rt_inv_def rrc_install_cluster_def)
  moreover have "executed_upto ?rt f" using world_okD(2) [OF ok] by (simp add: executed_upto_def)
  ultimately have b: "backed ob S c (rt_world rt) ?rt f"
    using world_okD(3) [OF ok] unfolding backed_def by (auto simp: same_settings_install)
  have k: "world_ok ob S c exact ?rt f" by (rule world_ok_change [OF ok _ b]) simp
  obtain w where w: "world_ok ob S c exact rt2 f" "rt2 = ?rt\<lparr>rt_world := w\<rparr>" using persist_ok [OF k x] by blast
  show ?thesis
  proof (cases x)
    case (Inr u)
    then show ?thesis using run x w(1) by (simp add: activate_membership_def)
  next
    case (Inl e)
    let ?undone = "rt\<lparr>rt_world := w, rt_proposer := configure_cluster (configure_cluster (rt_proposer rt) (ch_next change)) (rrc_cluster (rt_config rt))\<rparr>"
    have q: "world_ok ob S c exact (rt\<lparr>rt_world := w\<rparr>) f" using persist_aside [OF ok b _ x] w(2) by simp
    have "world_ok ob S c exact ?undone f"
      using world_ok_inner [OF q, of ?undone] world_okD(1,2) [OF q] by simp
    moreover have "rt' = ?undone" using run x Inl w(2) by (simp add: activate_membership_def)
    ultimately show ?thesis by simp
  qed
qed

lemma membership_ok:
  fixes rt :: "('v, 'g, 'w) ReplicaRuntime"
  assumes ok: "world_ok ob S c exact rt f" and run: "rt_install_membership host rt change rs = (r, rt')"
    and small: "length (ci_members (ch_next change)) < 2 ^ 62"
  shows "world_ok ob S c exact rt' f"
proof -
  have rec: "distinct rs \<and> set rs = set (ci_members (ch_next change))" if "validate_recorders_for_cluster (ch_next change) rs = Inr ()"
    using that by (auto simp: validate_recorders_for_cluster_def card_distinct split: if_splits)
  consider (refused) "rt' = rt" | (same) "ch_next change = rrc_cluster (rt_config rt)" "rt' = rt\<lparr>rt_recorders := rs\<rparr>"
      "validate_recorders_for_cluster (ch_next change) rs = Inr ()"
    | (change) "is_successor_of (ch_next change) (rrc_cluster (rt_config rt))"
      "sbind (flush_decision_notifications host rt) (\<lambda>_ rt.
       sbind (lift_err (ensure_fully_announced rt (dec_slot (ch_anchor change))), rt) (\<lambda>_ rt.
       sbind (lift_err (validate_recorders_for_cluster (ch_next change) rs), rt) (\<lambda>_ rt.
       sbind (install_at host change rs rt) (\<lambda>_ rt. activate_membership host rt change rs)))) = (r, rt')"
  proof (cases "validate_binding change")
    case (Inl e)
    then show thesis using run that(1) by (simp add: rt_install_membership_def)
  next
    case (Inr u)
    show thesis
    proof (cases "ch_next change = rrc_cluster (rt_config rt)")
      case True
      then show thesis
        using run that(1,2) Inr by (cases "validate_recorders_for_cluster (ch_next change) rs") (auto simp: rt_install_membership_def)
    next
      case False
      then show thesis using run that(1,3) Inr by (auto simp: rt_install_membership_def split: if_splits)
    qed
  qed
  then show ?thesis
  proof cases
    case refused
    then show ?thesis using ok by simp
  next
    case same
    show ?thesis
    proof (rule world_ok_inner [OF ok])
      show "rt_inv rt'" using world_okD(1) [OF ok] rec [OF same(3)] same by (auto simp: rt_inv_parts rrc_members_def)
      show "executed_upto rt' f" using world_okD(2) [OF ok] same by (simp add: executed_upto_def)
    qed (simp_all add: same(2))
  next
    case change
    have ms: "members_ok (ci_members (ch_next change))"
      using small is_successor_of_members [OF change(1)] by (simp add: members_ok_def)
    obtain x rt1 where x: "flush_decision_notifications host rt = (x, rt1)" by fastforce
    have k1: "world_ok ob S c exact rt1 f" using flush_ok [OF ok x] by blast
    obtain y rt2 where y: "install_at host change rs rt1 = (y, rt2)" by fastforce
    have k2: "world_ok ob S c exact rt2 f" using install_at_ok [OF k1 y] by blast
    have "rt' = rt1 \<or> rt' = rt2 \<or> validate_recorders_for_cluster (ch_next change) rs = Inr () \<and> activate_membership host rt2 change rs = (r, rt')"
      using change(2) x y by (cases x; cases "ensure_fully_announced rt1 (dec_slot (ch_anchor change))"; cases "validate_recorders_for_cluster (ch_next change) rs"; cases y) auto
    then show ?thesis using k1 k2 activate_ok [OF k2 _ ms] rec by blast
  qed
qed

end

end
