(* ===== verification/QP_Execution.thy ===== *)
theory QP_Execution
  imports QP_World
begin

text \<open>
  What the runtime guarantees over a whole life with failing stores, failing applications, crashes
  and restarts: decisions are executed in slot order without a gap, snapshots restore, checkpoints
  drop only what every member acknowledged, and a membership change is all or nothing.
\<close>

section \<open>Restart\<close>

definition restarted ::
  "('v, 'g, 'w) ReplicaRuntime \<Rightarrow> 'g ProposerCore \<Rightarrow> ReplicaId list \<Rightarrow> HedgeDelayTuner \<Rightarrow> 'w \<Rightarrow> ('v, 'g, 'w) ReplicaRuntime" where
  "restarted rt proposer recorders hedge w =
     rt\<lparr>rt_proposer := configure_cluster proposer (rrc_cluster (rt_config rt)), rt_recorders := recorders,
        rt_pending := bt_map_values (\<lambda>p. unarmed (pp_value_ids p)) (rt_pending rt), rt_noop_value := None,
        rt_hedge_delay := hedge, rt_world := w\<rparr>"

lemma tuner_restore_ok:
  assumes "tuner_ok c t"
  shows "tuner_restore (rrc_epoch_size c) (rrc_members c) (rrc_auto_schedules c) (et_schedules t) (et_stats t) (et_stats_through t) = Inr t"
proof -
  have i: "tuner_inv t" "et_members t = rrc_members c" "et_auto t = rrc_auto_schedules c" "et_epoch_size t = max (rrc_epoch_size c) 1"
    using assms by (simp_all add: tuner_ok_def)
  have "tuner_restore (max sz 1) = tuner_restore sz" for sz by (simp add: fun_eq_iff tuner_restore_def tuner_new_def)
  then show ?thesis using tuner_restore_same [OF i(1)] unfolding i(2-4) by simp
qed

text \<open>Loading the snapshot of a consistent runtime leaves only the checks of \<open>new\<close>.\<close>

lemma runtime_new_restores:
  assumes inv: "rt_inv rt" and l: "h_load host w = (Inr (Some (runtime_snapshot rt)), w')"
  shows "runtime_new host (rt_config rt) proposer recorders w =
     rbind (rt_validate_recorders (rt_config rt) recorders) (\<lambda>_.
     if pr_replica_id proposer \<noteq> rrc_replica_id (rt_config rt) \<or> pr_lane_id proposer \<noteq> rrc_lane_id (rt_config rt)
     then Inl (Failed (InvalidProposal ''runtime proposer identity does not match the runtime configuration''))
     else rbind (hedge_new (rrc_base_hedge_delay (rt_config rt)) (rrc_adaptive_hedging (rt_config rt))) (\<lambda>hedge.
          rbind (lift_err (validate_restored_state (restarted rt proposer recorders hedge w'))) (\<lambda>_.
          Inr (restarted rt proposer recorders hedge w'))))"
proof -
  have r: "replica_restore (rrc_replica (rt_config rt)) (replica_snapshot (rt_replica rt)) = Inr (rt_replica rt)"
    using replica_restore_snapshot [OF rt_invD(1) [OF inv]] rt_invD(2) [OF inv] by simp
  have p: "bt_map_values (\<lambda>p. unarmed (pps_value_ids p)) (bt_map_values (\<lambda>p. \<lparr>pps_value_ids = pp_value_ids p\<rparr>) (rt_pending rt))
      = bt_map_values (\<lambda>p. unarmed (pp_value_ids p)) (rt_pending rt)"
    by (simp add: bt_map_values_def case_prod_beta comp_def)
  have e: "restarted rt proposer recorders hedge w' = \<lparr>rt_config = rt_config rt, rt_replica = rt_replica rt,
      rt_proposer = configure_cluster proposer (rrc_cluster (rt_config rt)), rt_recorders = recorders,
      rt_decisions = rt_decisions rt, rt_tuner = rt_tuner rt, rt_pending = bt_map_values (\<lambda>p. unarmed (pp_value_ids p)) (rt_pending rt),
      rt_executed = rt_executed rt, rt_notified = rt_notified rt, rt_announced_to = rt_announced_to rt, rt_noop_value = None,
      rt_hedge_delay = hedge, rt_world = w'\<rparr>" for hedge
    by (simp add: restarted_def)
  show ?thesis
    unfolding runtime_new_def Let_def l using tuner_restore_ok [OF rt_invD(7) [OF inv]] r p
    by (simp add: runtime_snapshot_def e)
qed

lemma restarted_inv:
  assumes inv: "rt_inv rt" and "distinct recorders" and "set recorders = set (rrc_members (rt_config rt))"
  shows "rt_inv (restarted rt proposer recorders hedge w)"
proof -
  note i = rt_invD [OF inv]
  let ?rt = "restarted rt proposer recorders hedge w"
  have "pending_ok ?rt" using i(4) by (simp add: pending_ok_def restarted_def option.map_comp comp_def unarmed_def)
  moreover have "decisions_ok ?rt" "announced_ok ?rt" using i(3,5) by (simp_all add: decisions_ok_def announced_ok_def restarted_def)
  moreover have "recorders_ok ?rt" using assms(2,3) by (simp add: recorders_ok_def restarted_def)
  ultimately show ?thesis using i(1,2,7,8) by (simp add: rt_inv_def restarted_def)
qed

lemma validate_recordersD: "rt_validate_recorders c rs = Inr () \<Longrightarrow> distinct rs \<and> set rs = set (rrc_members c)"
  by (auto simp: rt_validate_recorders_def rbind_Inr card_distinct split: if_splits)

lemma validate_each_ok: "validate_each f xs = Inr () \<longleftrightarrow> (\<forall>x \<in> set xs. is_ok (f x))"
  by (induction xs) (auto simp: rbind_Inr is_ok_def split: sum.splits)

lemma bt_values_get: "bt_wf m \<Longrightarrow> v \<in> set (bt_values m) \<Longrightarrow> \<exists>k. bt_get m k = Some v"
  using bt_get_mem by fastforce

lemma bt_keys_get: "k \<in> set (bt_keys m) \<longleftrightarrow> (\<exists>v. bt_get m k = Some v)"
  by (metis map_of_eq_None_iff not_Some_eq set_map)

lemma restarted_valid:
  assumes inv: "rt_inv rt" and ex: "executed_upto rt f"
    and ps: "\<And>s d. bt_get (rt_decisions rt) s = Some d \<Longrightarrow> cluster_contains (rrc_cluster (rt_config rt)) (dec_proposer d)"
  shows "validate_restored_state (restarted rt proposer recorders hedge w) = Inr ()"
proof -
  note i = rt_invD [OF inv]
  have wf: "bt_wf (rt_decisions rt)" "bt_wf (et_schedules (rt_tuner rt))" "bt_wf (rt_pending rt)" "bt_wf (rt_announced_to rt)"
    using i(3,4,5,7) by (simp_all add: decisions_ok_def pending_ok_def announced_ok_def tuner_ok_def tuner_inv_def)
  have sch: "is_ok (rt_validate_schedule (rt_config rt) s)" if h: "s \<in> set (bt_values (et_schedules (rt_tuner rt)))" for s
  proof -
    obtain k where k: "bt_get (et_schedules (rt_tuner rt)) k = Some s" using bt_values_get [OF wf(2) h] by blast
    have "distinct (es_proposers s) \<and> set (es_proposers s) = set (rrc_members (rt_config rt))"
    proof (cases "et_auto (rt_tuner rt)")
      case True
      then have "mset (es_proposers s) = mset (et_members (rt_tuner rt))" "members_ok (et_members (rt_tuner rt))"
        using i(7) k by (auto simp: tuner_ok_def tuner_inv_def)
      then show ?thesis using i(7) mset_nonempty_distinct by (auto simp: tuner_ok_def members_ok_def)
    next
      case False
      then show ?thesis using i(7) k by (auto simp: tuner_ok_def)
    qed
    then show ?thesis using distinct_card [of "es_proposers s"] by (simp add: rt_validate_schedule_def)
  qed
  have dec: "is_ok (rt_validate_decision (rt_config rt) d)" if h: "d \<in> set (bt_values (rt_decisions rt))" for d
  proof -
    obtain k where k: "bt_get (rt_decisions rt) k = Some d" using bt_values_get [OF wf(1) h] by blast
    then show ?thesis using i(3) ps [OF k] by (auto simp: rt_validate_decision_def decisions_ok_def)
  qed
  have pen: "\<not> bt_contains (rt_decisions rt) s \<and> \<not> s \<le> committed_through (rt_replica rt)" if h: "s \<in> set (bt_keys (rt_pending rt))" for s
  proof -
    obtain p where p: "bt_get (rt_pending rt) s = Some p" using h unfolding bt_keys_get by blast
    have "open_proposal (rt_replica rt) s = Some (pp_value_ids p)" "rl_next_commit (rt_replica rt) \<le> s"
      using i(4) p unfolding pending_ok_def by (auto dest: spec [of _ s])
    moreover have "logged_decision (rt_replica rt) s = None"
      using calculation(1) by (auto simp: open_proposal_def logged_decision_def split: option.splits if_splits)
    moreover have "bt_get (rt_decisions rt) s = None" using i(3) calculation(3) by (simp add: decisions_ok_def)
    ultimately show ?thesis unfolding bt_contains_get committed_through_less [OF i(1)] not_less by blast
  qed
  have exe: "rt_executed rt \<subseteq> set (bt_keys (rt_decisions rt))"
  proof
    fix s assume "s \<in> rt_executed rt"
    then have a: "rl_checkpointed_through (rt_replica rt) < s" "s \<le> f" "f < rl_next_commit (rt_replica rt)"
      using ex unfolding executed_upto_def by simp_all
    note a(1) order.strict_trans1 [OF a(2,3)]
    then obtain d where "logged_decision (rt_replica rt) s = Some d" using logged_decision_committed [OF i(1)] by blast
    then have "bt_get (rt_decisions rt) s = Some d" using i(3) by (simp add: decisions_ok_def)
    then show "s \<in> set (bt_keys (rt_decisions rt))" unfolding bt_keys_get by blast
  qed
  have ann: "s \<in> set (bt_keys (rt_decisions rt)) \<and> a \<subseteq> set (rrc_members (rt_config rt))" if "(s, a) \<in> set (rt_announced_to rt)" for s a
  proof -
    have "bt_get (rt_announced_to rt) s = Some a" using that bt_get_mem [OF wf(4)] by blast
    then show ?thesis using i(5) unfolding bt_keys_get announced_ok_def by blast
  qed
  let ?r = "restarted rt proposer recorders hedge w"
  have f: "rt_config ?r = rt_config rt" "rt_tuner ?r = rt_tuner rt" "rt_decisions ?r = rt_decisions rt" "rt_replica ?r = rt_replica rt"
      "rt_executed ?r = rt_executed rt" "rt_notified ?r = rt_notified rt" "rt_announced_to ?r = rt_announced_to rt"
      "bt_keys (rt_pending ?r) = bt_keys (rt_pending rt)"
    by (simp_all add: restarted_def)
  have "validate_each (rt_validate_schedule (rt_config rt)) (bt_values (et_schedules (rt_tuner rt))) = Inr ()"
    unfolding validate_each_ok using sch by blast
  moreover have "validate_each (rt_validate_decision (rt_config rt)) (bt_values (rt_decisions rt)) = Inr ()"
    unfolding validate_each_ok using dec by blast
  moreover have "validate_each (\<lambda>slot.
         if bt_contains (rt_decisions rt) slot
         then Inl (InvalidProposal ''runtime snapshot has both a decision and a pending proposal for one slot'')
         else if slot \<le> committed_through (rt_replica rt)
         then Inl (InvalidProposal ''runtime snapshot has a pending proposal in the committed prefix'')
         else Inr ()) (bt_keys (rt_pending rt)) = Inr ()"
    unfolding validate_each_ok by (intro ballI) (drule pen, simp only: simp_thms if_False is_ok_simps)
  moreover have "validate_each (\<lambda>(slot, recipients).
         if slot \<notin> set (bt_keys (rt_decisions rt)) \<or> \<not> recipients \<subseteq> set (rrc_members (rt_config rt))
         then Inl (InvalidProposal ''runtime snapshot has invalid decision dissemination metadata'')
         else Inr ()) (rt_announced_to rt) = Inr ()"
    unfolding validate_each_ok by (intro ballI) (auto dest!: ann)
  moreover have "rt_notified rt \<subseteq> set (bt_keys (rt_decisions rt))" using exe i(8) by (rule order_trans [rotated])
  ultimately show ?thesis unfolding validate_restored_state_def f Let_def using exe i(8) by (simp only: rbind_simps simp_thms if_False)
qed

section \<open>Lives of a runtime\<close>

text \<open>
  The histories of one replica runtime: it starts on an empty store, its operations run in any order
  and may fail at any call into the host, the rest of the world moves on in between, and it may be
  restarted at any time from what its store holds. A crash in the middle of an operation is the failure of its next call into the host followed
  by a restart. \<open>S\<close> is the set of decisions that consensus delivers; \<open>once\<close> says that no restart happened.
  Checkpoints are limited to slots the application has executed, as the documentation of
  \<open>checkpoint_through\<close> demands.
\<close>

inductive runtime_life ::
  "('v, 'g, 'w) host \<Rightarrow> ('v, 'w) observer \<Rightarrow> 'v Decision set \<Rightarrow> ReplicaRuntimeConfig \<Rightarrow> bool \<Rightarrow> ('v, 'g, 'w) ReplicaRuntime \<Rightarrow> bool"
  for host ob S c where
  start: "runtime_new host c pr rs w = Inr rt \<Longrightarrow> members_ok (rrc_members c) \<Longrightarrow> ob_log ob w = [] \<Longrightarrow> ob_stored ob w = None \<Longrightarrow>
    runtime_life host ob S c True rt"
| elapse: "runtime_life host ob S c once rt \<Longrightarrow> observed_same ob (rt_world rt) w \<Longrightarrow> runtime_life host ob S c once (rt\<lparr>rt_world := w\<rparr>)"
| noop: "runtime_life host ob S c once rt \<Longrightarrow> runtime_life host ob S c once (with_noop_value rt v)"
| submit: "runtime_life host ob S c once rt \<Longrightarrow> rt_submit host rt vs = (r, rt') \<Longrightarrow> runtime_life host ob S c once rt'"
| schedule: "runtime_life host ob S c once rt \<Longrightarrow> rt_install_epoch_schedule host rt es = (r, rt') \<Longrightarrow> runtime_life host ob S c once rt'"
| arm: "runtime_life host ob S c once rt \<Longrightarrow> arm_available host rt now = (armed, rt') \<Longrightarrow> runtime_life host ob S c once rt'"
| receive: "runtime_life host ob S c once rt \<Longrightarrow> d \<in> S \<Longrightarrow> dec_slot d \<noteq> u64_max \<Longrightarrow> receive_decision host rt d = (ds, rt') \<Longrightarrow>
    runtime_life host ob S c once rt'"
| poll: "runtime_life host ob S c once rt \<Longrightarrow> poll host rt now = (p, rt') \<Longrightarrow>
    (\<And>d rt1. poll_attempt host rt now = (Inr (Decided d), rt1) \<Longrightarrow> d \<in> S \<and> dec_slot d \<noteq> u64_max) \<Longrightarrow>
    runtime_life host ob S c once rt'"
| recover: "runtime_life host ob S c once rt \<Longrightarrow> rt_recover host rt = (ds, rt') \<Longrightarrow> runtime_life host ob S c once rt'"
| checkpoint: "runtime_life host ob S c once rt \<Longrightarrow> checkpoint_through host rt slot = (r, rt') \<Longrightarrow>
    (\<And>s. rl_checkpointed_through (rt_replica rt) < s \<Longrightarrow> s \<le> slot \<Longrightarrow> s \<in> rt_executed rt) \<Longrightarrow>
    runtime_life host ob S c once rt'"
| membership: "runtime_life host ob S c once rt \<Longrightarrow> rt_install_membership host rt change rs = (r, rt') \<Longrightarrow>
    length (ci_members (ch_next change)) < 2 ^ 62 \<Longrightarrow> runtime_life host ob S c once rt'"
| restart: "runtime_life host ob S c once rt \<Longrightarrow> runtime_new host c' pr rs (rt_world rt) = Inr rt' \<Longrightarrow> same_settings c c' \<Longrightarrow>
    members_ok (rrc_members c') \<Longrightarrow> runtime_life host ob S c False rt'"

lemma runtime_new_world:
  assumes "runtime_new host c pr rs w = Inr rt"
  obtains snap w' where "h_load host w = (Inr snap, w')" "rt_validate_recorders c rs = Inr ()"
proof -
  obtain l w' where l: "h_load host w = (l, w')" by fastforce
  have "\<exists>snap. l = Inr snap" "rt_validate_recorders c rs = Inr ()"
    using assms l by (auto simp: runtime_new_def rbind_Inr lift_err_Inr Let_def split: if_splits)
  then show thesis using that l by blast
qed

lemma fresh_runtime:
  assumes r: "runtime_new host c pr rs w = Inr rt" and l: "h_load host w = (Inr None, w')" and ms: "members_ok (rrc_members c)"
  shows "rt_inv rt \<and> executed_upto rt GENESIS \<and> rt_config rt = c \<and> rt_decisions rt = [] \<and> rt_world rt = w'"
proof -
  have rs: "distinct rs \<and> set rs = set (rrc_members c)" using runtime_new_world [OF r] validate_recordersD by blast
  obtain h where rt: "rt = \<lparr>rt_config = c, rt_replica = replica_new (rrc_replica c), rt_proposer = configure_cluster pr (rrc_cluster c),
      rt_recorders = rs, rt_decisions = [], rt_tuner = tuner_new (rrc_epoch_size c) (rrc_members c) (rrc_auto_schedules c),
      rt_pending = [], rt_executed = {}, rt_notified = {}, rt_announced_to = [], rt_noop_value = None, rt_hedge_delay = h, rt_world = w'\<rparr>"
    using r l by (auto simp: runtime_new_def rbind_Inr Let_def split: if_splits)
  let ?rl = "replica_new (rrc_replica c) :: 'a ReplicaCore"
  have g: "bt_get (rl_log ?rl) s = (if s = GENESIS then Some \<lparr>ls_proposed = [], ls_decision = None, ls_committed = True\<rparr> else None)" for s
    by (simp add: replica_new_def)
  have v: "logged_decision ?rl = (\<lambda>_. None)" "open_proposal ?rl = (\<lambda>_. None)"
    by (auto simp: logged_decision_def open_proposal_def fun_eq_iff g)
  have f: "rl_config ?rl = rrc_replica c" "rl_checkpointed_through ?rl = GENESIS" "rl_next_commit ?rl = 1"
    by (simp_all add: replica_new_def)
  have t: "tuner_ok c (tuner_new (rrc_epoch_size c) (rrc_members c) (rrc_auto_schedules c))"
    using ms tuner_reachable_inv [OF tuner_reachable.new [OF ms]] by (simp add: tuner_ok_def) (simp add: tuner_new_def)
  have "rt_inv rt"
    using rs t replica_inv_new [of "rrc_replica c"] by (simp add: rt rt_inv_def decisions_ok_def pending_ok_def announced_ok_def recorders_ok_def v f)
  moreover have "executed_upto rt GENESIS" by (auto simp: rt executed_upto_def f GENESIS_def word_less_nat_alt word_le_nat_alt)
  ultimately show ?thesis by (simp add: rt)
qed

lemma same_settings_config:
  "same_settings c a \<Longrightarrow> same_settings c b \<Longrightarrow> rrc_cluster a = rrc_cluster b \<Longrightarrow> a = b"
  by (simp add: same_settings_def)

context runtime_world
begin

lemma start_ok:
  assumes r: "runtime_new host c pr rs w = Inr rt" and "members_ok (rrc_members c)" and "ob_log ob w = []" and "ob_stored ob w = None"
  shows "world_ok ob S c True rt GENESIS"
proof -
  obtain snap w' where l: "h_load host w = (Inr snap, w')" using runtime_new_world [OF r] by blast
  have w: "snap = None" "ob_log ob w' = []" "ob_stored ob w' = None"
    using load_law [OF l] assms(3,4) by (auto simp: observed_same_def)
  note f = fresh_runtime [OF r l [unfolded w(1)] assms(2)]
  have "backed ob S c w' rt GENESIS" using f by (simp add: backed_def same_settings_def GENESIS_def w(2))
  then show ?thesis using f w by (simp add: world_ok_def history_ok_def stored_ok_def GENESIS_def)
qed

lemma restart_ok:
  fixes rt :: "('v, 'g, 'w) ReplicaRuntime"
  assumes ok: "world_ok ob S c exact rt f" and r: "runtime_new host c' pr rs (rt_world rt) = Inr rt'" and cc: "same_settings c c'"
    and ms: "members_ok (rrc_members c')"
  shows "\<exists>f'. world_ok ob S c False rt' f'"
proof -
  obtain snap w' where l: "h_load host (rt_world rt) = (Inr snap, w')" and v: "rt_validate_recorders c' rs = Inr ()"
    using runtime_new_world [OF r] by blast
  have o: "observed_same ob (rt_world rt) w'" "snap = ob_stored ob (rt_world rt)" using load_law [OF l] by auto
  have m: "backed ob S c (rt_world rt) r0 g \<Longrightarrow> backed ob S c w' r0 g" for r0 :: "('v, 'g, 'w) ReplicaRuntime" and g
    using o(1) by (elim backed_mono) (auto simp: observed_same_def)
  have st: "stored_ok ob S c (rt\<lparr>rt_world := w'\<rparr>)"
    using ok o(1) by (intro stored_ok_step [OF _ m]) (auto simp: world_ok_def observed_same_def)
  have hist: "history_ok S False g (ob_log ob w')" for g
    using ok o(1) by (simp add: world_ok_def history_ok_def observed_same_def)
  have finish: "world_ok ob S c False rt' g" if "backed ob S c w' rt' g" "rt_world rt' = w'" for g
    using that hist st by (simp add: world_ok_def stored_ok_def)
  show ?thesis
  proof (cases snap)
    case None
    note fr = fresh_runtime [OF r l [unfolded None] ms]
    have "backed ob S c w' rt' GENESIS" using fr cc by (simp add: backed_def GENESIS_def)
    then show ?thesis using finish fr by blast
  next
    case (Some s)
    obtain rt0 f0 where b: "backed ob S c w' (rt0 :: ('v, 'g, 'w) ReplicaRuntime) f0" "runtime_snapshot rt0 = s"
      using ok o(2) Some m unfolding world_ok_def stored_ok_def by metis
    have i: "rt_inv rt0" "executed_upto rt0 f0" "same_settings c (rt_config rt0)" using b(1) by (simp_all add: backed_def)
    have "rs_cluster s = rrc_cluster c'" using r l Some by (auto simp: runtime_new_def rbind_Inr Let_def split: if_splits)
    then have e: "rt_config rt0 = c'" using b(2) i(3) cc by (intro same_settings_config) (auto simp: runtime_snapshot_def)
    obtain h where rt': "rt' = restarted rt0 pr rs h w'"
      using r runtime_new_restores [OF i(1) l [unfolded Some b(2) [symmetric]], of pr rs] unfolding e by (auto simp: rbind_Inr split: if_splits)
    have "rt_inv rt'" unfolding rt' using restarted_inv [OF i(1)] validate_recordersD [OF v] e by simp
    moreover have "executed_upto rt' f0" using i(2) by (simp add: rt' restarted_def executed_upto_def)
    ultimately have "backed ob S c w' rt' f0" using b(1) unfolding backed_def by (auto simp: rt' restarted_def)
    then show ?thesis using finish by (simp add: rt' restarted_def) blast
  qed
qed

lemma life_ok: "runtime_life host ob S c once rt \<Longrightarrow> \<exists>f. world_ok ob S c once rt f"
proof (induction rule: runtime_life.induct)
  case (start pr rs w rt)
  show ?case using start_ok [OF start] by (rule exI)
next
  case (elapse once rt w)
  from elapse.IH obtain f where "world_ok ob S c once rt f" ..
  from world_ok_quiet [OF this elapse.hyps(2)] show ?case ..
next
  case (noop once rt v)
  from noop.IH obtain f where ok: "world_ok ob S c once rt f" ..
  have "world_ok ob S c once (with_noop_value rt v) f"
    using world_ok_inner [OF ok, of "with_noop_value rt v"] world_okD(1,2) [OF ok] by (simp add: with_noop_value_def)
  then show ?case ..
next
  case (checkpoint once rt slot r rt')
  from checkpoint.IH obtain f where ok: "world_ok ob S c once rt f" ..
  have "slot \<le> f"
  proof (cases "rl_checkpointed_through (rt_replica rt) < slot")
    case True
    have "slot \<in> rt_executed rt" by (rule checkpoint.hyps(3) [OF True order_refl])
    then show ?thesis using world_okD(2) [OF ok] by (simp add: executed_upto_def)
  next
    case False
    then show ?thesis using world_okD(2) [OF ok] unfolding executed_upto_def not_less by (blast intro: order_trans)
  qed
  from checkpoint_ok [OF ok checkpoint.hyps(2) this] show ?case ..
next
  case (submit once rt vs r rt')
  from submit.IH obtain f where "world_ok ob S c once rt f" ..
  from submit_ok [OF this submit.hyps(2)] show ?case ..
next
  case (schedule once rt es r rt')
  from schedule.IH obtain f where "world_ok ob S c once rt f" ..
  from install_schedule_ok [OF this schedule.hyps(2)] show ?case ..
next
  case (arm once rt now armed rt')
  from arm.IH obtain f where "world_ok ob S c once rt f" ..
  from arm_available_ok [OF this arm.hyps(2)] show ?case ..
next
  case (receive once rt d ds rt')
  from receive.IH obtain f where "world_ok ob S c once rt f" ..
  from accept_decision_ok [OF this receive.hyps(2,3) receive.hyps(4) [unfolded receive_decision_def]] show ?case .
next
  case (poll once rt now p rt')
  from poll.IH obtain f where "world_ok ob S c once rt f" ..
  from poll_ok [OF this poll.hyps(2) poll.hyps(3)] show ?case .
next
  case (recover once rt ds rt')
  from recover.IH obtain f where "world_ok ob S c once rt f" ..
  from recover_ok [OF this recover.hyps(2)] show ?case .
next
  case (membership once rt change rs r rt')
  from membership.IH obtain f where "world_ok ob S c once rt f" ..
  from membership_ok [OF this membership.hyps(2,3)] show ?case ..
next
  case (restart once rt c' pr rs rt')
  from restart.IH obtain f where "world_ok ob S c once rt f" ..
  from restart_ok [OF this restart.hyps(2-4)] show ?case .
qed

end

section \<open>Histories without gaps\<close>

text \<open>
  The decisions that were new when they were executed: a restart may execute a slot again whose
  execution was not yet stored, and the application sees it as a repetition.
\<close>

fun first_executions :: "nat \<Rightarrow> 'v Decision list \<Rightarrow> 'v Decision list" where
  "first_executions h [] = []"
| "first_executions h (d # ds) =
     (if h < unat (dec_slot d) then d # first_executions (unat (dec_slot d)) ds else first_executions h ds)"

lemma first_executions_slots:
  assumes "gapless_from h (map dec_slot log)"
  shows "map (unat \<circ> dec_slot) (first_executions h log) = [Suc h..<Suc (foldl max h (map (unat \<circ> dec_slot) log))]"
  using assms
proof (induction log arbitrary: h)
  case (Cons d ds)
  have le: "a \<le> foldl max a xs" for a :: nat and xs by (induction xs arbitrary: a) (auto intro: order_trans [OF max.cobounded1])
  show ?case
  proof (cases "h < unat (dec_slot d)")
    case True
    then have "unat (dec_slot d) = Suc h" using Cons.prems by simp
    then show ?thesis using Cons.IH [of "Suc h"] Cons.prems le [of "Suc h" "map (unat \<circ> dec_slot) ds"]
      by (simp add: max.absorb2 upt_conv_Cons comp_def del: upt_Suc)
  next
    case False
    then show ?thesis using Cons.IH [of h] Cons.prems by (simp add: max.absorb1)
  qed
qed simp

lemma first_executions_set: "set (first_executions h log) \<subseteq> set log"
  by (induction log arbitrary: h) (auto simp: subset_iff)

lemma history_covers:
  fixes log :: "'v Decision list"
  assumes "gapless_from 0 (map dec_slot log)" and "0 < unat s" and "unat s \<le> highest (map dec_slot log)"
  shows "\<exists>d \<in> set log. dec_slot d = s"
proof -
  have "unat s \<in> set (map (unat \<circ> dec_slot) (first_executions 0 log))"
    unfolding first_executions_slots [OF assms(1)] using assms(2,3) by (auto simp: highest_def comp_def)
  then obtain d where "d \<in> set (first_executions 0 log)" "unat (dec_slot d) = unat s" by auto
  then show ?thesis using first_executions_set by (metis subsetD word_unat_eq_iff)
qed

section \<open>A host made of the repository's own parts\<close>

text \<open>
  The in-process deployment of the tests and examples: a runtime store behind a lock, recorders in
  the same process, and an application that only reports success or failure. Its world also keeps the
  observations: which decisions the application executed and which recorder acknowledged what. What
  the recorders do during a run of the proposer, and how long it takes, is the argument \<open>phases\<close>.
\<close>

record 'v local_world =
  lw_store :: "'v RuntimeSnapshot InMemoryStore locked_store"
  lw_cores :: "(ReplicaId, 'v RecorderCore) btree"
  lw_log :: "'v Decision list"
  lw_acked :: "(ReplicaId \<times> 'v Decision) set"

definition local_core ::
  "('v RecorderCore \<Rightarrow> 'a result \<times> 'v RecorderCore) \<Rightarrow> ReplicaId \<Rightarrow> 'v local_world \<Rightarrow> 'a result \<times> 'v local_world" where
  "local_core f m w =
     (case bt_get (lw_cores w) m of
        None \<Rightarrow> (Inl (UnknownReplica m), w)
      | Some core \<Rightarrow> let (r, core) = f core in (r, w\<lparr>lw_cores := bt_insert m core (lw_cores w)\<rparr>))"

definition local_host ::
  "('v Decision \<Rightarrow> unit result) \<Rightarrow>
   (SlotIndex \<Rightarrow> (ReplicaId, 'v RecorderCore) btree \<Rightarrow> ('v reaction list \<times> Duration) \<times> (ReplicaId, 'v RecorderCore) btree) \<Rightarrow>
   ('v, XorShift64, 'v local_world) host" where
  "local_host execute phases =
     \<lparr>h_load = (\<lambda>w. let (r, s) = lk_load ms_load (lw_store w) in (r, w\<lparr>lw_store := s\<rparr>)),
      h_save = (\<lambda>snap w. let (r, s) = lk_save ms_save (lw_store w) snap in (r, w\<lparr>lw_store := s\<rparr>)),
      h_execute = (\<lambda>d w. let r = execute d in (r, if is_ok r then w\<lparr>lw_log := lw_log w @ [d]\<rparr> else w)),
      h_export = (\<lambda>slot w. (noop_export slot, w)),
      h_import = (\<lambda>slot bytes w. (noop_import slot bytes, w)),
      h_committed = (\<lambda>d w. (noop_committed d, w)),
      h_idle = (\<lambda>m w. True),
      h_inform = (\<lambda>m d w. let (r, w) = local_core (\<lambda>core. inform_decision core d) m w in
                    (r, if is_ok r then w\<lparr>lw_acked := insert (m, d) (lw_acked w)\<rparr> else w)),
      h_status = (\<lambda>m slot. local_core (\<lambda>core. (Inr (recorder_status core slot), core)) m),
      h_install = (\<lambda>m change. local_core (\<lambda>core. recorder_install_membership core change) m),
      h_next_below = xs_next_below,
      h_phases = (\<lambda>slot w. let (x, cores) = phases slot (lw_cores w) in (x, w\<lparr>lw_cores := cores\<rparr>))\<rparr>"

definition local_observer :: "('v, 'v local_world) observer" where
  "local_observer = \<lparr>ob_log = lw_log, ob_stored = (\<lambda>w. ms_snapshot (lk_store (lw_store w))), ob_acked = lw_acked\<rparr>"

lemma local_core_frame: "local_core f m w = (r, w') \<Longrightarrow> \<exists>cores. w' = w\<lparr>lw_cores := cores\<rparr>"
  by (auto simp: local_core_def split: option.splits prod.splits) (metis local_world.surjective local_world.update_convs(2))

lemma local_core_quiet: "local_core f m w = (r, w') \<Longrightarrow> observed_same local_observer w w'"
  using local_core_frame [of f m w r w'] by (auto simp: observed_same_def local_observer_def)

interpretation lw: runtime_world "local_host execute phases" local_observer for execute phases
proof unfold_locales
  fix w w' :: "'a local_world" and m d
  show "observed_same local_observer w w' \<and> (\<forall>x. r = Inr x \<longrightarrow> x = ob_stored local_observer w)"
    if "h_load (local_host execute phases) w = (r, w')" for r
    using that lkms.load_holds [of "lw_store w"] lkms.load_keeps [of "lw_store w"]
    by (auto simp: local_host_def local_observer_def observed_same_def split: prod.splits)
  show "ob_log local_observer w' = ob_log local_observer w \<and> ob_acked local_observer w \<subseteq> ob_acked local_observer w'
      \<and> (ob_stored local_observer w' = Some snap \<or> \<not> is_ok r \<and> ob_stored local_observer w' = ob_stored local_observer w)"
    if "h_save (local_host execute phases) snap w = (r, w')" for snap r
    using that lkms.save_ok [of "lw_store w" snap] lkms.save_err [of "lw_store w" snap]
    by (cases r) (auto simp: local_host_def local_observer_def split: prod.splits)
  show "ob_log local_observer w' = ob_log local_observer w @ (if is_ok r then [d] else [])
      \<and> ob_stored local_observer w' = ob_stored local_observer w \<and> ob_acked local_observer w \<subseteq> ob_acked local_observer w'"
    if "h_execute (local_host execute phases) d w = (r, w')" for r
    using that by (auto simp: local_host_def local_observer_def Let_def)
  show "observed_same local_observer w w' \<and> (is_ok r \<longrightarrow> (m, d) \<in> ob_acked local_observer w')"
    if "h_inform (local_host execute phases) m d w = (r, w')" for r
    using that local_core_frame [of _ m w]
    by (fastforce simp: local_host_def local_observer_def observed_same_def split: prod.splits if_splits)
  show "observed_same local_observer w w'" if "h_status (local_host execute phases) m slot w = (st, w')" for slot st
    using that local_core_quiet by (fastforce simp: local_host_def)
  show "observed_same local_observer w w'" if "h_install (local_host execute phases) m change w = (r, w')" for change r
    using that local_core_quiet by (fastforce simp: local_host_def)
qed (auto simp: local_host_def local_observer_def observed_same_def split: prod.splits)

end
