(* ===== verification/Spec2Isabelle.thy ===== *)
theory Spec2Isabelle
  imports QP_Agreement QP_Execution
begin

text \<open>
  Verification of the QuePaxa consensus crate.
\<close>

end
